(* ===== verification/Prelude.thy ===== *)
theory Prelude
  imports Main "HOL-Library.Multiset"
begin

text \<open>
  Shared vocabulary of the development.

  \<^item> \<open>reach\<close>: the states a step relation reaches from its initial states, and the
    locales that turn an inductive invariant, a rank and a progress argument into facts
    about all reachable states (\<open>inductive_invariant\<close>, \<open>ranked_system\<close>,
    \<open>terminating_system\<close>). Every multi-threaded program of the repository is a step
    relation and interprets one of them.
  \<^item> \<open>foldE\<close>: a loop whose body can fail; the first error ends it. The event-driven
    programs are functions into \<open>'e + 's\<close>; \<open>event_machine\<close> lifts a one-event
    invariant to whole runs.
  \<^item> C buffers: \<open>blit\<close> (what \<open>read\<close> does to an array), \<open>strlen\<close> (with the
    missing terminator as a value), \<open>zeros\<close>.
\<close>

named_theorems buf_simps \<open>rewriting of C buffers: blit, strlen, zeros\<close>
named_theorems step_defs \<open>the definitions an operation of a component unfolds to\<close>

subsection \<open>Step relations, reachability and their proof rules\<close>

inductive reach :: "('s \<Rightarrow> bool) \<Rightarrow> ('s \<Rightarrow> 's \<Rightarrow> bool) \<Rightarrow> 's \<Rightarrow> bool"
  for ini :: "'s \<Rightarrow> bool" and nxt :: "'s \<Rightarrow> 's \<Rightarrow> bool" where
  reach_ini: "ini s \<Longrightarrow> reach ini nxt s"
| reach_nxt: "reach ini nxt s \<Longrightarrow> nxt s t \<Longrightarrow> reach ini nxt t"

lemma reach_rtranclp: "nxt\<^sup>*\<^sup>* s t \<Longrightarrow> reach ini nxt s \<Longrightarrow> reach ini nxt t"
  by (induction rule: rtranclp_induct) (auto intro: reach_nxt)

locale inductive_invariant =
  fixes ini :: "'s \<Rightarrow> bool" and nxt :: "'s \<Rightarrow> 's \<Rightarrow> bool" and Inv :: "'s \<Rightarrow> bool"
  assumes ini_holds: "ini s \<Longrightarrow> Inv s"
    and nxt_keeps: "Inv s \<Longrightarrow> nxt s t \<Longrightarrow> Inv t"
begin

lemma reach_holds: "reach ini nxt s \<Longrightarrow> Inv s"
  by (induction rule: reach.induct) (blast intro: ini_holds nxt_keeps)+

lemma run_holds: "nxt\<^sup>*\<^sup>* s t \<Longrightarrow> Inv s \<Longrightarrow> Inv t"
  by (induction rule: rtranclp_induct) (blast intro: nxt_keeps)+

end

text \<open>
  A system whose steps decrease a rank: runs are bounded by the rank of their first state.
\<close>

locale ranked_system = inductive_invariant ini nxt Inv
  for ini :: "'s \<Rightarrow> bool" and nxt :: "'s \<Rightarrow> 's \<Rightarrow> bool" and Inv :: "'s \<Rightarrow> bool" +
  fixes rank :: "'s \<Rightarrow> nat"
  assumes rank_decreases: "Inv s \<Longrightarrow> nxt s t \<Longrightarrow> rank t < rank s"
begin

lemma run_bounded: "Inv s \<Longrightarrow> (nxt ^^ n) s t \<Longrightarrow> n + rank t \<le> rank s"
proof (induction n arbitrary: t)
  case 0
  then show ?case by auto
next
  case (Suc n)
  from Suc.prems(2) obtain u where u: "(nxt ^^ n) s u" "nxt u t"
    by auto
  from u(1) have "nxt\<^sup>*\<^sup>* s u" by (rule relpowp_imp_rtranclp)
  then have "Inv u" using Suc.prems(1) by (rule run_holds)
  with u(2) have "rank t < rank u" by (blast intro: rank_decreases)
  moreover from Suc.prems(1) u(1) have "n + rank u \<le> rank s" by (rule Suc.IH)
  ultimately show ?case by simp
qed

lemma reaches_end: "Inv s \<Longrightarrow> \<exists>t. nxt\<^sup>*\<^sup>* s t \<and> (\<forall>u. \<not> nxt t u)"
proof (induction "rank s" arbitrary: s rule: less_induct)
  case less
  show ?case
  proof (cases "\<exists>u. nxt s u")
    case True
    then obtain u where u: "nxt s u" by blast
    with less.prems have "rank u < rank s" "Inv u" by (auto intro: rank_decreases nxt_keeps)
    then obtain t where "nxt\<^sup>*\<^sup>* u t" "\<forall>v. \<not> nxt t v" using less.hyps by blast
    with u show ?thesis by (meson converse_rtranclp_into_rtranclp)
  qed auto
qed

lemma reach_end: "ini s \<Longrightarrow> \<exists>t. reach ini nxt t \<and> (\<forall>u. \<not> nxt t u)"
  using reaches_end[of s] ini_holds[of s] by (meson reach_ini reach_rtranclp)

end

text \<open>
  With a step available from every state that is not final, every run can be extended to a
  final state, and a run that can take no more steps has ended in one.
\<close>

locale terminating_system = ranked_system ini nxt Inv rank
  for ini :: "'s \<Rightarrow> bool" and nxt :: "'s \<Rightarrow> 's \<Rightarrow> bool" and Inv :: "'s \<Rightarrow> bool"
    and rank :: "'s \<Rightarrow> nat" +
  fixes final :: "'s \<Rightarrow> bool"
  assumes progress: "Inv s \<Longrightarrow> \<not> final s \<Longrightarrow> \<exists>t. nxt s t"
begin

lemma can_finish: "Inv s \<Longrightarrow> \<exists>t. nxt\<^sup>*\<^sup>* s t \<and> final t"
proof (induction "rank s" arbitrary: s rule: less_induct)
  case less
  show ?case
  proof (cases "final s")
    case False
    then obtain u where u: "nxt s u" using progress less.prems by blast
    with less.prems have "rank u < rank s" "Inv u" by (auto intro: rank_decreases nxt_keeps)
    then obtain t where "nxt\<^sup>*\<^sup>* u t" "final t" using less.hyps by blast
    with u show ?thesis by (meson converse_rtranclp_into_rtranclp)
  qed auto
qed

lemma stuck_is_final: "reach ini nxt s \<Longrightarrow> (\<And>t. \<not> nxt s t) \<Longrightarrow> final s"
  using progress reach_holds by blast

end

text \<open>
  A system whose reachable states are a family \<open>st p\<close> of states given by a few parameters.
\<close>

locale state_family =
  fixes ini :: "'s \<Rightarrow> bool" and nxt :: "'s \<Rightarrow> 's \<Rightarrow> bool" and st :: "'p \<Rightarrow> 's" and ok :: "'p \<Rightarrow> bool"
  assumes ini_family: "ini s \<Longrightarrow> \<exists>p. ok p \<and> s = st p"
    and nxt_family: "ok p \<Longrightarrow> nxt (st p) t \<Longrightarrow> \<exists>q. ok q \<and> t = st q"

sublocale state_family \<subseteq> inductive_invariant ini nxt "\<lambda>s. \<exists>p. ok p \<and> s = st p"
  by unfold_locales (blast intro: ini_family, blast intro: nxt_family)

subsection \<open>Loops that can fail\<close>

fun foldE :: "('x \<Rightarrow> 's \<Rightarrow> 'e + 's) \<Rightarrow> 'x list \<Rightarrow> 's \<Rightarrow> 'e + 's" where
  "foldE f [] s = Inr s"
| "foldE f (x # xs) s = (case f x s of Inl e \<Rightarrow> Inl e | Inr s' \<Rightarrow> foldE f xs s')"

lemma foldE_append:
  "foldE f (xs @ ys) s = (case foldE f xs s of Inl e \<Rightarrow> Inl e | Inr s' \<Rightarrow> foldE f ys s')"
  by (induction xs arbitrary: s) (auto split: sum.splits)

lemma foldE_concat: "foldE (foldE f) xss s = foldE f (concat xss) s"
  by (induction xss arbitrary: s) (auto simp: foldE_append split: sum.splits)

lemma foldE_inv:
  assumes "foldE f xs s = Inr t" and "P s"
    and "\<And>x s t. x \<in> set xs \<Longrightarrow> P s \<Longrightarrow> f x s = Inr t \<Longrightarrow> P t"
  shows "P t"
  using assms
proof (induction xs arbitrary: s)
  case (Cons x xs)
  then obtain u where u: "f x s = Inr u" "foldE f xs u = Inr t" by (auto split: sum.splits)
  with Cons.prems have "P u" by (meson list.set_intros(1))
  with u Cons show ?case by (meson list.set_intros(2))
qed simp

lemma foldE_total:
  assumes "P s"
    and "\<And>x s. x \<in> set xs \<Longrightarrow> P s \<Longrightarrow> \<exists>t. f x s = Inr t \<and> P t"
  shows "\<exists>t. foldE f xs s = Inr t \<and> P t"
  using assms by (induction xs arbitrary: s) fastforce+

lemma foldE_error:
  "foldE f xs s = Inl e \<Longrightarrow> \<exists>ys x zs u. xs = ys @ x # zs \<and> foldE f ys s = Inr u \<and> f x u = Inl e"
proof (induction xs arbitrary: s)
  case Nil
  then show ?case by simp
next
  case (Cons x xs)
  show ?case
  proof (cases "f x s")
    case (Inl a)
    with Cons.prems have "x # xs = [] @ x # xs \<and> foldE f [] s = Inr s \<and> f x s = Inl e" by simp
    then show ?thesis by blast
  next
    case (Inr s')
    with Cons.prems have "foldE f xs s' = Inl e" by simp
    from Cons.IH[OF this] obtain ys z zs u
      where "xs = ys @ z # zs" "foldE f ys s' = Inr u" "f z u = Inl e" by blast
    with Inr have "x # xs = (x # ys) @ z # zs \<and> foldE f (x # ys) s = Inr u \<and> f z u = Inl e"
      by simp
    then show ?thesis by blast
  qed
qed

text \<open>An event-driven program: one event at a time, an error ends the run.\<close>

locale event_machine =
  fixes handle :: "'ev \<Rightarrow> 's \<Rightarrow> 'e + 's" and Inv :: "'s \<Rightarrow> bool"
  assumes handle_keeps: "Inv s \<Longrightarrow> handle ev s = Inr t \<Longrightarrow> Inv t"
begin

lemma run_keeps: "Inv s \<Longrightarrow> foldE handle evs s = Inr t \<Longrightarrow> Inv t"
  by (rule foldE_inv[where f = handle and P = Inv]) (auto intro: handle_keeps)

end

subsection \<open>Lists\<close>

lemma nth_upd: "j < length xs \<Longrightarrow> xs[i := v] ! j = (if i = j then v else xs ! j)"
  by (cases "i = j") auto

subsection \<open>C character buffers\<close>

abbreviation NUL :: char where "NUL \<equiv> CHR 0x00"

definition zeros :: "nat \<Rightarrow> string" where
  "zeros n = replicate n NUL"

text \<open>\<open>read\<close> and \<open>memcpy\<close> replace the front of the array and leave the rest as it was.\<close>

definition blit :: "string \<Rightarrow> string \<Rightarrow> string" where
  "blit d buf = d @ drop (length d) buf"

text \<open>\<open>strlen\<close> of an array: None when no terminator is found inside it (the call reads on).\<close>

definition strlen :: "string \<Rightarrow> nat option" where
  "strlen buf = (if NUL \<in> set buf then Some (length (takeWhile (\<lambda>c. c \<noteq> NUL) buf)) else None)"

lemma length_zeros [simp, buf_simps]: "length (zeros n) = n"
  by (simp add: zeros_def)

lemma length_blit [buf_simps]: "length d \<le> length buf \<Longrightarrow> length (blit d buf) = length buf"
  by (simp add: blit_def)

lemma take_blit [buf_simps]: "take (length d) (blit d buf) = d"
  by (simp add: blit_def)

lemma strlen_blit_terminated [buf_simps]:
  "NUL \<in> set d \<Longrightarrow> strlen (blit d buf) = Some (length (takeWhile (\<lambda>c. c \<noteq> NUL) d))"
  by (simp add: strlen_def blit_def)

lemma strlen_blit_zeros [buf_simps]:
  assumes "NUL \<notin> set d" and "length d < n"
  shows "strlen (blit d (zeros n)) = Some (length d)"
proof -
  from assms(2) obtain m where "n - length d = Suc m" by (metis Suc_diff_Suc)
  then have "drop (length d) (zeros n) = NUL # replicate m NUL" by (simp add: zeros_def)
  moreover have "takeWhile (\<lambda>c. c \<noteq> NUL) (d @ NUL # replicate m NUL) = d"
    using assms(1) by (subst takeWhile_append2) auto
  ultimately show ?thesis by (simp add: strlen_def blit_def)
qed

lemma strlen_None [buf_simps]: "NUL \<notin> set buf \<Longrightarrow> strlen buf = None"
  by (simp add: strlen_def)

lemma take_strlen_no_nul: "strlen buf = Some k \<Longrightarrow> NUL \<notin> set (take k buf)"
  by (auto simp: strlen_def takeWhile_eq_take[symmetric] dest: set_takeWhileD split: if_splits)

lemma length_takeWhile_less: "x \<in> set xs \<Longrightarrow> \<not> P x \<Longrightarrow> length (takeWhile P xs) < length xs"
  by (induction xs) auto

lemma strlen_less: "strlen buf = Some k \<Longrightarrow> k < length buf"
  by (auto simp: strlen_def length_takeWhile_less split: if_splits)

end
