(* ===== verification/Posix_IO.thy ===== *)
theory Posix_IO
  imports Prelude
begin

text \<open>
  The system calls of the socket and pipe programs, as the programs see them. The kernel is
  not part of the repository: the result of every call is an argument of the definition that
  makes it (an \<open>accept_result\<close>, a \<open>read_result\<close>, a \<open>select_result\<close>, an integer), and
  what a program does to the outside is the list of calls it issues (\<open>sysact\<close>).
  Diagnostic lines (\<open>printf\<close>, \<open>perror\<close>, \<open>fprintf\<close>) appear as \<open>Diag\<close> with a short
  ASCII tag, because their texts are partly Chinese.
\<close>

datatype sysact =
    Write int string          \<comment> \<open>\<open>write(fd, p, n)\<close>: the \<open>n\<close> bytes at \<open>p\<close>\<close>
  | WriteCount int int        \<comment> \<open>\<open>write(fd, p, n)\<close> with an \<open>n\<close> that is no length\<close>
  | Close int
  | ShutdownWr int
  | Bind int string int
  | Listen int int
  | Connect int string int
  | Diag string

text \<open>\<open>read\<close> fails with an errno, or finds some queued bytes and returns at most \<open>n\<close> of them.\<close>

datatype read_result = ReadErr int | ReadOk string

fun read_ret :: "read_result \<Rightarrow> nat \<Rightarrow> int" where
  "read_ret (ReadErr e) n = -1"
| "read_ret (ReadOk d) n = int (length (take n d))"

fun read_into :: "read_result \<Rightarrow> nat \<Rightarrow> string \<Rightarrow> string" where
  "read_into (ReadErr e) n buf = buf"
| "read_into (ReadOk d) n buf = blit (take n d) buf"

text \<open>\<open>accept\<close> fails with an errno or returns a new descriptor, which is never negative.\<close>

datatype accept_result = AcceptErr int | AcceptFd nat

definition EINTR :: int where "EINTR = 4"

text \<open>\<open>select\<close>: an error, a timeout, or the descriptors of the set that are ready.\<close>

datatype select_result = SelectErr | SelectTimeout | SelectReady "int set"

record sock_env =
  socket_ret :: int
  setsockopt_ret :: int
  bind_ret :: int

text \<open>What goes wrong outside the defined behaviour of the C program.\<close>

datatype c_error =
    IndexOutOfRange nat       \<comment> \<open>an array subscript past its end\<close>
  | UnterminatedString        \<comment> \<open>\<open>strlen\<close> of an array that holds no terminator\<close>
  | OverRead nat nat          \<comment> \<open>\<open>n\<close> bytes taken from an object of \<open>m < n\<close> bytes\<close>
  | OverWrite nat nat         \<comment> \<open>\<open>n\<close> bytes stored into an object of \<open>m < n\<close> bytes\<close>
  | NullDeref                 \<comment> \<open>a null pointer is dereferenced\<close>
  | SignedOverflow            \<comment> \<open>a signed result that does not fit its type\<close>

text \<open>The bytes \<open>write(fd, arr, n)\<close> hands to the kernel when \<open>arr\<close> is an array of known size.\<close>

definition bytes_of :: "string \<Rightarrow> nat \<Rightarrow> c_error + string" where
  "bytes_of arr n = (if n \<le> length arr then Inr (take n arr) else Inl (OverRead n (length arr)))"

text \<open>\<open>atoi\<close>: leading blanks, a sign, digits.\<close>

fun digits_val :: "int \<Rightarrow> string \<Rightarrow> int" where
  "digits_val acc [] = acc"
| "digits_val acc (c # cs) =
     (let v = of_char c - (48 :: int) in if 0 \<le> v \<and> v \<le> 9 then digits_val (10 * acc + v) cs else acc)"

definition atoi :: "string \<Rightarrow> int" where
  "atoi str =
     (let d = dropWhile (\<lambda>c. of_char c = (32 :: int) \<or> 9 \<le> (of_char c :: int) \<and> (of_char c :: int) \<le> 13) str in
      case d of
        [] \<Rightarrow> 0
      | c # cs \<Rightarrow> if c = CHR ''-'' then - digits_val 0 cs
                  else if c = CHR ''+'' then digits_val 0 cs else digits_val 0 (c # cs))"

text \<open>The scan for a free descriptor slot: the index of the first negative entry, else the length.\<close>

fun slot_scan :: "int list \<Rightarrow> nat" where
  "slot_scan [] = 0"
| "slot_scan (f # fs) = (if f < 0 then 0 else Suc (slot_scan fs))"

lemma slot_scan_le: "slot_scan fs \<le> length fs"
  by (induction fs) auto

lemma slot_scan_neg: "slot_scan fs < length fs \<Longrightarrow> fs ! slot_scan fs < 0"
  by (induction fs) auto

lemma slot_scan_before: "i < slot_scan fs \<Longrightarrow> 0 \<le> fs ! i"
  by (induction fs arbitrary: i) (auto simp: nth_Cons split: nat.splits if_splits)

lemma slot_scan_first: "n < length fs \<Longrightarrow> fs ! n < 0 \<Longrightarrow> slot_scan fs \<le> n"
  by (meson not_le_imp_less not_less slot_scan_before)

lemma length_read_into [buf_simps]:
  "n \<le> length buf \<Longrightarrow> length (read_into r n buf) = length buf"
  by (cases r) (auto simp: buf_simps)

lemma read_ret_pos_iff: "0 < read_ret r n \<longleftrightarrow> (\<exists>d. r = ReadOk d \<and> take n d \<noteq> [])"
  by (cases r) auto

end
