(* ===== verification/Select_Server.thy ===== *)
theory Select_Server
  imports Posix_IO
begin

text \<open>
  The \<open>select\<close> echo server (\<open>code/network/IO/multiplexing/via_select/server.cpp\<close>) and its
  client (\<open>client.cpp\<close> beside it). The server's context is a record with the fields of
  \<open>server_context_st\<close>; one pass of the \<open>while (1)\<close> loop of \<open>handle_client_proc\<close> is
  \<open>handle_client_iter\<close>, given what the kernel answers in that pass. The C arrays keep
  their size, and an access past the end is the error \<open>IndexOutOfRange\<close>. Descriptors are taken
  to be below \<open>FD_SETSIZE\<close>, and the count of clients, which the code only increases, is a natural
  number.
\<close>

definition SIZE :: nat where "SIZE = 10"
definition MAXLINE :: nat where "MAXLINE = 1024"
definition LISTENQ :: int where "LISTENQ = 5"

record server_context_st =
  cli_cnt :: nat
  clifds :: "int list"
  allfds :: "int set"
  maxfd :: int

definition create_server_proc :: "sock_env \<Rightarrow> string \<Rightarrow> int \<Rightarrow> int \<times> sysact list" where
  "create_server_proc env ip port =
     (let fd = socket_ret env in
      if fd = -1 then (-1, [Diag ''create socket fail''])
      else if setsockopt_ret env = -1 then (-1, [])
      else if bind_ret env = -1 then (-1, [Bind fd ip port, Diag ''bind error''])
      else (fd, [Bind fd ip port, Listen fd LISTENQ]))"

text \<open>The loop at the label \<open>ACCEPT\<close>: retry while the error is \<open>EINTR\<close>; None: still waiting.\<close>

fun accept_retry :: "accept_result list \<Rightarrow> accept_result option" where
  "accept_retry [] = None"
| "accept_retry (AcceptErr e # rs) =
     (if e = EINTR then accept_retry rs else Some (AcceptErr e))"
| "accept_retry (AcceptFd n # rs) = Some (AcceptFd n)"

definition accept_client_proc ::
  "accept_result list \<Rightarrow> server_context_st \<Rightarrow> (int \<times> server_context_st \<times> sysact list) option" where
  "accept_client_proc accs ctx =
     (case accept_retry accs of
        None \<Rightarrow> None
      | Some (AcceptErr e) \<Rightarrow> Some (-1, ctx, [Diag ''accept fail''])
      | Some (AcceptFd clifd) \<Rightarrow>
          (let i = slot_scan (clifds ctx) in
           if i < SIZE
           then Some (0, ctx\<lparr>clifds := (clifds ctx)[i := int clifd], cli_cnt := cli_cnt ctx + 1\<rparr>,
                      [Diag ''accept a new client''])
           else Some (-1, ctx, [Diag ''accept a new client'', Diag ''too many clients''])))"

definition handle_client_msg :: "int \<Rightarrow> string \<Rightarrow> c_error + sysact list" where
  "handle_client_msg fd buf =
     (case strlen buf of
        None \<Rightarrow> Inl UnterminatedString
      | Some k \<Rightarrow> Inr [Diag ''recv buf'', Write fd (take (k + 1) buf)])"

text \<open>
  One turn of the loop of \<open>recv_client_msg\<close>. The buffer is declared outside the loop, so it
  is threaded from one client to the next; \<open>rd i\<close> is what \<open>read\<close> returns in turn \<open>i\<close>.
  The set tested is the context's \<open>allfds\<close>: \<open>readfds\<close> points to it.
\<close>

definition recv_slot ::
  "(nat \<Rightarrow> read_result) \<Rightarrow> nat \<Rightarrow> server_context_st \<times> string \<times> sysact list
   \<Rightarrow> c_error + server_context_st \<times> string \<times> sysact list" where
  "recv_slot rd i st =
     (case st of (ctx, buf, acts) \<Rightarrow>
      if SIZE \<le> i then Inl (IndexOutOfRange i)
      else let clifd = clifds ctx ! i in
        if clifd < 0 then Inr (ctx, buf, acts)
        else if clifd \<in> allfds ctx then
          let n = read_ret (rd i) MAXLINE; buf' = read_into (rd i) MAXLINE buf in
          if n \<le> 0 then
            Inr (ctx\<lparr>allfds := allfds ctx - {clifd}, clifds := (clifds ctx)[i := -1]\<rparr>, buf',
                 acts @ [Close clifd])
          else (case handle_client_msg clifd buf' of
                  Inl e \<Rightarrow> Inl e
                | Inr as \<Rightarrow> Inr (ctx, buf', acts @ as))
        else Inr (ctx, buf, acts))"

definition recv_client_msg ::
  "(nat \<Rightarrow> read_result) \<Rightarrow> server_context_st \<Rightarrow> c_error + server_context_st \<times> sysact list" where
  "recv_client_msg rd ctx =
     (case foldE (recv_slot rd) [0..<Suc (cli_cnt ctx)] (ctx, zeros MAXLINE, []) of
        Inl e \<Rightarrow> Inl e
      | Inr (ctx', _, acts) \<Rightarrow> Inr (ctx', acts))"

text \<open>One turn of the loop that adds the client descriptors to the set.\<close>

definition add_slot :: "nat \<Rightarrow> server_context_st \<Rightarrow> c_error + server_context_st" where
  "add_slot i ctx =
     (if SIZE \<le> i then Inl (IndexOutOfRange i)
      else let clifd = clifds ctx ! i;
               ctx' = (if clifd \<noteq> -1 then ctx\<lparr>allfds := insert clifd (allfds ctx)\<rparr> else ctx)
           in Inr (ctx'\<lparr>maxfd := (if clifd > maxfd ctx then clifd else maxfd ctx)\<rparr>))"

definition fill_fds :: "int \<Rightarrow> server_context_st \<Rightarrow> c_error + server_context_st" where
  "fill_fds srvfd ctx =
     foldE add_slot [0..<cli_cnt ctx] (ctx\<lparr>allfds := {srvfd}, maxfd := srvfd\<rparr>)"

record select_event =
  sel :: select_result
  accs :: "accept_result list"
  rds :: "nat \<Rightarrow> read_result"

text \<open>
  Where the server is between two passes: in the loop, returned from \<open>handle_client_proc\<close>,
  or still inside \<open>accept\<close>.
\<close>

datatype srv_pc = Looping | Left | InAccept

type_synonym srv_state = "srv_pc \<times> server_context_st \<times> sysact list"

definition handle_client_iter :: "int \<Rightarrow> select_event \<Rightarrow> srv_state \<Rightarrow> c_error + srv_state" where
  "handle_client_iter srvfd ev st =
     (case st of (pc, ctx0, acts) \<Rightarrow>
      if pc \<noteq> Looping then Inr st
      else (case fill_fds srvfd ctx0 of
        Inl e \<Rightarrow> Inl e
      | Inr ctx \<Rightarrow>
         (case sel ev of
            SelectErr \<Rightarrow> Inr (Left, ctx, acts @ [Diag ''select error''])
          | SelectTimeout \<Rightarrow>
              Inr (Looping, ctx\<lparr>allfds := {}\<rparr>, acts @ [Diag ''select is timeout''])
          | SelectReady r \<Rightarrow>
              (let ctx = ctx\<lparr>allfds := r \<inter> allfds ctx\<rparr> in
               if srvfd \<in> allfds ctx then
                 (case accept_client_proc (accs ev) ctx of
                    None \<Rightarrow> Inr (InAccept, ctx, acts)
                  | Some (_, ctx', as) \<Rightarrow> Inr (Looping, ctx', acts @ as))
               else
                 (case recv_client_msg (rds ev) ctx of
                    Inl e \<Rightarrow> Inl e
                  | Inr (ctx', as) \<Rightarrow> Inr (Looping, ctx', acts @ as))))))"

definition handle_client_proc ::
  "int \<Rightarrow> select_event list \<Rightarrow> server_context_st \<Rightarrow> c_error + srv_state" where
  "handle_client_proc srvfd evs ctx = foldE (handle_client_iter srvfd) evs (Looping, ctx, [])"

definition server_init :: "bool \<Rightarrow> int \<times> server_context_st option" where
  "server_init malloc_ok =
     (if malloc_ok
      then (0, Some \<lparr>cli_cnt = 0, clifds = replicate SIZE (-1), allfds = {}, maxfd = 0\<rparr>)
      else (-1, None))"

definition server_uninit :: "server_context_st option \<Rightarrow> server_context_st option" where
  "server_uninit s_srv_ctx = (case s_srv_ctx of Some _ \<Rightarrow> None | None \<Rightarrow> None)"

text \<open>
  \<open>main\<close>: the exit status (None while the server still runs), the global context pointer and
  the calls issued.
\<close>

definition main_server ::
  "bool \<Rightarrow> sock_env \<Rightarrow> select_event list
   \<Rightarrow> c_error + int option \<times> server_context_st option \<times> sysact list" where
  "main_server malloc_ok env evs =
     (case server_init malloc_ok of
        (r, None) \<Rightarrow> Inr (Some (-1), None, [])
      | (r, Some ctx) \<Rightarrow>
         (case create_server_proc env ''127.0.0.1'' 8787 of (srvfd, as) \<Rightarrow>
          if srvfd < 0
          then Inr (Some (-1), server_uninit (Some ctx), as @ [Diag ''socket create or bind fail''])
          else (case handle_client_proc srvfd evs ctx of
                  Inl e \<Rightarrow> Inl e
                | Inr (pc, ctx', bs) \<Rightarrow>
                    if pc = Left then Inr (Some 0, server_uninit (Some ctx'), as @ bs)
                    else Inr (None, Some ctx', as @ bs))))"

subsection \<open>The client\<close>

definition handle_recv_msg :: "int \<Rightarrow> string \<Rightarrow> c_error + sysact list" where
  "handle_recv_msg sockfd buf =
     (case strlen buf of
        None \<Rightarrow> Inl UnterminatedString
      | Some k \<Rightarrow> Inr [Diag ''client recv msg'', Write sockfd (take (k + 1) buf)])"

text \<open>
  One pass of the client's loop: the flag tells whether it goes on; \<open>recvline\<close> is the
  receive buffer, which the code never initialises.
\<close>

definition handle_connection_iter ::
  "int \<Rightarrow> select_result \<times> read_result \<Rightarrow> bool \<times> string \<times> sysact list
   \<Rightarrow> c_error + bool \<times> string \<times> sysact list" where
  "handle_connection_iter sockfd ev st =
     (case st of (go, recvline, acts) \<Rightarrow>
      if \<not> go then Inr st
      else (case fst ev of
        SelectErr \<Rightarrow> Inr (False, recvline, acts)
      | SelectTimeout \<Rightarrow> Inr (True, recvline, acts @ [Diag ''client timeout''])
      | SelectReady r \<Rightarrow>
          if sockfd \<in> r \<inter> {sockfd} then
            let n = read_ret (snd ev) MAXLINE; recvline' = read_into (snd ev) MAXLINE recvline in
            if n \<le> 0
            then Inr (False, recvline', acts @ [Diag ''client: server is closed'', Close sockfd])
            else (case handle_recv_msg sockfd recvline' of
                    Inl e \<Rightarrow> Inl e
                  | Inr as \<Rightarrow> Inr (True, recvline', acts @ as))
          else Inr (True, recvline, acts)))"

definition main_client ::
  "int \<Rightarrow> int \<Rightarrow> string \<Rightarrow> (select_result \<times> read_result) list \<Rightarrow> c_error + int option \<times> sysact list" where
  "main_client sockfd connect_ret recvline evs =
     (let as = [Connect sockfd ''127.0.0.1'' 8787] in
      if connect_ret < 0 then Inr (Some (-1), as @ [Diag ''connect fail''])
      else (case bytes_of (''hello server'' @ [NUL]) 32 of
              Inl e \<Rightarrow> Inl e
            | Inr bs \<Rightarrow>
               (case foldE (handle_connection_iter sockfd) evs
                       (True, recvline, as @ [Diag ''client send to server'', Write sockfd bs]) of
                  Inl e \<Rightarrow> Inl e
                | Inr (go, _, acts) \<Rightarrow> Inr (if go then None else Some 0, acts))))"

subsection \<open>The descriptor table\<close>

text \<open>
  What every pass keeps: the table has its size, free slots hold \<open>-1\<close>, and no slot at or
  beyond \<open>cli_cnt\<close> is in use.
\<close>

definition ctx_ok :: "server_context_st \<Rightarrow> bool" where
  "ctx_ok ctx \<longleftrightarrow> length (clifds ctx) = SIZE \<and> (\<forall>f \<in> set (clifds ctx). -1 \<le> f) \<and>
     (\<forall>f \<in> set (drop (cli_cnt ctx) (clifds ctx)). f = -1)"

lemma ctx_ok_slot: "ctx_ok ctx \<Longrightarrow> cli_cnt ctx \<le> i \<Longrightarrow> i < SIZE \<Longrightarrow> clifds ctx ! i = -1"
  by (auto simp: ctx_ok_def in_set_conv_nth dest!: bspec[where x = "clifds ctx ! i"]
      intro!: exI[of _ "i - cli_cnt ctx"])

lemma ctx_okI:
  assumes "length (clifds ctx) = SIZE" and "\<And>i. i < SIZE \<Longrightarrow> -1 \<le> clifds ctx ! i"
    and "\<And>i. cli_cnt ctx \<le> i \<Longrightarrow> i < SIZE \<Longrightarrow> clifds ctx ! i = -1"
  shows "ctx_ok ctx"
  using assms by (fastforce simp: ctx_ok_def in_set_conv_nth)

lemma ctx_ok_ge: "ctx_ok ctx \<Longrightarrow> i < SIZE \<Longrightarrow> -1 \<le> clifds ctx ! i"
  by (simp add: ctx_ok_def)

lemma ctx_ok_len: "ctx_ok ctx \<Longrightarrow> length (clifds ctx) = SIZE"
  by (simp add: ctx_ok_def)

lemma ctx_ok_allfds [simp]:
  "ctx_ok (ctx\<lparr>allfds := A\<rparr>) = ctx_ok ctx" "ctx_ok (ctx\<lparr>maxfd := m\<rparr>) = ctx_ok ctx"
  by (simp_all add: ctx_ok_def)

lemma ctx_ok_free:
  "ctx_ok ctx \<Longrightarrow> ctx_ok (ctx\<lparr>allfds := A, clifds := (clifds ctx)[i := -1]\<rparr>)"
  by (rule ctx_okI) (auto simp: nth_upd ctx_ok_len ctx_ok_ge ctx_ok_slot)

lemma slot_scan_le_cnt:
  assumes "ctx_ok ctx" and "cli_cnt ctx < SIZE"
  shows "slot_scan (clifds ctx) \<le> cli_cnt ctx"
  using assms ctx_ok_slot[OF assms(1) order_refl assms(2)]
  by (intro slot_scan_first) (auto simp: ctx_ok_len)

lemma accept_client_proc_ok:
  assumes "ctx_ok ctx" and "accept_client_proc rs ctx = Some (r, ctx', as)"
  shows "ctx_ok ctx'"
proof -
  let ?i = "slot_scan (clifds ctx)"
  have new: "ctx_ok (ctx\<lparr>clifds := (clifds ctx)[?i := int n], cli_cnt := cli_cnt ctx + 1\<rparr>)"
    if "?i < SIZE" for n
    using assms(1) that slot_scan_le_cnt[OF assms(1)]
    by (intro ctx_okI) (auto simp: nth_list_update ctx_ok_len ctx_ok_ge ctx_ok_slot)
  with assms show ?thesis
    by (auto simp: accept_client_proc_def Let_def split: option.splits accept_result.splits if_splits)
qed

lemma recv_slot_ok:
  "ctx_ok (fst st) \<Longrightarrow> recv_slot rd i st = Inr st' \<Longrightarrow>
   ctx_ok (fst st') \<and> cli_cnt (fst st') = cli_cnt (fst st)"
  by (cases st) (auto simp: recv_slot_def Let_def ctx_ok_free split: if_splits sum.splits)

lemma recv_client_msg_ok:
  assumes "ctx_ok ctx" and "recv_client_msg rd ctx = Inr (ctx', as)"
  shows "ctx_ok ctx'"
proof -
  from assms(2) obtain buf where
    "foldE (recv_slot rd) [0..<Suc (cli_cnt ctx)] (ctx, zeros MAXLINE, []) = Inr (ctx', buf, as)"
    by (auto simp: recv_client_msg_def split: sum.splits)
  then have "ctx_ok (fst (ctx', buf, as))"
    by (rule foldE_inv[where P = "\<lambda>st. ctx_ok (fst st)"]) (use assms(1) in \<open>auto dest: recv_slot_ok\<close>)
  then show ?thesis by simp
qed

lemma add_slot_simps:
  assumes "add_slot i ctx = Inr ctx'"
  shows "clifds ctx' = clifds ctx" "cli_cnt ctx' = cli_cnt ctx"
    "allfds ctx' = allfds ctx \<union> ({clifds ctx ! i} - {-1})"
    "maxfd ctx' = max (maxfd ctx) (clifds ctx ! i)"
  using assms by (auto simp: add_slot_def Let_def split: if_splits)

lemma fill_loop:
  assumes "n \<le> SIZE"
  shows "\<exists>ctx'. foldE add_slot [0..<n] ctx = Inr ctx' \<and> clifds ctx' = clifds ctx \<and>
    cli_cnt ctx' = cli_cnt ctx \<and>
    allfds ctx' = allfds ctx \<union> ((\<lambda>i. clifds ctx ! i) ` {0..<n} - {-1}) \<and>
    maxfd ctx' = Max (insert (maxfd ctx) ((\<lambda>i. clifds ctx ! i) ` {0..<n}))"
  using assms
proof (induction n)
  case (Suc n)
  then obtain c where c: "foldE add_slot [0..<n] ctx = Inr c" "clifds c = clifds ctx"
    "cli_cnt c = cli_cnt ctx" "allfds c = allfds ctx \<union> ((\<lambda>i. clifds ctx ! i) ` {0..<n} - {-1})"
    "maxfd c = Max (insert (maxfd ctx) ((\<lambda>i. clifds ctx ! i) ` {0..<n}))" by auto
  from Suc.prems obtain c' where c': "add_slot n c = Inr c'"
    by (auto simp: add_slot_def Let_def)
  have "Max (insert (maxfd ctx) ((\<lambda>i. clifds ctx ! i) ` {0..<Suc n})) =
      max (clifds ctx ! n) (Max (insert (maxfd ctx) ((\<lambda>i. clifds ctx ! i) ` {0..<n})))"
    by (subst Max_insert[symmetric]) (auto simp: atLeast0_lessThan_Suc insert_commute)
  with c c' add_slot_simps[OF c'] show ?case
    by (auto simp: foldE_append atLeast0_lessThan_Suc max.commute)
qed auto

lemma fill_fds_shape:
  "fill_fds srvfd ctx = Inr ctx' \<Longrightarrow> clifds ctx' = clifds ctx \<and> cli_cnt ctx' = cli_cnt ctx"
  unfolding fill_fds_def
  by (drule foldE_inv[where P = "\<lambda>c. clifds c = clifds ctx \<and> cli_cnt c = cli_cnt ctx"])
     (auto dest: add_slot_simps)

lemma fill_fds_ok: "ctx_ok ctx \<Longrightarrow> fill_fds srvfd ctx = Inr ctx' \<Longrightarrow> ctx_ok ctx'"
  using fill_fds_shape by (fastforce simp: ctx_ok_def)

lemma handle_client_iter_ok:
  assumes "ctx_ok (fst (snd st))" and "handle_client_iter srvfd ev st = Inr st'"
  shows "ctx_ok (fst (snd st'))"
proof -
  obtain pc ctx acts where st: "st = (pc, ctx, acts)" by (cases st)
  show ?thesis
  proof (cases "pc = Looping \<and> (\<exists>c. fill_fds srvfd ctx = Inr c)")
    case True
    then obtain c where c: "fill_fds srvfd ctx = Inr c" "pc = Looping" by blast
    with assms(1) st have ok: "ctx_ok (c\<lparr>allfds := A\<rparr>)" for A by (simp add: fill_fds_ok)
    with c assms(2) st show ?thesis
      by (auto simp: handle_client_iter_def Let_def dest: accept_client_proc_ok[OF ok]
          recv_client_msg_ok[OF ok] split: if_splits sum.splits select_result.splits option.splits)
  next
    case False
    with assms st show ?thesis
      by (auto simp: handle_client_iter_def split: if_splits sum.splits)
  qed
qed

interpretation select_srv: event_machine "handle_client_iter srvfd" "\<lambda>st. ctx_ok (fst (snd st))"
  by unfold_locales (rule handle_client_iter_ok)

lemma init_ok: "server_init True = (0, Some ctx) \<Longrightarrow> ctx_ok ctx"
  by (auto simp: server_init_def ctx_ok_def)

lemma SIZE_drop: "ctx_ok ctx \<Longrightarrow> cli_cnt ctx \<le> SIZE \<Longrightarrow>
  (\<lambda>i. clifds ctx ! i) ` {0..<cli_cnt ctx} - {-1} = set (clifds ctx) - {-1}"
proof (intro equalityI subsetI; elim DiffE)
  fix f assume ok: "ctx_ok ctx" and "f \<in> set (clifds ctx)" "f \<notin> {-1}"
  then obtain i where i: "i < SIZE" "clifds ctx ! i = f" by (auto simp: in_set_conv_nth ctx_ok_len)
  with ok \<open>f \<notin> {-1}\<close> have "i < cli_cnt ctx" using ctx_ok_slot by (metis not_less singletonI)
  with i \<open>f \<notin> {-1}\<close> show "f \<in> (\<lambda>i. clifds ctx ! i) ` {0..<cli_cnt ctx} - {-1}" by auto
qed (auto simp: ctx_ok_len)

lemma ctx_ok_neg: "ctx_ok ctx \<Longrightarrow> set (clifds ctx) - {-1} = {f \<in> set (clifds ctx). 0 \<le> f}"
  by (force simp: ctx_ok_def)

text \<open>
  C18. The set that \<open>select\<close> is given is complete: whatever the server has been through since
  \<open>server_init\<close>, as long as no more than \<open>SIZE\<close> connections were ever accepted, the next
  pass builds the set of the listening socket and of exactly the connected clients, and its
  \<open>maxfd\<close> is an upper bound of that set that is one of its members or the listening socket.
\<close>

theorem select_watches_every_client:
  assumes "server_init True = (0, Some ctx0)"
    and "handle_client_proc srvfd evs ctx0 = Inr (pc, ctx, acts)"
    and "cli_cnt ctx \<le> SIZE" and "0 \<le> srvfd"
  shows "\<exists>ctx'. fill_fds srvfd ctx = Inr ctx' \<and>
    allfds ctx' = insert srvfd {f \<in> set (clifds ctx). 0 \<le> f} \<and>
    maxfd ctx' \<in> allfds ctx' \<and> (\<forall>f \<in> allfds ctx'. f \<le> maxfd ctx')"
proof -
  have ok: "ctx_ok ctx"
    using assms(1,2) select_srv.run_keeps[of "(Looping, ctx0, [])" srvfd evs "(pc, ctx, acts)"]
    by (auto simp: handle_client_proc_def dest: init_ok)
  let ?I = "(\<lambda>i. clifds ctx ! i) ` {0..<cli_cnt ctx}"
  from fill_loop[OF assms(3), of "ctx\<lparr>allfds := {srvfd}, maxfd := srvfd\<rparr>"]
  obtain ctx' where c': "fill_fds srvfd ctx = Inr ctx'" "allfds ctx' = insert srvfd (?I - {-1})"
    "maxfd ctx' = Max (insert srvfd ?I)"
    by (auto simp: fill_fds_def)
  have "Max (insert srvfd ?I) \<in> insert srvfd ?I" by (rule Max_in) auto
  moreover have ge: "f \<le> Max (insert srvfd ?I)" if "f \<in> insert srvfd ?I" for f
    using that by (intro Max_ge) auto
  moreover have "Max (insert srvfd ?I) \<noteq> -1" using ge[OF insertI1] assms(4) by linarith
  ultimately have "maxfd ctx' \<in> allfds ctx'" "\<forall>f \<in> allfds ctx'. f \<le> maxfd ctx'"
    unfolding c' by blast+
  with c'(1,2) show ?thesis unfolding SIZE_drop[OF ok assms(3)] ctx_ok_neg[OF ok] by blast
qed

text \<open>The kernel's answers in a pass that accepts the connection with descriptor \<open>n\<close>.\<close>

definition accept_event :: "int \<Rightarrow> nat \<Rightarrow> select_event" where
  "accept_event srvfd n = \<lparr>sel = SelectReady {srvfd}, accs = [AcceptFd n], rds = (\<lambda>_. ReadErr 0)\<rparr>"

theorem select_watches_every_client_witness:
  "\<exists>ctx'. fill_fds 3 \<lparr>cli_cnt = 2, clifds = [4, 5] @ replicate 8 (-1), allfds = {3}, maxfd = 4\<rparr>
      = Inr ctx' \<and> allfds ctx' = insert 3 {f \<in> set ([4, 5] @ replicate 8 (-1)). 0 \<le> f} \<and>
    maxfd ctx' \<in> allfds ctx' \<and> (\<forall>f \<in> allfds ctx'. f \<le> maxfd ctx')"
proof -
  let ?c = "\<lparr>cli_cnt = 0, clifds = replicate SIZE (-1), allfds = {}, maxfd = 0\<rparr>"
  have run: "handle_client_proc 3 [accept_event 3 4, accept_event 3 5] ?c = Inr (Looping,
      \<lparr>cli_cnt = 2, clifds = [4, 5] @ replicate 8 (-1), allfds = {3}, maxfd = 4\<rparr>,
      [Diag ''accept a new client'', Diag ''accept a new client''])"
    by (auto simp: handle_client_proc_def handle_client_iter_def accept_event_def fill_fds_def
        add_slot_def accept_client_proc_def SIZE_def numeral_eq_Suc)
  have ini: "server_init True = (0, Some ?c)" by (simp add: server_init_def)
  show ?thesis
    using select_watches_every_client[OF ini run] by (simp add: SIZE_def)
qed

lemma recv_slot_index:
  "recv_slot rd i st = Inl (IndexOutOfRange j) \<Longrightarrow> SIZE \<le> i"
  by (cases st)
     (auto simp: recv_slot_def Let_def handle_client_msg_def
        split: if_splits sum.splits option.splits)

text \<open>
  C23. The message loop runs one slot too far. It stays inside \<open>clifds\<close> exactly while fewer
  than \<open>SIZE\<close> connections have been accepted; once \<open>cli_cnt\<close> has reached \<open>SIZE\<close> (it is
  never decremented) no call of \<open>recv_client_msg\<close> completes inside the array, whatever the
  clients send.
\<close>

theorem recv_loop_bounds:
  "(SIZE \<le> cli_cnt ctx \<longrightarrow> (\<exists>e. recv_client_msg rd ctx = Inl e)) \<and>
   (cli_cnt ctx < SIZE \<longrightarrow> (\<forall>i. recv_client_msg rd ctx \<noteq> Inl (IndexOutOfRange i)))"
proof (intro conjI impI allI)
  assume "SIZE \<le> cli_cnt ctx"
  then have "[0..<Suc (cli_cnt ctx)] = [0..<SIZE] @ SIZE # [Suc SIZE..<Suc (cli_cnt ctx)]"
    by (metis le_add_diff_inverse le_imp_less_Suc less_imp_le_nat upt_add_eq_append upt_conv_Cons
        zero_le add_0)
  then show "\<exists>e. recv_client_msg rd ctx = Inl e"
    by (auto simp: recv_client_msg_def foldE_append recv_slot_def split: sum.splits)
next
  fix i assume less: "cli_cnt ctx < SIZE"
  show "recv_client_msg rd ctx \<noteq> Inl (IndexOutOfRange i)"
  proof
    assume "recv_client_msg rd ctx = Inl (IndexOutOfRange i)"
    then have "foldE (recv_slot rd) [0..<Suc (cli_cnt ctx)] (ctx, zeros MAXLINE, []) =
        Inl (IndexOutOfRange i)"
      by (auto simp: recv_client_msg_def split: sum.splits)
    then obtain ys x zs u where xs: "[0..<Suc (cli_cnt ctx)] = ys @ x # zs"
      and "recv_slot rd x u = Inl (IndexOutOfRange i)"
      by (blast dest: foldE_error)
    then have "SIZE \<le> x" by (blast dest: recv_slot_index)
    moreover have "x \<in> set [0..<Suc (cli_cnt ctx)]" unfolding xs by simp
    ultimately show False using less by simp
  qed
qed

theorem recv_loop_bounds_witness:
  "(\<exists>e. recv_client_msg (\<lambda>_. ReadErr 0)
      \<lparr>cli_cnt = 10, clifds = [4, 5, 6, 7, 8, 9, 10, 11, 12, 13], allfds = {}, maxfd = 13\<rparr> = Inl e) \<and>
   recv_client_msg (\<lambda>_. ReadErr 0)
      \<lparr>cli_cnt = 9, clifds = [4, 5, 6, 7, 8, 9, 10, 11, 12, -1], allfds = {}, maxfd = 12\<rparr>
     \<noteq> Inl (IndexOutOfRange 10)"
  using recv_loop_bounds[of "\<lparr>cli_cnt = 10, clifds = [4, 5, 6, 7, 8, 9, 10, 11, 12, 13],
      allfds = {}, maxfd = 13\<rparr>" "\<lambda>_. ReadErr 0"]
    recv_loop_bounds[of "\<lparr>cli_cnt = 9, clifds = [4, 5, 6, 7, 8, 9, 10, 11, 12, -1],
      allfds = {}, maxfd = 12\<rparr>" "\<lambda>_. ReadErr 0"]
  by (simp add: SIZE_def)

subsection \<open>The echo\<close>

text \<open>The reply the client in slot \<open>i\<close> is due: its own message up to the terminator.\<close>

definition echo_reply :: "(nat \<Rightarrow> read_result) \<Rightarrow> server_context_st \<Rightarrow> nat \<Rightarrow> sysact list" where
  "echo_reply rd ctx i =
     (case rd i of
        ReadErr e \<Rightarrow> []
      | ReadOk d \<Rightarrow> [Diag ''recv buf'', Write (clifds ctx ! i) (takeWhile (\<lambda>c. c \<noteq> NUL) d @ [NUL])])"

definition slot_ready :: "server_context_st \<Rightarrow> nat \<Rightarrow> bool" where
  "slot_ready ctx i \<longleftrightarrow> 0 \<le> clifds ctx ! i \<and> clifds ctx ! i \<in> allfds ctx"

lemma handle_client_msg_terminated:
  assumes "NUL \<in> set d"
  shows "handle_client_msg fd (blit d buf) =
    Inr [Diag ''recv buf'', Write fd (takeWhile (\<lambda>c. c \<noteq> NUL) d @ [NUL])]"
proof -
  let ?t = "takeWhile (\<lambda>c. c \<noteq> NUL) d"
  from assms have l: "length ?t < length d" by (rule length_takeWhile_less) simp
  have "d ! length ?t = NUL" using nth_length_takeWhile[OF l] by simp
  then have "take (Suc (length ?t)) d = ?t @ [NUL]"
    using l by (simp add: take_Suc_conv_app_nth takeWhile_eq_take[symmetric])
  then show ?thesis
    using assms l by (simp add: handle_client_msg_def buf_simps) (simp add: blit_def)
qed

lemma takeWhile_take: "x \<in> set (take n d) \<Longrightarrow> \<not> P x \<Longrightarrow> takeWhile P (take n d) = takeWhile P d"
  by (metis append_take_drop_id takeWhile_append1)

lemma recv_slot_echo:
  assumes "i < SIZE"
    and "slot_ready ctx i \<Longrightarrow> \<exists>d. rd i = ReadOk d \<and> NUL \<in> set (take MAXLINE d)"
  shows "\<exists>buf'. recv_slot rd i (ctx, buf, acts) =
    Inr (ctx, buf', acts @ (if slot_ready ctx i then echo_reply rd ctx i else []))"
proof (cases "slot_ready ctx i")
  case True
  with assms(2) obtain d where d: "rd i = ReadOk d" "NUL \<in> set (take MAXLINE d)" by blast
  then have n: "\<not> read_ret (rd i) MAXLINE \<le> 0" by (cases "take MAXLINE d") auto
  have b: "read_into (rd i) MAXLINE buf = blit (take MAXLINE d) buf" by (simp add: d)
  have r: "echo_reply rd ctx i = [Diag ''recv buf'',
      Write (clifds ctx ! i) (takeWhile (\<lambda>c. c \<noteq> NUL) (take MAXLINE d) @ [NUL])]"
    using takeWhile_take[OF d(2), of "\<lambda>c. c \<noteq> NUL"] by (simp add: echo_reply_def d(1))
  from True have "\<not> clifds ctx ! i < 0" "clifds ctx ! i \<in> allfds ctx"
    by (auto simp: slot_ready_def)
  with assms(1) True n show ?thesis
    by (simp add: recv_slot_def Let_def b r handle_client_msg_terminated[OF d(2)])
next
  case False
  with assms(1) show ?thesis by (auto simp: recv_slot_def slot_ready_def Let_def)
qed

lemma recv_loop_echo:
  assumes "\<And>i. i < n \<Longrightarrow> i < SIZE"
    and "\<And>i. i < n \<Longrightarrow> slot_ready ctx i \<Longrightarrow> \<exists>d. rd i = ReadOk d \<and> NUL \<in> set (take MAXLINE d)"
  shows "\<exists>buf'. foldE (recv_slot rd) [0..<n] (ctx, buf, []) =
    Inr (ctx, buf', concat (map (echo_reply rd ctx) (filter (slot_ready ctx) [0..<n])))"
  using assms
proof (induction n)
  case (Suc n)
  let ?acts = "concat (map (echo_reply rd ctx) (filter (slot_ready ctx) [0..<n]))"
  from Suc obtain b where b: "foldE (recv_slot rd) [0..<n] (ctx, buf, []) = Inr (ctx, b, ?acts)"
    by auto
  from recv_slot_echo[of n ctx rd b ?acts] Suc.prems obtain b' where
    "recv_slot rd n (ctx, b, ?acts) =
      Inr (ctx, b', ?acts @ (if slot_ready ctx n then echo_reply rd ctx n else []))" by auto
  with b show ?case by (simp add: foldE_append)
qed simp

text \<open>
  C7. Isolation of the clients: when every client that is ready sends a message with a
  terminator in its first \<open>MAXLINE\<close> bytes, one call of \<open>recv_client_msg\<close> changes nothing
  in the context and answers every ready client, in slot order, with exactly its own message
  up to and including the terminator, although one buffer serves them all.
\<close>

theorem recv_echoes_each_client:
  assumes "cli_cnt ctx < SIZE"
    and "\<forall>i \<le> cli_cnt ctx. slot_ready ctx i \<longrightarrow>
      (\<exists>d. rd i = ReadOk d \<and> NUL \<in> set (take MAXLINE d))"
  shows "recv_client_msg rd ctx = Inr (ctx,
    concat (map (echo_reply rd ctx) (filter (slot_ready ctx) [0..<Suc (cli_cnt ctx)])))"
proof -
  from recv_loop_echo[of "Suc (cli_cnt ctx)" ctx rd "zeros MAXLINE"] assms
  obtain b where "foldE (recv_slot rd) [0..<Suc (cli_cnt ctx)] (ctx, zeros MAXLINE, []) = Inr (ctx, b,
    concat (map (echo_reply rd ctx) (filter (slot_ready ctx) [0..<Suc (cli_cnt ctx)])))" by auto
  then show ?thesis by (simp add: recv_client_msg_def)
qed

definition two_clients :: server_context_st where
  "two_clients = \<lparr>cli_cnt = 2, clifds = [4, 5] @ replicate 8 (-1), allfds = {4, 5}, maxfd = 5\<rparr>"

theorem recv_echoes_each_client_witness:
  "recv_client_msg (\<lambda>i. ReadOk ((if i = 0 then ''hello'' else ''hi'') @ [NUL])) two_clients =
   Inr (two_clients, [Diag ''recv buf'', Write 4 (''hello'' @ [NUL]),
                      Diag ''recv buf'', Write 5 (''hi'' @ [NUL])])"
  using recv_echoes_each_client[of two_clients "\<lambda>i. ReadOk ((if i = 0 then ''hello'' else ''hi'') @ [NUL])"]
  by (simp add: two_clients_def slot_ready_def echo_reply_def SIZE_def MAXLINE_def numeral_eq_Suc)

text \<open>
  Without a terminator the isolation fails: the buffer is shared and not cleared between
  two clients of one call, so a client that sends \<open>hi\<close> after another client's \<open>hello\<close> is
  sent \<open>hillo\<close>.
\<close>

theorem recv_leaks_previous_client:
  "recv_client_msg (\<lambda>i. ReadOk (if i = 0 then ''hello'' else ''hi'')) two_clients =
   Inr (two_clients, [Diag ''recv buf'', Write 4 (''hello'' @ [NUL]),
                      Diag ''recv buf'', Write 5 (''hillo'' @ [NUL])])"
  by (simp add: recv_client_msg_def recv_slot_def two_clients_def SIZE_def MAXLINE_def
      handle_client_msg_def strlen_def blit_def zeros_def Let_def numeral_eq_Suc)

lemma main_client_overread:
  "0 \<le> r \<Longrightarrow> main_client fd r recvline evs = Inl (OverRead 32 13)"
  by (simp add: main_client_def bytes_of_def)

end
