(* ===== verification/Poll_Server.thy ===== *)
theory Poll_Server
  imports Posix_IO "HOL-Library.Word"
begin

text \<open>
  The echo server over \<open>poll\<close>, \<open>code/network/IO/multiplexing/via_poll/server.cpp\<close>, and its
  client \<open>via_poll/client.cpp\<close>.

  \<open>poll_server\<close> holds the two variables of \<open>do_poll\<close> that live across passes: the array
  \<open>clientfds\<close> (\<open>OPEN_MAX\<close> entries; the fields the code does not initialise are whatever the
  stack held, an argument of \<open>poll_start\<close>) and \<open>maxi\<close>. \<open>do_poll_iter\<close> is one pass of the
  endless loop, with the kernel's answers to \<open>poll\<close>, \<open>accept\<close> and \<open>read\<close> as its argument,
  \<open>do_poll\<close> a sequence of passes; \<open>exit(1)\<close> ends the run with the calls made so far.
\<close>

unbundle bit_operations_syntax

definition MAXLINE :: nat where "MAXLINE = 1024"
definition LISTENQ :: int where "LISTENQ = 5"
definition OPEN_MAX :: nat where "OPEN_MAX = 1000"
definition PORT :: int where "PORT = 8787"
definition IPADDRESS :: string where "IPADDRESS = ''127.0.0.1''"

type_synonym pollbits = "16 word"

definition POLLIN :: pollbits where "POLLIN = 0x001"

text \<open>\<open>POLLERR | POLLHUP | POLLNVAL\<close>, which \<open>poll\<close> reports whether asked for or not.\<close>

definition POLLALWAYS :: pollbits where "POLLALWAYS = 0x038"

record pollfd =
  fd :: int
  events :: pollbits
  revents :: pollbits

text \<open>
  \<open>poll(fds, n, -1)\<close>: an error, or the condition of each descriptor. The first \<open>n\<close> entries get
  their \<open>revents\<close>, zero for an entry with a negative descriptor, and the call returns the
  number of entries whose \<open>revents\<close> is not zero.
\<close>

datatype poll_result = PollErr | PollOk "int \<Rightarrow> pollbits"

definition set_revents :: "(int \<Rightarrow> pollbits) \<Rightarrow> pollfd \<Rightarrow> pollfd" where
  "set_revents cond p =
     p\<lparr>revents := if fd p < 0 then 0 else cond (fd p) AND (events p OR POLLALWAYS)\<rparr>"

definition poll_fill :: "(int \<Rightarrow> pollbits) \<Rightarrow> nat \<Rightarrow> pollfd list \<Rightarrow> pollfd list" where
  "poll_fill cond n ps = map (set_revents cond) (take n ps) @ drop n ps"

definition poll_count :: "nat \<Rightarrow> pollfd list \<Rightarrow> int" where
  "poll_count n ps = int (length (filter (\<lambda>p. revents p \<noteq> 0) (take n ps)))"

record poll_server =
  clientfds :: "pollfd list"
  maxi :: nat

text \<open>\<open>socket_bind\<close>: the calls made and the descriptor, or the failing call.\<close>

definition socket_bind :: "sock_env \<Rightarrow> string \<Rightarrow> int \<Rightarrow> sysact list + int \<times> sysact list" where
  "socket_bind env ip port =
     (let listenfd = socket_ret env in
      if listenfd = -1 then Inl [Diag ''socket error'']
      else if bind_ret env = -1 then Inl [Bind listenfd ip port, Diag ''bind error'']
      else Inr (listenfd, [Bind listenfd ip port]))"

text \<open>\<open>handle_connection\<close>: the loop over the slots, with the one buffer they share.\<close>

definition handle_slot ::
  "(int \<Rightarrow> read_result) \<Rightarrow> nat \<Rightarrow> pollfd list \<times> string \<times> sysact list \<Rightarrow>
     pollfd list \<times> string \<times> sysact list" where
  "handle_slot rd i = (\<lambda>(connfds, buf, acts).
     let p = connfds ! i in
     if fd p < 0 then (connfds, buf, acts)
     else if revents p AND POLLIN \<noteq> 0 then
       let n = read_ret (rd (fd p)) MAXLINE; buf = read_into (rd (fd p)) MAXLINE buf in
       if n = 0 then (connfds[i := p\<lparr>fd := -1\<rparr>], buf, acts @ [Close (fd p)])
       else if n < 0 then (connfds, buf, acts @ [WriteCount 1 n, WriteCount (fd p) n])
       else (connfds, buf, acts @ [Write 1 (take (nat n) buf), Write (fd p) (take (nat n) buf)])
     else (connfds, buf, acts))"

definition handle_connection ::
  "(int \<Rightarrow> read_result) \<Rightarrow> pollfd list \<Rightarrow> nat \<Rightarrow> pollfd list \<times> sysact list" where
  "handle_connection rd connfds num =
     (let (connfds', buf, acts) = fold (handle_slot rd) [1..<num + 1] (connfds, zeros MAXLINE, [])
      in (connfds', acts))"

text \<open>The start of \<open>do_poll\<close>; \<open>junk\<close> is the uninitialised stack.\<close>

definition poll_start :: "int \<Rightarrow> pollfd list \<Rightarrow> poll_server" where
  "poll_start listenfd junk =
     \<lparr>clientfds = (junk ! 0)\<lparr>fd := listenfd, events := POLLIN\<rparr> #
        map (\<lambda>p. p\<lparr>fd := -1\<rparr>) (take (OPEN_MAX - 1) (drop 1 junk)),
      maxi = 0\<rparr>"

record poll_in =
  poll_ans :: poll_result
  accept_ans :: accept_result
  read_ans :: "int \<Rightarrow> read_result"

text \<open>The free-slot search from index 1, \<open>OPEN_MAX\<close> when there is none.\<close>

definition free_slot :: "pollfd list \<Rightarrow> nat" where
  "free_slot ps = 1 + slot_scan (map fd (tl ps))"

text \<open>The accept part of a pass: \<open>Inl\<close> ends the program, \<open>None\<close> is \<open>continue\<close>.\<close>

definition accept_part ::
  "int \<Rightarrow> poll_in \<Rightarrow> poll_server \<Rightarrow> sysact list + (poll_server \<times> sysact list) option" where
  "accept_part listenfd pin s =
     (case accept_ans pin of
        AcceptErr e \<Rightarrow> if e = EINTR then Inr None else Inl [Diag ''accept error'']
      | AcceptFd connfd \<Rightarrow>
          let i = free_slot (clientfds s) in
          if i = OPEN_MAX then Inl [Diag ''accept a new client'', Diag ''too many clients'']
          else Inr (Some
            (s\<lparr>clientfds := (clientfds s)[i := (clientfds s ! i)\<lparr>fd := int connfd, events := POLLIN\<rparr>],
               maxi := max i (maxi s)\<rparr>, [Diag ''accept a new client''])))"

definition serve_part :: "poll_in \<Rightarrow> poll_server \<Rightarrow> sysact list \<Rightarrow> poll_server \<times> sysact list" where
  "serve_part pin s acts =
     (let (ps, out) = handle_connection (read_ans pin) (clientfds s) (maxi s)
      in (s\<lparr>clientfds := ps\<rparr>, acts @ out))"

definition do_poll_iter ::
  "int \<Rightarrow> poll_in \<Rightarrow> poll_server \<Rightarrow> sysact list + poll_server \<times> sysact list" where
  "do_poll_iter listenfd pin s =
     (case poll_ans pin of
        PollErr \<Rightarrow> Inl [Diag ''poll error'']
      | PollOk cond \<Rightarrow>
          let s1 = s\<lparr>clientfds := poll_fill cond (maxi s + 1) (clientfds s)\<rparr>;
              nready = poll_count (maxi s + 1) (clientfds s1) in
          if revents (clientfds s1 ! 0) AND POLLIN \<noteq> 0 then
            (case accept_part listenfd pin s1 of
               Inl acts \<Rightarrow> Inl acts
             | Inr None \<Rightarrow> Inr (s1, [])
             | Inr (Some (s2, acts)) \<Rightarrow>
                 if nready - 1 \<le> 0 then Inr (s2, acts) else Inr (serve_part pin s2 acts))
          else Inr (serve_part pin s1 []))"

definition do_poll_pass ::
  "int \<Rightarrow> poll_in \<Rightarrow> poll_server \<times> sysact list \<Rightarrow> sysact list + poll_server \<times> sysact list" where
  "do_poll_pass listenfd pin = (\<lambda>(s, acts).
     case do_poll_iter listenfd pin s of
       Inl a \<Rightarrow> Inl (acts @ a) | Inr (s', a) \<Rightarrow> Inr (s', acts @ a))"

definition do_poll ::
  "int \<Rightarrow> pollfd list \<Rightarrow> poll_in list \<Rightarrow> sysact list + poll_server \<times> sysact list" where
  "do_poll listenfd junk pins = foldE (do_poll_pass listenfd) pins (poll_start listenfd junk, [])"

definition main_poll :: "sock_env \<Rightarrow> pollfd list \<Rightarrow> poll_in list \<Rightarrow> sysact list + poll_server \<times> sysact list" where
  "main_poll env junk pins =
     (case socket_bind env IPADDRESS PORT of
        Inl acts \<Rightarrow> Inl acts
      | Inr (listenfd, acts) \<Rightarrow>
          (case do_poll listenfd junk pins of
             Inl a \<Rightarrow> Inl (acts @ [Listen listenfd LISTENQ] @ a)
           | Inr (s, a) \<Rightarrow> Inr (s, acts @ [Listen listenfd LISTENQ] @ a)))"

subsection \<open>The client\<close>

text \<open>One pass of \<open>handle_connection\<close> of \<open>client.cpp\<close>: the buffers and the calls it makes.\<close>

record poll_client =
  recvline :: string
  sendline :: string

definition client_recv :: "int \<Rightarrow> read_result \<Rightarrow> poll_client \<Rightarrow> poll_client \<times> sysact list" where
  "client_recv sockfd r c =
     (let n = read_ret r MAXLINE; c' = c\<lparr>recvline := read_into r MAXLINE (recvline c)\<rparr> in
      (c', (if n = 0 then [Diag ''server is closed'', Close sockfd] else []) @
           [if n < 0 then WriteCount 1 n else Write 1 (take (nat n) (recvline c'))]))"

definition client_send :: "int \<Rightarrow> read_result \<Rightarrow> poll_client \<Rightarrow> poll_client \<times> sysact list" where
  "client_send sockfd r c =
     (let n = read_ret r MAXLINE; c' = c\<lparr>sendline := read_into r MAXLINE (sendline c)\<rparr> in
      (c', [if n = 0 then ShutdownWr sockfd
            else if n < 0 then WriteCount sockfd n else Write sockfd (take (nat n) (sendline c'))]))"

definition client_iter ::
  "int \<Rightarrow> pollbits \<times> pollbits \<Rightarrow> read_result \<times> read_result \<Rightarrow> poll_client \<Rightarrow> poll_client \<times> sysact list" where
  "client_iter sockfd rv rds c =
     (let (c1, a1) = (if fst rv AND POLLIN \<noteq> 0 then client_recv sockfd (fst rds) c else (c, []));
          (c2, a2) = (if snd rv AND POLLIN \<noteq> 0 then client_send sockfd (snd rds) c1 else (c1, []))
      in (c2, a1 @ a2))"

definition main_client ::
  "int \<Rightarrow> ((pollbits \<times> pollbits) \<times> (read_result \<times> read_result)) list \<Rightarrow> poll_client \<Rightarrow>
     poll_client \<times> sysact list" where
  "main_client sockfd passes c =
     fold (\<lambda>(rv, rds) (c, acts). let (c', a) = client_iter sockfd rv rds c in (c', acts @ a))
       passes (c, [Connect sockfd IPADDRESS PORT])"

subsection \<open>\<open>handle_connection\<close> slot by slot\<close>

text \<open>What the server does for one slot, without the shared buffer.\<close>

definition slot_ready :: "pollfd \<Rightarrow> bool" where
  "slot_ready p \<longleftrightarrow> 0 \<le> fd p \<and> revents p AND POLLIN \<noteq> 0"

definition slot_acts :: "(int \<Rightarrow> read_result) \<Rightarrow> pollfd \<Rightarrow> sysact list" where
  "slot_acts rd p = (if slot_ready p then
     (case rd (fd p) of
        ReadErr e \<Rightarrow> [WriteCount 1 (-1), WriteCount (fd p) (-1)]
      | ReadOk d \<Rightarrow> if d = [] then [Close (fd p)]
                    else [Write 1 (take MAXLINE d), Write (fd p) (take MAXLINE d)]) else [])"

definition slot_after :: "(int \<Rightarrow> read_result) \<Rightarrow> pollfd \<Rightarrow> pollfd" where
  "slot_after rd p = (if slot_ready p \<and> rd (fd p) = ReadOk [] then p\<lparr>fd := -1\<rparr> else p)"

lemma MAXLINE_pos: "take MAXLINE d = [] \<longleftrightarrow> d = []"
  by (simp add: MAXLINE_def)

lemma handle_slot_spec:
  assumes "length buf = MAXLINE" and "i < length ps"
  shows "\<exists>buf'. length buf' = MAXLINE \<and> handle_slot rd i (ps, buf, acts) =
    (ps[i := slot_after rd (ps ! i)], buf', acts @ slot_acts rd (ps ! i))"
proof (cases "slot_ready (ps ! i)")
  case ready: True
  show ?thesis
  proof (cases "rd (fd (ps ! i))")
    case (ReadErr e)
    with ready assms show ?thesis
      by (auto simp: handle_slot_def slot_acts_def slot_after_def slot_ready_def Let_def)
  next
    case (ReadOk d)
    show ?thesis
    proof (cases "d = []")
      case True
      with ready assms ReadOk show ?thesis
        by (auto simp: handle_slot_def slot_acts_def slot_after_def slot_ready_def blit_def Let_def)
    next
      case False
      let ?b = "blit (take MAXLINE d) buf"
      have "length ?b = MAXLINE" using assms(1) by (simp add: blit_def)
      moreover have "take (length (take MAXLINE d)) ?b = take MAXLINE d" by (rule take_blit)
      ultimately show ?thesis using ready assms ReadOk False MAXLINE_pos[of d]
        by (intro exI[of _ ?b])
          (auto simp: handle_slot_def slot_acts_def slot_after_def slot_ready_def Let_def MAXLINE_def)
    qed
  qed
next
  case False
  with assms show ?thesis
    by (auto simp: handle_slot_def slot_acts_def slot_after_def slot_ready_def Let_def)
qed

lemma handle_fold_spec:
  assumes "num < length ps"
  shows "\<exists>buf'. length buf' = MAXLINE \<and>
    fold (handle_slot rd) [1..<num + 1] (ps, zeros MAXLINE, []) =
      (take 1 ps @ map (slot_after rd) (take num (drop 1 ps)) @ drop (num + 1) ps, buf',
       concat (map (slot_acts rd) (take num (drop 1 ps))))"
  using assms
proof (induction num)
  case 0
  have "take 1 ps @ drop 1 ps = ps" by (rule append_take_drop_id)
  then show ?case by simp
next
  case (Suc n)
  then have n: "n < length ps" by simp
  from Suc.IH[OF n] obtain buf' where b: "length buf' = MAXLINE"
    "fold (handle_slot rd) [1..<n + 1] (ps, zeros MAXLINE, []) =
      (take 1 ps @ map (slot_after rd) (take n (drop 1 ps)) @ drop (n + 1) ps, buf',
       concat (map (slot_acts rd) (take n (drop 1 ps))))" by blast
  let ?qs = "take 1 ps @ map (slot_after rd) (take n (drop 1 ps)) @ drop (n + 1) ps"
  have len: "length (take 1 ps @ map (slot_after rd) (take n (drop 1 ps))) = n + 1"
    using Suc.prems by simp
  have dr: "drop (n + 1) ps = ps ! (n + 1) # drop (n + 2) ps"
    using Suc.prems by (simp add: Cons_nth_drop_Suc)
  have at: "?qs ! (n + 1) = ps ! (n + 1)" using len dr by (metis append.assoc nth_append_length)
  have upd: "?qs[n + 1 := x] = take 1 ps @ map (slot_after rd) (take n (drop 1 ps)) @ x # drop (n + 2) ps" for x
    using len dr by (metis append.assoc list_update_length)
  have tk: "take (Suc n) (drop 1 ps) = take n (drop 1 ps) @ [ps ! (n + 1)]"
    using Suc.prems by (subst take_Suc_conv_app_nth) auto
  have "n + 1 < length ?qs" using Suc.prems by simp
  from handle_slot_spec[OF b(1) this, of rd "concat (map (slot_acts rd) (take n (drop 1 ps)))"]
  obtain buf'' where "length buf'' = MAXLINE"
    "handle_slot rd (n + 1) (?qs, buf', concat (map (slot_acts rd) (take n (drop 1 ps)))) =
      (?qs[n + 1 := slot_after rd (?qs ! (n + 1))], buf'',
       concat (map (slot_acts rd) (take n (drop 1 ps))) @ slot_acts rd (?qs ! (n + 1)))" by blast
  then show ?case using b(2) unfolding at upd tk by (intro exI[of _ buf'']) simp
qed

lemma handle_connection_spec:
  assumes "num < length ps"
  shows "handle_connection rd ps num =
    (take 1 ps @ map (slot_after rd) (take num (drop 1 ps)) @ drop (num + 1) ps,
     concat (map (slot_acts rd) (take num (drop 1 ps))))"
  using handle_fold_spec[OF assms, of rd] by (auto simp: handle_connection_def)

lemma handle_connection_nth:
  assumes "num < length ps" and "i < length ps"
  shows "fst (handle_connection rd ps num) ! i =
    (if 0 < i \<and> i \<le> num then slot_after rd (ps ! i) else ps ! i)"
proof -
  have "take 1 ps = [ps ! 0]" using assms by (cases ps) auto
  then show ?thesis using assms
    by (cases i) (auto simp: handle_connection_spec nth_append)
qed

lemma length_handle_connection:
  "num < length ps \<Longrightarrow> length (fst (handle_connection rd ps num)) = length ps"
  by (simp add: handle_connection_spec)

subsection \<open>The table of connections\<close>

text \<open>
  Slot 0 is the listening socket; the slots above \<open>maxi\<close> are free; a used slot asks for
  \<open>POLLIN\<close>; no descriptor is in two slots.
\<close>

definition poll_inv :: "int \<Rightarrow> poll_server \<Rightarrow> bool" where
  "poll_inv listenfd s \<longleftrightarrow> length (clientfds s) = OPEN_MAX \<and> maxi s < OPEN_MAX \<and>
     fd (clientfds s ! 0) = listenfd \<and> events (clientfds s ! 0) = POLLIN \<and>
     (\<forall>i<OPEN_MAX. maxi s < i \<longrightarrow> fd (clientfds s ! i) < 0) \<and>
     (\<forall>i<OPEN_MAX. 0 \<le> fd (clientfds s ! i) \<longrightarrow> events (clientfds s ! i) = POLLIN)"

definition fds_differ :: "pollfd list \<Rightarrow> bool" where
  "fds_differ ps \<longleftrightarrow> (\<forall>i<length ps. \<forall>j<length ps. 0 \<le> fd (ps ! i) \<and> fd (ps ! i) = fd (ps ! j) \<longrightarrow> i = j)"

definition clients :: "poll_server \<Rightarrow> int set" where
  "clients s = {c. 0 \<le> c \<and> (\<exists>i. 0 < i \<and> i < length (clientfds s) \<and> fd (clientfds s ! i) = c)}"

lemma OPEN_MAX_pos [simp]: "0 < OPEN_MAX"
  by (simp add: OPEN_MAX_def)

lemma fd_set_revents [simp]: "fd (set_revents c p) = fd p" "events (set_revents c p) = events p"
  by (simp_all add: set_revents_def)

lemma length_poll_fill [simp]: "length (poll_fill c n ps) = length ps"
  by (simp add: poll_fill_def)

lemma poll_fill_nth:
  "i < length ps \<Longrightarrow> poll_fill c n ps ! i = (if i < n then set_revents c (ps ! i) else ps ! i)"
  by (auto simp: poll_fill_def nth_append)

lemma poll_inv_fill:
  "poll_inv l s \<Longrightarrow> poll_inv l (s\<lparr>clientfds := poll_fill c n (clientfds s)\<rparr>)"
  by (auto simp: poll_inv_def poll_fill_nth)

lemma fds_differ_fill: "fds_differ (poll_fill c n ps) \<longleftrightarrow> fds_differ ps"
  by (simp add: fds_differ_def poll_fill_nth if_distrib cong: if_cong)

lemma clients_fill: "clients (s\<lparr>clientfds := poll_fill c n (clientfds s)\<rparr>) = clients s"
proof -
  have "fd (poll_fill c n (clientfds s) ! i) = fd (clientfds s ! i)" if "i < length (clientfds s)" for i
    using that by (simp add: poll_fill_nth)
  then show ?thesis by (auto simp: clients_def)
qed

lemma free_slot_range:
  assumes "length ps = OPEN_MAX" and "free_slot ps \<noteq> OPEN_MAX"
  shows "0 < free_slot ps \<and> free_slot ps < OPEN_MAX \<and> fd (ps ! free_slot ps) < 0"
proof -
  let ?k = "slot_scan (map fd (tl ps))"
  have "?k \<le> length (map fd (tl ps))" by (rule slot_scan_le)
  with assms have "?k < length (map fd (tl ps))" by (simp add: free_slot_def OPEN_MAX_def)
  from slot_scan_neg[OF this] this assms(1) show ?thesis by (simp add: free_slot_def nth_tl)
qed

lemma accept_partD:
  assumes "accept_part l pin s = Inr (Some (t, acts))"
  obtains c where "accept_ans pin = AcceptFd c" "free_slot (clientfds s) \<noteq> OPEN_MAX"
    "acts = [Diag ''accept a new client'']"
    "t = s\<lparr>clientfds := (clientfds s)[free_slot (clientfds s) :=
             (clientfds s ! free_slot (clientfds s))\<lparr>fd := int c, events := POLLIN\<rparr>],
          maxi := max (free_slot (clientfds s)) (maxi s)\<rparr>"
  using assms by (auto simp: accept_part_def Let_def split: accept_result.splits if_splits)

lemma poll_inv_accept:
  assumes "poll_inv l s" and "accept_part l pin s = Inr (Some (t, acts))"
  shows "poll_inv l t"
  using assms(2)
proof (rule accept_partD)
  let ?i = "free_slot (clientfds s)"
  assume "?i \<noteq> OPEN_MAX"
  with assms(1) free_slot_range[of "clientfds s"]
  have i: "0 < ?i" "?i < OPEN_MAX" "fd (clientfds s ! ?i) < 0" by (simp_all add: poll_inv_def)
  fix c
  assume "t = s\<lparr>clientfds := (clientfds s)[?i := (clientfds s ! ?i)\<lparr>fd := int c, events := POLLIN\<rparr>],
          maxi := max ?i (maxi s)\<rparr>"
  with i assms(1) show ?thesis by (simp add: poll_inv_def nth_list_update)
qed

lemma serve_part_table:
  assumes "poll_inv l s" and "serve_part pin s acts = (t, out)"
  shows "clientfds t = fst (handle_connection (read_ans pin) (clientfds s) (maxi s)) \<and>
    maxi t = maxi s \<and> out = acts @ snd (handle_connection (read_ans pin) (clientfds s) (maxi s))"
  using assms(2) by (auto simp: serve_part_def split: prod.splits)

lemma slot_after_fd: "fd (slot_after rd p) = (if slot_ready p \<and> rd (fd p) = ReadOk [] then -1 else fd p)"
  and slot_after_events [simp]: "events (slot_after rd p) = events p"
  by (simp_all add: slot_after_def)

lemma poll_inv_serve:
  assumes "poll_inv l s" and "serve_part pin s acts = (t, out)"
  shows "poll_inv l t"
proof -
  let ?h = "handle_connection (read_ans pin) (clientfds s) (maxi s)"
  have m: "maxi s < length (clientfds s)" using assms(1) by (simp add: poll_inv_def)
  have nth: "fst ?h ! i = (if 0 < i \<and> i \<le> maxi s then slot_after (read_ans pin) (clientfds s ! i)
      else clientfds s ! i)" if "i < OPEN_MAX" for i
    using handle_connection_nth[OF m, of i] assms(1) that by (simp add: poll_inv_def)
  have len: "length (fst ?h) = OPEN_MAX"
    using length_handle_connection[OF m] assms(1) by (simp add: poll_inv_def)
  show ?thesis using serve_part_table[OF assms] assms(1) len nth
    by (simp add: poll_inv_def slot_after_fd)
qed

lemma do_poll_iter_cases:
  assumes "do_poll_iter l pin s = Inr (t, acts)"
  obtains c s1 where "s1 = s\<lparr>clientfds := poll_fill c (maxi s + 1) (clientfds s)\<rparr>"
    "t = s1" "acts = []"
  | c s1 s2 a where "s1 = s\<lparr>clientfds := poll_fill c (maxi s + 1) (clientfds s)\<rparr>"
    "accept_part l pin s1 = Inr (Some (s2, a))" "t = s2" "acts = a"
  | c s1 s2 a where "s1 = s\<lparr>clientfds := poll_fill c (maxi s + 1) (clientfds s)\<rparr>"
    "accept_part l pin s1 = Inr (Some (s2, a))" "serve_part pin s2 a = (t, acts)"
  | c s1 where "s1 = s\<lparr>clientfds := poll_fill c (maxi s + 1) (clientfds s)\<rparr>"
    "serve_part pin s1 [] = (t, acts)"
  using assms unfolding do_poll_iter_def Let_def
  by (auto split: poll_result.splits if_splits sum.splits option.splits)

lemma poll_inv_iter:
  assumes "poll_inv l s" and "do_poll_iter l pin s = Inr (t, acts)"
  shows "poll_inv l t"
  using assms(2) poll_inv_fill[OF assms(1)]
  by (cases rule: do_poll_iter_cases) (metis poll_inv_accept poll_inv_serve)+

lemma poll_inv_start:
  assumes "length junk = OPEN_MAX"
  shows "poll_inv l (poll_start l junk)"
proof -
  have "clientfds (poll_start l junk) ! i = (junk ! i)\<lparr>fd := -1\<rparr>" if "0 < i" "i < OPEN_MAX" for i
    using that assms by (cases i) (simp_all add: poll_start_def)
  moreover have "length (clientfds (poll_start l junk)) = OPEN_MAX"
    using assms by (simp add: poll_start_def OPEN_MAX_def)
  moreover have "clientfds (poll_start l junk) ! 0 = (junk ! 0)\<lparr>fd := l, events := POLLIN\<rparr>"
    "maxi (poll_start l junk) = 0" by (simp_all add: poll_start_def)
  ultimately show ?thesis unfolding poll_inv_def by (metis OPEN_MAX_pos bot_nat_0.not_eq_extremum
        neg_less_0_iff_less not_less pollfd.select_convs(1) pollfd.surjective pollfd.update_convs(1,2)
        zero_less_one pollfd.select_convs(2))
qed

interpretation poll: event_machine "do_poll_pass listenfd" "\<lambda>(s, acts). poll_inv listenfd s"
  by unfold_locales (auto simp: do_poll_pass_def split: sum.splits prod.splits dest: poll_inv_iter)

lemma close_in_slot_acts:
  "Close c \<in> set (slot_acts rd p) \<longleftrightarrow> slot_ready p \<and> rd (fd p) = ReadOk [] \<and> c = fd p"
  by (auto simp: slot_acts_def split: read_result.splits)

lemma diag_notin_slot_acts: "Diag x \<notin> set (slot_acts rd p)"
  by (auto simp: slot_acts_def split: read_result.splits)

lemma in_set_slots:
  "num < length ps \<Longrightarrow> p \<in> set (take num (drop 1 ps)) \<longleftrightarrow> (\<exists>i. 0 < i \<and> i \<le> num \<and> p = ps ! i)"
proof (intro iffI)
  assume n: "num < length ps" and "\<exists>i. 0 < i \<and> i \<le> num \<and> p = ps ! i"
  then obtain k where "k < num" "p = ps ! Suc k" by (metis Suc_le_eq gr0_conv_Suc)
  with n show "p \<in> set (take num (drop 1 ps))" by (auto simp: in_set_conv_nth intro!: exI[of _ k])
next
  assume n: "num < length ps" and "p \<in> set (take num (drop 1 ps))"
  then obtain i where "i < num" "p = ps ! Suc i" by (auto simp: in_set_conv_nth)
  then show "\<exists>i. 0 < i \<and> i \<le> num \<and> p = ps ! i" by (intro exI[of _ "Suc i"]) simp
qed

lemma close_iff:
  assumes "num < length ps"
  shows "Close c \<in> set (snd (handle_connection rd ps num)) \<longleftrightarrow>
    (\<exists>i. 0 < i \<and> i \<le> num \<and> slot_ready (ps ! i) \<and> rd (fd (ps ! i)) = ReadOk [] \<and> fd (ps ! i) = c)"
  using in_set_slots[OF assms] by (auto simp: handle_connection_spec[OF assms] close_in_slot_acts simp del: One_nat_def)

text \<open>Serving removes exactly the clients it closes.\<close>

lemma clients_serve:
  assumes inv: "poll_inv l s" and dif: "fds_differ (clientfds s)"
    and ser: "serve_part pin s acts = (t, out)"
  shows "clients t = clients s - {c. Close c \<in> set (snd (handle_connection (read_ans pin) (clientfds s) (maxi s)))}"
    and "fds_differ (clientfds t)"
proof -
  let ?h = "handle_connection (read_ans pin) (clientfds s) (maxi s)"
  let ?closed = "\<lambda>i. 0 < i \<and> i \<le> maxi s \<and> slot_ready (clientfds s ! i) \<and>
    read_ans pin (fd (clientfds s ! i)) = ReadOk []"
  have m: "maxi s < length (clientfds s)" using inv by (simp add: poll_inv_def)
  have t: "clientfds t = fst ?h" using serve_part_table[OF inv ser] by simp
  have len: "length (clientfds t) = length (clientfds s)" using t length_handle_connection[OF m] by simp
  have nth: "fd (clientfds t ! i) = (if ?closed i then -1 else fd (clientfds s ! i))"
    if "i < length (clientfds s)" for i
    using handle_connection_nth[OF m that] by (auto simp: t slot_after_fd)
  show "fds_differ (clientfds t)" unfolding fds_differ_def
  proof (intro allI impI)
    fix i j assume "i < length (clientfds t)" "j < length (clientfds t)"
      "0 \<le> fd (clientfds t ! i) \<and> fd (clientfds t ! i) = fd (clientfds t ! j)"
    with len nth dif show "i = j" unfolding fds_differ_def by (metis neg_0_le_iff_le not_one_le_zero)
  qed
  show "clients t = clients s - {c. Close c \<in> set (snd ?h)}"
  proof (intro set_eqI iffI)
    fix c assume "c \<in> clients t"
    then obtain i where i: "0 \<le> c" "0 < i" "i < length (clientfds s)" "fd (clientfds t ! i) = c"
      using len by (auto simp: clients_def)
    with nth[of i] have "fd (clientfds s ! i) = c" "\<not> ?closed i" by (auto split: if_splits)
    moreover have "Close c \<notin> set (snd ?h)"
    proof
      assume "Close c \<in> set (snd ?h)"
      then obtain j where "?closed j" "fd (clientfds s ! j) = c" using close_iff[OF m] by blast
      moreover have "j < length (clientfds s)" using calculation m by auto
      ultimately have "i = j" using dif[unfolded fds_differ_def, rule_format, of i j] i
          \<open>fd (clientfds s ! i) = c\<close> by simp
      with \<open>?closed j\<close> \<open>\<not> ?closed i\<close> show False by blast
    qed
    ultimately show "c \<in> clients s - {c. Close c \<in> set (snd ?h)}" using i by (auto simp: clients_def)
  next
    fix c assume c: "c \<in> clients s - {c. Close c \<in> set (snd ?h)}"
    then obtain i where i: "0 \<le> c" "0 < i" "i < length (clientfds s)" "fd (clientfds s ! i) = c"
      by (auto simp: clients_def)
    with c close_iff[OF m, of c "read_ans pin"] have "\<not> ?closed i" by auto
    with nth[of i] i len show "c \<in> clients t" by (auto simp: clients_def)
  qed
qed

text \<open>Accepting adds exactly the new descriptor.\<close>

lemma clients_accept:
  assumes inv: "poll_inv l s" and dif: "fds_differ (clientfds s)"
    and acc: "accept_part l pin s = Inr (Some (t, acts))" and c: "accept_ans pin = AcceptFd c"
    and fresh: "int c \<notin> insert l (clients s)"
  shows "clients t = insert (int c) (clients s)" and "fds_differ (clientfds t)"
proof -
  let ?i = "free_slot (clientfds s)"
  from acc c obtain t: "?i \<noteq> OPEN_MAX"
    "clientfds t = (clientfds s)[?i := (clientfds s ! ?i)\<lparr>fd := int c, events := POLLIN\<rparr>]"
    by (auto elim: accept_partD)
  have len: "length (clientfds s) = OPEN_MAX" "fd (clientfds s ! 0) = l"
    using inv by (simp_all add: poll_inv_def)
  from free_slot_range[OF len(1) t(1)] have i: "0 < ?i" "?i < OPEN_MAX" "fd (clientfds s ! ?i) < 0"
    by simp_all
  have nth: "fd (clientfds t ! j) = (if j = ?i then int c else fd (clientfds s ! j))"
    if "j < OPEN_MAX" for j
    using that i len t(2) by (simp add: nth_list_update)
  have other: "fd (clientfds s ! j) \<noteq> int c" if "j < OPEN_MAX" for j
    using that fresh len by (cases "j = 0") (auto simp: clients_def)
  have lt: "length (clientfds t) = OPEN_MAX" using t(2) len(1) by simp
  show "fds_differ (clientfds t)" unfolding fds_differ_def lt
    using dif nth other unfolding fds_differ_def len(1) by metis
  show "clients t = insert (int c) (clients s)"
  proof (intro set_eqI iffI)
    fix x assume "x \<in> clients t"
    then obtain j where j: "0 \<le> x" "0 < j" "j < OPEN_MAX" "fd (clientfds t ! j) = x"
      using lt by (auto simp: clients_def)
    with nth[of j] len show "x \<in> insert (int c) (clients s)"
      by (auto simp: clients_def split: if_splits)
  next
    fix x assume "x \<in> insert (int c) (clients s)"
    then consider "x = int c" | j where "0 \<le> x" "0 < j" "j < OPEN_MAX" "fd (clientfds s ! j) = x"
      using len by (auto simp: clients_def)
    then show "x \<in> clients t"
    proof cases
      case 1
      with i nth[of ?i] lt show ?thesis unfolding clients_def by auto
    next
      case 2
      with i(3) have "j \<noteq> ?i" by auto
      with 2 nth[of j] lt show ?thesis unfolding clients_def by auto
    qed
  qed
qed

lemma clients_pass:
  assumes inv: "poll_inv l s" and dif: "fds_differ (clientfds s)"
    and iter: "do_poll_iter l pin s = Inr (t, acts)"
    and fresh: "\<And>c. accept_ans pin = AcceptFd c \<Longrightarrow> int c \<notin> insert l (clients s)"
  shows "clients t =
      clients s \<union> {int c |c. accept_ans pin = AcceptFd c \<and> Diag ''accept a new client'' \<in> set acts}
        - {c. Close c \<in> set acts} \<and> fds_differ (clientfds t)"
  using iter
proof (cases rule: do_poll_iter_cases)
  case (1 c s1)
  with dif show ?thesis by (simp add: clients_fill fds_differ_fill)
next
  case (2 c s1 s2 a)
  have s1: "poll_inv l s1" "fds_differ (clientfds s1)" "clients s1 = clients s"
    using 2 inv dif by (simp_all add: poll_inv_fill[of l s] fds_differ_fill clients_fill)
  obtain d where d: "accept_ans pin = AcceptFd d" "a = [Diag ''accept a new client'']"
    using 2 by (auto elim: accept_partD)
  show ?thesis using clients_accept[OF s1(1,2) 2(2) d(1)] fresh[OF d(1)] s1(3) 2 d by auto
next
  case (3 c s1 s2 a)
  have s1: "poll_inv l s1" "fds_differ (clientfds s1)" "clients s1 = clients s"
    using 3 inv dif by (simp_all add: poll_inv_fill[of l s] fds_differ_fill clients_fill)
  obtain d where d: "accept_ans pin = AcceptFd d" "a = [Diag ''accept a new client'']"
    using 3 by (auto elim: accept_partD)
  note s2 = clients_accept[OF s1(1,2) 3(2) d(1)] and i2 = poll_inv_accept[OF s1(1) 3(2)]
  have "clients s2 = insert (int d) (clients s)" "fds_differ (clientfds s2)"
    using s2 fresh[OF d(1)] s1(3) by auto
  moreover have "set acts = {Diag ''accept a new client''} \<union>
      set (snd (handle_connection (read_ans pin) (clientfds s2) (maxi s2)))"
    using serve_part_table[OF i2 3(3)] d by auto
  ultimately show ?thesis using clients_serve[OF i2 _ 3(3)] d by auto
next
  case (4 c s1)
  have s1: "poll_inv l s1" "fds_differ (clientfds s1)" "clients s1 = clients s"
    using 4 inv dif by (simp_all add: poll_inv_fill[of l s] fds_differ_fill clients_fill)
  have acts: "acts = snd (handle_connection (read_ans pin) (clientfds s1) (maxi s1))"
    using serve_part_table[OF s1(1) 4(2)] by simp
  have "maxi s1 < length (clientfds s1)" using s1(1) by (simp add: poll_inv_def)
  then have "Diag ''accept a new client'' \<notin> set acts"
    unfolding acts by (auto simp: handle_connection_spec diag_notin_slot_acts)
  with clients_serve[OF s1(1,2) 4(2)] s1(3) acts show ?thesis by auto
qed

subsection \<open>Properties\<close>

text \<open>
  C4. The poll server watches everyone: after any run of \<open>do_poll\<close> the first \<open>maxi + 1\<close> entries, those
  given to \<open>poll\<close>, ask for \<open>POLLIN\<close> on the listening socket and on every connected client, the
  count stays within the array, and the entries beyond are free.
\<close>

theorem poll_watches_every_client:
  assumes "length junk = OPEN_MAX" and "0 \<le> listenfd" and "do_poll listenfd junk pins = Inr (s, acts)"
  shows "maxi s + 1 \<le> length (clientfds s) \<and>
    {fd p |p. p \<in> set (take (maxi s + 1) (clientfds s)) \<and> 0 \<le> fd p \<and> events p = POLLIN} =
      insert listenfd (clients s)"
proof -
  have inv: "poll_inv listenfd s"
    using poll.run_keeps[of listenfd "(poll_start listenfd junk, [])" pins "(s, acts)"]
      poll_inv_start[OF assms(1)] assms(3) by (simp add: do_poll_def)
  then have len: "length (clientfds s) = OPEN_MAX" "maxi s < OPEN_MAX" by (simp_all add: poll_inv_def)
  have "p \<in> set (take (maxi s + 1) (clientfds s)) \<longleftrightarrow> (\<exists>i\<le>maxi s. p = clientfds s ! i)" for p
    using len by (auto simp: in_set_conv_nth less_Suc_eq_le)
  moreover have "events (clientfds s ! i) = POLLIN" if "i \<le> maxi s" "0 \<le> fd (clientfds s ! i)" for i
    using that inv len by (simp add: poll_inv_def)
  ultimately have "{fd p |p. p \<in> set (take (maxi s + 1) (clientfds s)) \<and> 0 \<le> fd p \<and> events p = POLLIN} =
      {fd (clientfds s ! i) |i. i \<le> maxi s \<and> 0 \<le> fd (clientfds s ! i)}"
    by (intro Collect_cong) metis
  also have "\<dots> = insert listenfd (clients s)"
  proof (intro set_eqI iffI)
    fix x assume "x \<in> {fd (clientfds s ! i) |i. i \<le> maxi s \<and> 0 \<le> fd (clientfds s ! i)}"
    then obtain i where "x = fd (clientfds s ! i)" "i \<le> maxi s" "0 \<le> x" by auto
    with inv len show "x \<in> insert listenfd (clients s)"
      by (cases "i = 0") (auto simp: clients_def poll_inv_def)
  next
    fix x assume "x \<in> insert listenfd (clients s)"
    then have "\<exists>i<OPEN_MAX. x = fd (clientfds s ! i) \<and> 0 \<le> x"
    proof
      assume "x = listenfd"
      with inv assms(2) show ?thesis by (intro exI[of _ 0]) (simp add: poll_inv_def)
    qed (use len in \<open>auto simp: clients_def\<close>)
    then obtain i where i: "i < OPEN_MAX" "x = fd (clientfds s ! i)" "0 \<le> x" by blast
    with inv have "i \<le> maxi s" by (metis poll_inv_def not_less)
    with i show "x \<in> {fd (clientfds s ! i) |i. i \<le> maxi s \<and> 0 \<le> fd (clientfds s ! i)}" by blast
  qed
  finally show ?thesis using len by simp
qed

definition junk0 :: "pollfd list" where
  "junk0 = replicate OPEN_MAX \<lparr>fd = 77, events = 0, revents = POLLIN\<rparr>"

lemma length_junk0: "length junk0 = OPEN_MAX"
  by (simp add: junk0_def)

definition pass_accept :: poll_in where
  "pass_accept = \<lparr>poll_ans = PollOk (\<lambda>f. if f = 3 then POLLIN else 0), accept_ans = AcceptFd 4,
     read_ans = (\<lambda>_. ReadOk [])\<rparr>"

lemma poll_start_accept:
  "\<exists>s. do_poll 3 junk0 [pass_accept] = Inr (s, [Diag ''accept a new client''])"
proof -
  let ?s = "(poll_start 3 junk0)\<lparr>clientfds := poll_fill (\<lambda>f. if f = 3 then POLLIN else 0) 1
      (clientfds (poll_start 3 junk0))\<rparr>"
  have inv: "poll_inv 3 ?s" by (intro poll_inv_fill poll_inv_start length_junk0)
  have "map fd (tl (clientfds ?s)) = -1 # replicate 998 (-1)"
    by (simp add: poll_start_def junk0_def OPEN_MAX_def poll_fill_def map_replicate_const
        replicate_Suc[symmetric] del: replicate_Suc)
  then have free: "free_slot (clientfds ?s) = 1" by (simp add: free_slot_def)
  have z: "clientfds ?s ! 0 = \<lparr>fd = 3, events = POLLIN, revents = POLLIN\<rparr>"
    by (simp add: poll_start_def junk0_def OPEN_MAX_def poll_fill_def set_revents_def POLLIN_def POLLALWAYS_def)
  have "poll_count 1 (clientfds ?s) = 1"
    by (simp add: poll_count_def take_Suc_conv_app_nth z) 
       (simp add: poll_start_def junk0_def OPEN_MAX_def poll_fill_def set_revents_def POLLIN_def POLLALWAYS_def)
  then show ?thesis using free z
    by (auto simp: do_poll_def do_poll_pass_def do_poll_iter_def pass_accept_def Let_def accept_part_def
        OPEN_MAX_def POLLIN_def poll_start_def)
qed

theorem poll_watches_every_client_witness:
  "\<exists>s. do_poll 3 junk0 [pass_accept] = Inr (s, [Diag ''accept a new client'']) \<and>
    {fd p |p. p \<in> set (take (maxi s + 1) (clientfds s)) \<and> 0 \<le> fd p \<and> events p = POLLIN} =
      insert 3 (clients s)"
  using poll_start_accept poll_watches_every_client[OF length_junk0, of 3 "[pass_accept]"] by auto

text \<open>
  C15. One pass of \<open>do_poll\<close> refines the set of connections: with distinct descriptors in the table and a
  descriptor from \<open>accept\<close> that is not in use, the clients after the pass are those before
  it, plus the accepted one, minus exactly those the pass closed; the descriptors stay
  distinct.
\<close>

theorem poll_pass_refines:
  assumes "poll_inv listenfd s" and "fds_differ (clientfds s)"
    and "do_poll_iter listenfd pin s = Inr (t, acts)"
    and "\<forall>c. accept_ans pin = AcceptFd c \<longrightarrow> int c \<notin> insert listenfd (clients s)"
  shows "poll_inv listenfd t \<and> fds_differ (clientfds t) \<and> clients t =
    clients s \<union> {int c |c. accept_ans pin = AcceptFd c \<and> Diag ''accept a new client'' \<in> set acts}
      - {c. Close c \<in> set acts}"
  using clients_pass[OF assms(1-3)] assms(4) poll_inv_iter[OF assms(1,3)] by blast

lemma fds_differ_start: "fds_differ (clientfds (poll_start l junk))"
proof -
  have "fd (clientfds (poll_start l junk) ! i) = -1"
    if "0 < i" "i < length (clientfds (poll_start l junk))" for i
    using that by (cases i) (auto simp: poll_start_def)
  then show ?thesis unfolding fds_differ_def by (metis bot_nat_0.not_eq_extremum neg_0_le_iff_le not_one_le_zero)
qed

lemma clients_start: "clients (poll_start l junk) = {}"
proof -
  have "fd (clientfds (poll_start l junk) ! i) = -1"
    if "0 < i" "i < length (clientfds (poll_start l junk))" for i
    using that by (cases i) (auto simp: poll_start_def)
  then show ?thesis by (auto simp: clients_def)
qed

theorem poll_pass_refines_witness:
  "\<exists>t. do_poll_iter 3 pass_accept (poll_start 3 junk0) = Inr (t, [Diag ''accept a new client'']) \<and>
    clients t = {4}"
proof -
  obtain t where t: "do_poll_iter 3 pass_accept (poll_start 3 junk0) = Inr (t, [Diag ''accept a new client''])"
    using poll_start_accept by (auto simp: do_poll_def do_poll_pass_def split: sum.splits)
  have "\<forall>c. accept_ans pass_accept = AcceptFd c \<longrightarrow> int c \<notin> insert 3 (clients (poll_start 3 junk0))"
    by (simp add: pass_accept_def clients_start)
  from poll_pass_refines[OF poll_inv_start[OF length_junk0] fds_differ_start t this]
  have "clients t = {4}" by (auto simp: clients_start pass_accept_def)
  with t show ?thesis by blast
qed

text \<open>
  C16. The poll server echoes: although all clients share one buffer, \<open>handle_connection\<close> answers every
  ready slot from 1 to \<open>num\<close>, in slot order, with exactly the bytes just read from it (at
  most \<open>MAXLINE\<close>), once to standard output and once to that client; end of file closes the
  descriptor and frees the slot; no other slot changes. A failed \<open>read\<close> is not tested: its
  \<open>-1\<close> goes to both \<open>write\<close> calls as their length.
\<close>

theorem poll_echoes:
  assumes "num < length ps"
  shows "handle_connection rd ps num =
    (take 1 ps @ map (slot_after rd) (take num (drop 1 ps)) @ drop (num + 1) ps,
     concat (map (slot_acts rd) (take num (drop 1 ps))))"
  using assms by (rule handle_connection_spec)

theorem poll_echoes_witness:
  "handle_connection (\<lambda>f. if f = 5 then ReadOk ''hello'' else ReadOk [])
     [\<lparr>fd = 3, events = POLLIN, revents = 0\<rparr>, \<lparr>fd = 5, events = POLLIN, revents = POLLIN\<rparr>,
      \<lparr>fd = 6, events = POLLIN, revents = POLLIN\<rparr>] 2 =
   ([\<lparr>fd = 3, events = POLLIN, revents = 0\<rparr>, \<lparr>fd = 5, events = POLLIN, revents = POLLIN\<rparr>,
      \<lparr>fd = -1, events = POLLIN, revents = POLLIN\<rparr>],
    [Write 1 ''hello'', Write 5 ''hello'', Close 6])"
  by (subst poll_echoes) (simp_all add: slot_after_def slot_acts_def slot_ready_def POLLIN_def MAXLINE_def)

text \<open>
  The poll client after the server has closed: a pass that reads end of file reports it, closes the
  socket and still writes zero bytes; nothing records the fact, so a later pass in which
  standard input is ready sends its bytes to the closed descriptor (the loop has no exit).
\<close>

lemma client_uses_closed_socket:
  assumes "d \<noteq> []" and "length (recvline c) = MAXLINE" and "length (sendline c) = MAXLINE"
  shows "snd (main_client sockfd [((POLLIN, 0), (ReadOk [], r)), ((0, POLLIN), (r', ReadOk d))] c) =
    [Connect sockfd IPADDRESS PORT, Diag ''server is closed'', Close sockfd, Write 1 [],
     Write sockfd (take MAXLINE d)]"
proof -
  have "take (length (take MAXLINE d)) (blit (take MAXLINE d) (sendline c)) = take MAXLINE d"
    by (rule take_blit)
  with assms MAXLINE_pos[of d] show ?thesis
    by (auto simp: main_client_def client_iter_def client_recv_def client_send_def Let_def POLLIN_def)
qed

end
