(* ===== verification/Epoll_Kernel.thy ===== *)
theory Epoll_Kernel
  imports Posix_IO "HOL-Library.Word" "HOL-Library.RBT" "HOL-Library.Product_Lexorder"
begin

text \<open>
  The kernel side of \<open>epoll\<close> as \<open>code/network/IO/multiplexing/epoll_detail.cpp\<close> quotes it
  (\<open>epoll_ctl\<close>, \<open>ep_insert\<close>, \<open>ep_poll_callback\<close>, \<open>ep_poll\<close>, \<open>ep_scan_ready_list\<close>,
  \<open>epoll_create1\<close>), and the documented meaning of \<open>epoll_ctl\<close> that the programs rely on
  (\<open>ctl\<close>, on the map from descriptors to the events asked for).

  What the excerpt calls and does not define is a field of \<open>ep_env\<close>, an argument of the
  definitions: the red-black tree operations, \<open>fget\<close>, the tests on files, the limit on
  watches, \<open>copy_to_user\<close>. What is relied on of the tree operations is the predicate
  \<open>tree_laws\<close>, a named hypothesis of the refinement: a tree has an invariant, and the laws
  speak only of trees that satisfy it, of the insertion of a key that is not in the tree
  and of the removal and modification of an item that \<open>ep_find\<close> has found there. They are
  shown to hold of the red-black trees of the library.
\<close>

unbundle bit_operations_syntax

type_synonym evbits = "32 word"

definition EPOLLIN :: evbits where "EPOLLIN = 0x001"
definition EPOLLOUT :: evbits where "EPOLLOUT = 0x004"
definition POLLERR :: evbits where "POLLERR = 0x008"
definition POLLHUP :: evbits where "POLLHUP = 0x010"
definition EPOLLET :: evbits where "EPOLLET = 0x80000000"
definition ENOSPC :: int where "ENOSPC = 28"

lemmas event_bits = EPOLLIN_def EPOLLOUT_def POLLERR_def POLLHUP_def EPOLLET_def

lemma and_outside:
  fixes x y b :: evbits
  assumes "x AND NOT b = 0" and "y AND b = 0"
  shows "x AND y = 0"
proof (rule bit_word_eqI)
  fix n assume "n < LENGTH(32)"
  have "\<not> bit (x AND NOT b) n" "\<not> bit (y AND b) n" using assms by simp_all
  with \<open>n < LENGTH(32)\<close> show "bit (x AND y) n = bit 0 n" by (auto simp: bit_simps)
qed

datatype ctl_op = EPOLL_CTL_ADD | EPOLL_CTL_DEL | EPOLL_CTL_MOD

subsection \<open>\<open>epoll_ctl\<close> as documented\<close>

type_synonym interest = "int \<rightharpoonup> evbits"

fun ctl :: "ctl_op \<Rightarrow> int \<Rightarrow> evbits \<Rightarrow> interest \<Rightarrow> interest" where
  "ctl EPOLL_CTL_ADD f e m = (if m f = None then m(f \<mapsto> e) else m)"
| "ctl EPOLL_CTL_DEL f e m = m(f := None)"
| "ctl EPOLL_CTL_MOD f e m = (if m f = None then m else m(f \<mapsto> e))"

subsection \<open>The excerpt\<close>

record epoll_event =
  ev_events :: evbits
  ev_data :: int

record epitem =
  ffd :: "nat \<times> int"
  event :: epoll_event

record 'tree eventpoll =
  rbr :: 'tree
  rdllist :: "epitem list"
  wq_active :: bool
  wake_ups :: nat
  epoll_watches :: int
  f_ep_links :: "nat \<Rightarrow> epitem list"
  tfile_check_list :: "nat list"

record 'tree ep_env =
  ep_find :: "'tree \<Rightarrow> nat \<times> int \<Rightarrow> epitem option"
  ep_rbtree_insert :: "'tree \<Rightarrow> epitem \<Rightarrow> 'tree"
  ep_remove :: "'tree \<Rightarrow> epitem \<Rightarrow> 'tree"
  ep_modify :: "'tree \<Rightarrow> epitem \<Rightarrow> epoll_event \<Rightarrow> 'tree"
  fget :: "int \<Rightarrow> nat"
  has_poll :: "nat \<Rightarrow> bool"
  is_file_epoll :: "nat \<Rightarrow> bool"
  ep_loop_check :: "nat \<Rightarrow> int"
  max_user_watches :: int

datatype lock = Epmutex | EpMtx
datatype lockact = Lock lock | Unlock lock

text \<open>\<open>ep_insert\<close>: \<open>Some\<close> an error code, \<open>None\<close> when the end is reached.\<close>

definition ep_insert ::
  "'t ep_env \<Rightarrow> 't eventpoll \<Rightarrow> epoll_event \<Rightarrow> nat \<Rightarrow> int \<Rightarrow> int option \<times> 't eventpoll" where
  "ep_insert env ep ev tfile f =
     (let user_watches = epoll_watches ep in
      if max_user_watches env \<le> user_watches then (Some (- ENOSPC), ep)
      else let epi = \<lparr>ffd = (tfile, f), event = ev\<rparr> in
        (None, ep\<lparr>f_ep_links := (f_ep_links ep)(tfile := f_ep_links ep tfile @ [epi]),
                  rbr := ep_rbtree_insert env (rbr ep) epi\<rparr>))"

text \<open>The \<open>switch\<close> of \<open>epoll_ctl\<close>, inside \<open>ep->mtx\<close>.\<close>

definition ctl_switch ::
  "'t ep_env \<Rightarrow> ctl_op \<Rightarrow> nat \<Rightarrow> int \<Rightarrow> epoll_event \<Rightarrow> 't eventpoll \<Rightarrow> 't eventpoll" where
  "ctl_switch env op tfile f epds ep =
     (let epi = ep_find env (rbr ep) (tfile, f);
          epds' = epds\<lparr>ev_events := ev_events epds OR (POLLERR OR POLLHUP)\<rparr> in
      case op of
        EPOLL_CTL_ADD \<Rightarrow>
          (case epi of None \<Rightarrow> snd (ep_insert env ep epds' tfile f) | Some _ \<Rightarrow> ep)\<lparr>tfile_check_list := []\<rparr>
      | EPOLL_CTL_DEL \<Rightarrow> (case epi of None \<Rightarrow> ep | Some e \<Rightarrow> ep\<lparr>rbr := ep_remove env (rbr ep) e\<rparr>)
      | EPOLL_CTL_MOD \<Rightarrow> (case epi of None \<Rightarrow> ep | Some e \<Rightarrow> ep\<lparr>rbr := ep_modify env (rbr ep) e epds'\<rparr>))"

text \<open>\<open>epoll_ctl\<close>, with the locks it takes and releases. \<open>ep\<close> is \<open>file->private_data\<close>.\<close>

definition epoll_ctl ::
  "'t ep_env \<Rightarrow> int \<Rightarrow> ctl_op \<Rightarrow> int \<Rightarrow> epoll_event \<Rightarrow> 't eventpoll \<Rightarrow> 't eventpoll \<times> lockact list" where
  "epoll_ctl env epfd op f ev ep =
     (let file = fget env epfd; tfile = fget env f in
      if \<not> has_poll env tfile then (ep, [])
      else if file = tfile \<or> \<not> is_file_epoll env file then (ep, [])
      else
        let did_lock_epmutex = (op = EPOLL_CTL_ADD \<or> op = EPOLL_CTL_DEL);
            pre = (if did_lock_epmutex then [Lock Epmutex] else []);
            post = (if did_lock_epmutex then [Unlock Epmutex] else []) in
        if op = EPOLL_CTL_ADD \<and> is_file_epoll env tfile \<and> ep_loop_check env tfile \<noteq> 0
        then (ep, pre @ post)
        else
          let ep1 = (if op = EPOLL_CTL_ADD \<and> \<not> is_file_epoll env tfile
                     then ep\<lparr>tfile_check_list := tfile # tfile_check_list ep\<rparr> else ep)
          in (ctl_switch env op tfile f ev ep1, pre @ [Lock EpMtx, Unlock EpMtx] @ post))"

text \<open>\<open>ep_poll_callback\<close>: an event \<open>key\<close> happened on the file of \<open>epi\<close>.\<close>

definition wake_up :: "'t eventpoll \<Rightarrow> 't eventpoll" where
  "wake_up ep = (if wq_active ep then ep\<lparr>wake_ups := wake_ups ep + 1\<rparr> else ep)"

definition ep_poll_callback :: "epitem \<Rightarrow> evbits \<Rightarrow> 't eventpoll \<Rightarrow> 't eventpoll" where
  "ep_poll_callback epi key ep =
     (if key \<noteq> 0 \<and> key AND ev_events (event epi) = 0 then ep
      else wake_up (if epi \<in> set (rdllist ep) then ep else ep\<lparr>rdllist := rdllist ep @ [epi]\<rparr>))"



text \<open>\<open>epoll_create1\<close>: the error of \<open>ep_alloc\<close> is overwritten by the next call.\<close>

definition epoll_create1 :: "int \<Rightarrow> int \<Rightarrow> int" where
  "epoll_create1 ep_alloc_ret anon_inode_getfd_ret =
     (let error = ep_alloc_ret; error = anon_inode_getfd_ret in error)"

subsection \<open>The refinement of \<open>ctl\<close>\<close>

definition tree_laws :: "'t ep_env \<Rightarrow> ('t \<Rightarrow> bool) \<Rightarrow> bool" where
  "tree_laws env ok \<longleftrightarrow>
     (\<forall>t k e. ok t \<and> ep_find env t k = Some e \<longrightarrow> ffd e = k) \<and>
     (\<forall>t e. ok t \<and> ep_find env t (ffd e) = None \<longrightarrow> ok (ep_rbtree_insert env t e) \<and>
        ep_find env (ep_rbtree_insert env t e) = (ep_find env t)(ffd e \<mapsto> e)) \<and>
     (\<forall>t k e. ok t \<and> ep_find env t k = Some e \<longrightarrow> ok (ep_remove env t e) \<and>
        ep_find env (ep_remove env t e) = (ep_find env t)(k := None)) \<and>
     (\<forall>t k e ev. ok t \<and> ep_find env t k = Some e \<longrightarrow> ok (ep_modify env t e ev) \<and>
        ep_find env (ep_modify env t e ev) = (ep_find env t)(k \<mapsto> e\<lparr>event := ev\<rparr>))"

lemma tree_lawsD:
  assumes "tree_laws env ok" and "ok t"
  shows "ep_find env t (ffd i) = None \<Longrightarrow> ok (ep_rbtree_insert env t i)"
    and "ep_find env t (ffd i) = None \<Longrightarrow>
      ep_find env (ep_rbtree_insert env t i) = (ep_find env t)(ffd i \<mapsto> i)"
    and "ep_find env t k = Some e \<Longrightarrow> ok (ep_remove env t e)"
    and "ep_find env t k = Some e \<Longrightarrow> ep_find env (ep_remove env t e) = (ep_find env t)(k := None)"
    and "ep_find env t k = Some e \<Longrightarrow> ok (ep_modify env t e ev)"
    and "ep_find env t k = Some e \<Longrightarrow>
      ep_find env (ep_modify env t e ev) = (ep_find env t)(k \<mapsto> e\<lparr>event := ev\<rparr>)"
  using assms unfolding tree_laws_def by blast+

definition interest_of :: "'t ep_env \<Rightarrow> 't eventpoll \<Rightarrow> interest" where
  "interest_of env ep f = map_option (\<lambda>e. ev_events (event e)) (ep_find env (rbr ep) (fget env f, f))"

text \<open>
  A call as documented: the errors (\<open>EPERM\<close> for a target without \<open>poll\<close>, \<open>EINVAL\<close> for the epoll file
  itself or another kind of file, \<open>ELOOP\<close>, \<open>ENOSPC\<close> with \<open>full\<close>) change nothing.
\<close>

type_synonym ctl_call = "int \<times> ctl_op \<times> int \<times> epoll_event"

definition ctl_refused :: "'t ep_env \<Rightarrow> bool \<Rightarrow> int \<Rightarrow> ctl_op \<Rightarrow> int \<Rightarrow> bool" where
  "ctl_refused env full epfd op f \<longleftrightarrow> \<not> has_poll env (fget env f) \<or> fget env epfd = fget env f \<or>
     \<not> is_file_epoll env (fget env epfd) \<or>
     op = EPOLL_CTL_ADD \<and> (full \<or> is_file_epoll env (fget env f) \<and> ep_loop_check env (fget env f) \<noteq> 0)"

fun ctl_doc :: "'t ep_env \<Rightarrow> bool \<Rightarrow> ctl_call \<Rightarrow> interest \<Rightarrow> interest" where
  "ctl_doc env full (epfd, op, f, ev) m =
     (if ctl_refused env full epfd op f then m
      else ctl op f (ev_events ev OR (POLLERR OR POLLHUP)) m)"

definition ep_ok :: "('t \<Rightarrow> bool) \<Rightarrow> 't eventpoll \<Rightarrow> bool" where
  "ep_ok ok ep \<longleftrightarrow> ok (rbr ep)"

lemma ctl_switch_add:
  assumes laws: "tree_laws env ok" "ok (rbr ep)"
  shows "ep_ok ok (ctl_switch env EPOLL_CTL_ADD (fget env f) f ev ep) \<and>
    interest_of env (ctl_switch env EPOLL_CTL_ADD (fget env f) f ev ep) =
      (if max_user_watches env \<le> epoll_watches ep then interest_of env ep
       else ctl EPOLL_CTL_ADD f (ev_events ev OR (POLLERR OR POLLHUP)) (interest_of env ep))"
proof (cases "ep_find env (rbr ep) (fget env f, f)")
  case None
  let ?e = "\<lparr>ffd = (fget env f, f), event = ev\<lparr>ev_events := ev_events ev OR (POLLERR OR POLLHUP)\<rparr>\<rparr>"
  have "ep_find env (rbr ep) (ffd ?e) = None" using None by simp
  from tree_lawsD(1,2)[OF laws this] None laws(2) show ?thesis
    by (auto simp: ep_ok_def interest_of_def ctl_switch_def ep_insert_def Let_def fun_eq_iff)
qed (use laws(2) in \<open>auto simp: ep_ok_def interest_of_def ctl_switch_def Let_def fun_eq_iff\<close>)

lemma ctl_switch_other:
  assumes laws: "tree_laws env ok" "ok (rbr ep)" and op: "op \<noteq> EPOLL_CTL_ADD"
  shows "ep_ok ok (ctl_switch env op (fget env f) f ev ep) \<and>
    interest_of env (ctl_switch env op (fget env f) f ev ep) =
      ctl op f (ev_events ev OR (POLLERR OR POLLHUP)) (interest_of env ep)"
proof (cases "ep_find env (rbr ep) (fget env f, f)")
  case None
  with laws(2) op show ?thesis
    by (cases op) (auto simp: ep_ok_def interest_of_def ctl_switch_def Let_def fun_eq_iff)
next
  case (Some e)
  from tree_lawsD(3-6)[OF laws Some] Some op show ?thesis
    by (cases op) (auto simp: ep_ok_def interest_of_def ctl_switch_def Let_def fun_eq_iff)
qed

lemma ctl_switch_watches [simp]: "epoll_watches (ctl_switch env op tf f ev ep) = epoll_watches ep"
  by (cases op) (auto simp: ctl_switch_def ep_insert_def Let_def split: option.split)

lemma interest_check_list [simp]: "interest_of env (ep\<lparr>tfile_check_list := l\<rparr>) = interest_of env ep"
  by (simp add: interest_of_def fun_eq_iff)

fun holds :: "lock list \<Rightarrow> lockact list \<Rightarrow> lock list option" where
  "holds ls [] = Some ls"
| "holds ls (Lock l # as) = (if l \<in> set ls then None else holds (l # ls) as)"
| "holds ls (Unlock l # as) = (if ls \<noteq> [] \<and> hd ls = l then holds (tl ls) as else None)"

lemma holds_append: "holds ls as = Some ls' \<Longrightarrow> holds ls (as @ bs) = holds ls' bs"
  by (induction ls as rule: holds.induct) (auto split: if_splits)

text \<open>A run of calls on one epoll file, with all lock operations in their order.\<close>

fun ctl_run :: "'t ep_env \<Rightarrow> ctl_call list \<Rightarrow> 't eventpoll \<Rightarrow> 't eventpoll \<times> lockact list" where
  "ctl_run env [] ep = (ep, [])"
| "ctl_run env ((epfd, op, f, ev) # cs) ep =
     (let (ep1, l1) = epoll_ctl env epfd op f ev ep; (ep2, l2) = ctl_run env cs ep1 in (ep2, l1 @ l2))"

text \<open>
  On every path, the early exits by \<open>goto\<close> included, each mutex is taken at most once, released
  in the opposite order, and none is held at the end.
\<close>

lemma epoll_ctl_balanced: "holds [] (snd (epoll_ctl env epfd op f ev ep)) = Some []"
  by (cases op) (simp_all add: epoll_ctl_def Let_def)

lemma epoll_ctl_watches [simp]: "epoll_watches (fst (epoll_ctl env epfd op f ev ep)) = epoll_watches ep"
  by (simp add: epoll_ctl_def Let_def)

lemma epoll_ctl_one:
  assumes laws: "tree_laws env ok" "ep_ok ok ep"
  shows "ep_ok ok (fst (epoll_ctl env epfd op f ev ep)) \<and>
    interest_of env (fst (epoll_ctl env epfd op f ev ep)) =
      ctl_doc env (max_user_watches env \<le> epoll_watches ep) (epfd, op, f, ev) (interest_of env ep)"
proof -
  let ?c = "ep\<lparr>tfile_check_list := fget env f # tfile_check_list ep\<rparr>"
  have "ok (rbr ep)" "ok (rbr ?c)" using laws(2) by (simp_all add: ep_ok_def)
  with laws(2) ctl_switch_add[OF laws(1), of ep f ev] ctl_switch_add[OF laws(1), of ?c f ev]
    ctl_switch_other[OF laws(1), of ep op f ev]
  show ?thesis by (cases op) (auto simp: epoll_ctl_def ctl_refused_def Let_def simp del: ctl.simps)
qed

lemma ctl_run_refines:
  assumes "tree_laws env ok"
  shows "ep_ok ok ep \<Longrightarrow> ep_ok ok (fst (ctl_run env cs ep)) \<and>
    interest_of env (fst (ctl_run env cs ep)) =
      fold (ctl_doc env (max_user_watches env \<le> epoll_watches ep)) cs (interest_of env ep) \<and>
    holds [] (snd (ctl_run env cs ep)) = Some []"
proof (induction cs arbitrary: ep)
  case (Cons c cs)
  obtain epfd op f ev where c: "c = (epfd, op, f, ev)" by (cases c)
  let ?r = "epoll_ctl env epfd op f ev ep"
  have one: "ep_ok ok (fst ?r)" "interest_of env (fst ?r) =
      ctl_doc env (max_user_watches env \<le> epoll_watches ep) c (interest_of env ep)"
    using epoll_ctl_one[OF assms Cons.prems] c by blast+
  from Cons.IH[OF one(1)] one(2) c holds_append[OF epoll_ctl_balanced, of env epfd op f ev ep]
  show ?case by (simp add: case_prod_beta)
qed simp


subsection \<open>Properties\<close>

text \<open>
  C10. \<open>epoll_ctl\<close> implements its documentation over any sequence of calls. With a red-black tree
  whose operations keep its invariant and do what they are documented to do where the code
  uses them (insert an absent key, remove or modify an item found in the tree), the
  descriptors and events asked for after the calls are those of the documented \<open>ctl\<close>: a
  refused call (target without \<open>poll\<close>, the epoll file itself, no epoll file, a cycle, no watch
  left) changes nothing, adding twice and changing or deleting what is not there have no
  effect, and \<open>POLLERR\<close> and \<open>POLLHUP\<close> are always included. The tree is never used outside that
  documentation, its invariant holds again at the end, and the mutexes of all calls are
  taken and released in a balanced order.
\<close>

theorem epoll_ctl_refines:
  assumes "tree_laws env ok" and "ok (rbr ep)"
  shows "ok (rbr (fst (ctl_run env calls ep))) \<and>
    interest_of env (fst (ctl_run env calls ep)) =
      fold (ctl_doc env (max_user_watches env \<le> epoll_watches ep)) calls (interest_of env ep) \<and>
    holds [] (snd (ctl_run env calls ep)) = Some []"
  using ctl_run_refines[OF assms(1), of ep calls] assms(2) by (simp add: ep_ok_def)

text \<open>The laws hold of the library's red-black trees.\<close>

definition rbt_env :: "((nat \<times> int, epitem) rbt) ep_env" where
  "rbt_env = \<lparr>ep_find = RBT.lookup, ep_rbtree_insert = (\<lambda>t e. RBT.insert (ffd e) e t),
     ep_remove = (\<lambda>t e. RBT.delete (ffd e) t),
     ep_modify = (\<lambda>t e ev. RBT.insert (ffd e) (e\<lparr>event := ev\<rparr>) t), fget = nat, has_poll = (\<lambda>f. True),
     is_file_epoll = (\<lambda>f. f = 9), ep_loop_check = (\<lambda>_. 0), max_user_watches = 100\<rparr>"

definition rbt_ok :: "(nat \<times> int, epitem) rbt \<Rightarrow> bool" where
  "rbt_ok t \<longleftrightarrow> (\<forall>k e. RBT.lookup t k = Some e \<longrightarrow> ffd e = k)"

lemma rbt_env_laws: "tree_laws rbt_env rbt_ok"
  unfolding tree_laws_def by (auto simp: rbt_env_def rbt_ok_def)

definition empty_ep :: "((nat \<times> int, epitem) rbt) eventpoll" where
  "empty_ep = \<lparr>rbr = RBT.empty, rdllist = [], wq_active = False, wake_ups = 0, epoll_watches = 0,
     f_ep_links = (\<lambda>_. []), tfile_check_list = []\<rparr>"

theorem epoll_ctl_refines_witness:
  "interest_of rbt_env (fst (ctl_run rbt_env
     [(9, EPOLL_CTL_ADD, 5, \<lparr>ev_events = EPOLLIN, ev_data = 5\<rparr>),
      (9, EPOLL_CTL_ADD, 5, \<lparr>ev_events = EPOLLOUT, ev_data = 5\<rparr>),
      (9, EPOLL_CTL_MOD, 6, \<lparr>ev_events = EPOLLOUT, ev_data = 6\<rparr>)] empty_ep)) = [5 \<mapsto> 0x19]"
proof -
  have "rbt_ok (rbr empty_ep)" by (simp add: rbt_ok_def empty_ep_def)
  from epoll_ctl_refines[OF rbt_env_laws this, of "[(9, EPOLL_CTL_ADD, 5, \<lparr>ev_events = EPOLLIN, ev_data = 5\<rparr>),
      (9, EPOLL_CTL_ADD, 5, \<lparr>ev_events = EPOLLOUT, ev_data = 5\<rparr>),
      (9, EPOLL_CTL_MOD, 6, \<lparr>ev_events = EPOLLOUT, ev_data = 6\<rparr>)]"]
  show ?thesis
    by (simp add: interest_of_def empty_ep_def rbt_env_def event_bits ctl_refused_def fun_eq_iff)
qed

text \<open>
  No event is lost and none is queued twice: \<open>ep_poll_callback\<close> puts the item of every event it asked
  for on the ready list, once, whether it was there or not, keeps what was there, and
  wakes the waiting task; an event the item did not ask for changes nothing.
\<close>

theorem callback_queues_once:
  assumes "distinct (rdllist ep)"
  shows "distinct (rdllist (ep_poll_callback epi key ep)) \<and>
    (if key = 0 \<or> key AND ev_events (event epi) \<noteq> 0
     then set (rdllist (ep_poll_callback epi key ep)) = insert epi (set (rdllist ep)) \<and>
       wake_ups (ep_poll_callback epi key ep) = wake_ups ep + (if wq_active ep then 1 else 0)
     else ep_poll_callback epi key ep = ep)"
  using assms by (auto simp: ep_poll_callback_def wake_up_def)

theorem callback_queues_once_witness:
  "distinct (rdllist (ep_poll_callback \<lparr>ffd = (5, 5), event = \<lparr>ev_events = EPOLLIN, ev_data = 5\<rparr>\<rparr> EPOLLIN empty_ep)) \<and>
   set (rdllist (ep_poll_callback \<lparr>ffd = (5, 5), event = \<lparr>ev_events = EPOLLIN, ev_data = 5\<rparr>\<rparr> EPOLLIN empty_ep)) =
     {\<lparr>ffd = (5, 5), event = \<lparr>ev_events = EPOLLIN, ev_data = 5\<rparr>\<rparr>}"
  using callback_queues_once[of empty_ep "\<lparr>ffd = (5, 5), event = \<lparr>ev_events = EPOLLIN, ev_data = 5\<rparr>\<rparr>" EPOLLIN]
  by (simp add: empty_ep_def EPOLLIN_def)



end
