(* ===== verification/Epoll_Echo.thy ===== *)
theory Epoll_Echo
  imports Epoll_Kernel
begin

text \<open>
  The echo server \<open>code/network/IO/multiplexing/via_epoll/server.cpp\<close> and its client
  \<open>via_epoll/client.cpp\<close>. Both keep one character buffer for all descriptors, and what they
  wait for in the kernel's interest list (\<open>ctl\<close> of \<open>Epoll_Kernel\<close>; the return values of
  \<open>epoll_ctl\<close> are ignored by the code). A ready event comes with the kernel's answers to
  the call its handler makes. \<open>close\<close> takes a descriptor off the interest list, as
  documented, so the \<open>EPOLL_CTL_DEL\<close> the server sends after it finds nothing.
  \<open>printf("%s", buf)\<close> and \<open>strlen(buf)\<close> of a buffer without a terminator are the error value
  \<open>UnterminatedString\<close>.
\<close>

definition MAXSIZE :: nat where "MAXSIZE = 1024"
definition LISTENQ :: int where "LISTENQ = 5"
definition PORT :: int where "PORT = 8787"
definition IPADDRESS :: string where "IPADDRESS = ''127.0.0.1''"

record ep_state =
  interest :: interest
  buf :: string
  acts :: "sysact list"

record ep_ready =
  rfd :: int
  rbits :: evbits
  ans_accept :: accept_result
  ans_read :: read_result
  ans_write :: int

definition emit :: "sysact list \<Rightarrow> ep_state \<Rightarrow> ep_state" where
  "emit as s = s\<lparr>acts := acts s @ as\<rparr>"

definition add_event :: "int \<Rightarrow> evbits \<Rightarrow> ep_state \<Rightarrow> ep_state" where
  "add_event f state s = s\<lparr>interest := ctl EPOLL_CTL_ADD f state (interest s)\<rparr>"

definition delete_event :: "int \<Rightarrow> evbits \<Rightarrow> ep_state \<Rightarrow> ep_state" where
  "delete_event f state s = s\<lparr>interest := ctl EPOLL_CTL_DEL f state (interest s)\<rparr>"

definition modify_event :: "int \<Rightarrow> evbits \<Rightarrow> ep_state \<Rightarrow> ep_state" where
  "modify_event f state s = s\<lparr>interest := ctl EPOLL_CTL_MOD f state (interest s)\<rparr>"

definition close_fd :: "int \<Rightarrow> ep_state \<Rightarrow> ep_state" where
  "close_fd f s = emit [Close f] (s\<lparr>interest := (interest s)(f := None)\<rparr>)"

lemmas handler_defs = emit_def add_event_def delete_event_def modify_event_def close_fd_def

subsection \<open>The server\<close>

definition socket_bind :: "sock_env \<Rightarrow> string \<Rightarrow> int \<Rightarrow> sysact list + int \<times> sysact list" where
  "socket_bind env ip port =
     (let listenfd = socket_ret env in
      if listenfd = -1 then Inl [Diag ''socket error'']
      else if bind_ret env = -1 then Inl [Bind listenfd ip port, Diag ''bind error'']
      else Inr (listenfd, [Bind listenfd ip port]))"

definition handle_accpet :: "accept_result \<Rightarrow> ep_state \<Rightarrow> c_error + ep_state" where
  "handle_accpet ans s =
     (case ans of
        AcceptErr e \<Rightarrow> Inr (emit [Diag ''accpet error''] s)
      | AcceptFd clifd \<Rightarrow> Inr (add_event (int clifd) EPOLLIN (emit [Diag ''accept a new client''] s)))"

definition do_read :: "int \<Rightarrow> read_result \<Rightarrow> ep_state \<Rightarrow> c_error + ep_state" where
  "do_read f ans s =
     (let nread = read_ret ans MAXSIZE; s = s\<lparr>buf := read_into ans MAXSIZE (buf s)\<rparr> in
      if nread = -1 then Inr (delete_event f EPOLLIN (close_fd f (emit [Diag ''read error''] s)))
      else if nread = 0 then Inr (delete_event f EPOLLIN (close_fd f (emit [Diag ''client close''] s)))
      else (case strlen (buf s) of
              None \<Rightarrow> Inl UnterminatedString
            | Some k \<Rightarrow> Inr (modify_event f EPOLLOUT (emit [Diag (take k (buf s))] s))))"

definition do_write :: "int \<Rightarrow> int \<Rightarrow> ep_state \<Rightarrow> c_error + ep_state" where
  "do_write f nwrite s =
     (case strlen (buf s) of
        None \<Rightarrow> Inl UnterminatedString
      | Some k \<Rightarrow>
          let s = emit [Write f (take k (buf s))] s;
              s = (if nwrite = -1 then delete_event f EPOLLOUT (close_fd f (emit [Diag ''write error''] s))
                   else modify_event f EPOLLIN s)
          in Inr (s\<lparr>buf := zeros MAXSIZE\<rparr>))"

definition handle_event :: "int \<Rightarrow> ep_ready \<Rightarrow> ep_state \<Rightarrow> c_error + ep_state" where
  "handle_event listenfd e s =
     (if rfd e = listenfd \<and> rbits e AND EPOLLIN \<noteq> 0 then handle_accpet (ans_accept e) s
      else if rbits e AND EPOLLIN \<noteq> 0 then do_read (rfd e) (ans_read e) s
      else if rbits e AND EPOLLOUT \<noteq> 0 then do_write (rfd e) (ans_write e) s
      else Inr s)"

definition handle_events :: "int \<Rightarrow> ep_ready list \<Rightarrow> ep_state \<Rightarrow> c_error + ep_state" where
  "handle_events listenfd evs s = foldE (handle_event listenfd) evs s"

text \<open>\<open>do_epoll\<close>: the results of the successive \<open>epoll_wait\<close> calls.\<close>

definition ep_start :: "int \<Rightarrow> ep_state" where
  "ep_start listenfd = add_event listenfd EPOLLIN \<lparr>interest = Map.empty, buf = zeros MAXSIZE, acts = []\<rparr>"

definition do_epoll :: "int \<Rightarrow> ep_ready list list \<Rightarrow> c_error + ep_state" where
  "do_epoll listenfd waits = foldE (handle_events listenfd) waits (ep_start listenfd)"

definition main_epoll :: "sock_env \<Rightarrow> ep_ready list list \<Rightarrow> sysact list + c_error + ep_state" where
  "main_epoll env waits =
     (case socket_bind env IPADDRESS PORT of
        Inl as \<Rightarrow> Inl as
      | Inr (listenfd, as) \<Rightarrow> Inr
          (case do_epoll listenfd waits of
             Inl e \<Rightarrow> Inl e
           | Inr s \<Rightarrow> Inr (s\<lparr>acts := as @ [Listen listenfd LISTENQ] @ acts s\<rparr>)))"

subsection \<open>The client\<close>

abbreviation (input) STDIN :: int where "STDIN \<equiv> 0"
abbreviation (input) STDOUT :: int where "STDOUT \<equiv> 1"

definition cl_read :: "int \<Rightarrow> int \<Rightarrow> read_result \<Rightarrow> ep_state \<Rightarrow> c_error + ep_state" where
  "cl_read sockfd f ans s =
     (let nread = read_ret ans MAXSIZE; s = s\<lparr>buf := read_into ans MAXSIZE (buf s)\<rparr> in
      if nread = -1 then Inr (close_fd f (emit [Diag ''read error''] s))
      else if nread = 0 then Inr (close_fd f (emit [Diag ''server close''] s))
      else if f = STDIN then Inr (add_event sockfd EPOLLOUT s)
      else Inr (add_event STDOUT EPOLLOUT (delete_event sockfd EPOLLIN s)))"

definition cl_write :: "int \<Rightarrow> int \<Rightarrow> ep_state \<Rightarrow> c_error + ep_state" where
  "cl_write f nwrite s =
     (case strlen (buf s) of
        None \<Rightarrow> Inl UnterminatedString
      | Some k \<Rightarrow>
          let s = emit [Write f (take k (buf s))] s;
              s = (if nwrite = -1 then close_fd f (emit [Diag ''write error''] s)
                   else if f = STDOUT then delete_event f EPOLLOUT s
                   else modify_event f EPOLLIN s)
          in Inr (s\<lparr>buf := zeros MAXSIZE\<rparr>))"

definition cl_event :: "int \<Rightarrow> ep_ready \<Rightarrow> ep_state \<Rightarrow> c_error + ep_state" where
  "cl_event sockfd e s =
     (if rbits e AND EPOLLIN \<noteq> 0 then cl_read sockfd (rfd e) (ans_read e) s
      else if rbits e AND EPOLLOUT \<noteq> 0 then cl_write (rfd e) (ans_write e) s
      else Inr s)"

definition cl_events :: "int \<Rightarrow> ep_ready list \<Rightarrow> ep_state \<Rightarrow> c_error + ep_state" where
  "cl_events sockfd evs s = foldE (cl_event sockfd) evs s"

text \<open>\<open>main\<close> and \<open>handle_connection\<close>; the buffer is not initialised.\<close>

definition main_client :: "int \<Rightarrow> string \<Rightarrow> ep_ready list list \<Rightarrow> c_error + ep_state" where
  "main_client sockfd junk waits = foldE (cl_events sockfd) waits
     (add_event STDIN EPOLLIN
       \<lparr>interest = Map.empty, buf = junk, acts = [Connect sockfd IPADDRESS PORT]\<rparr>)"

subsection \<open>Which events the kernel reports\<close>

text \<open>A reported descriptor is on the interest list, with bits that were asked for (or an error).\<close>

definition asked :: "interest \<Rightarrow> ep_ready \<Rightarrow> bool" where
  "asked m e = (case m (rfd e) of None \<Rightarrow> False
     | Some b \<Rightarrow> rbits e AND NOT (b OR (POLLERR OR POLLHUP)) = 0)"

lemma asked_in_out:
  "m (rfd e) = Some EPOLLIN \<Longrightarrow> asked m e \<Longrightarrow> rbits e AND EPOLLOUT = 0"
  "m (rfd e) = Some EPOLLOUT \<Longrightarrow> asked m e \<Longrightarrow> rbits e AND EPOLLIN = 0"
proof -
  show "m (rfd e) = Some EPOLLIN \<Longrightarrow> asked m e \<Longrightarrow> rbits e AND EPOLLOUT = 0"
    by (rule and_outside[of _ "EPOLLIN OR (POLLERR OR POLLHUP)"]) (simp_all add: asked_def event_bits)
  show "m (rfd e) = Some EPOLLOUT \<Longrightarrow> asked m e \<Longrightarrow> rbits e AND EPOLLIN = 0"
    by (rule and_outside[of _ "EPOLLOUT OR (POLLERR OR POLLHUP)"]) (simp_all add: asked_def event_bits)
qed

text \<open>Every descriptor waits for input or for output, the listening socket for input.\<close>

definition dir_inv :: "int \<Rightarrow> interest \<Rightarrow> bool" where
  "dir_inv listenfd m \<longleftrightarrow> m listenfd = Some EPOLLIN \<and> (\<forall>f b. m f = Some b \<longrightarrow> b = EPOLLIN \<or> b = EPOLLOUT)"

subsection \<open>A reference server with a buffer of its own for every client\<close>

record spec_state =
  sinterest :: interest
  pending :: "int \<Rightarrow> string"
  sacts :: "sysact list"

definition c_string :: "string \<Rightarrow> string" where
  "c_string d = takeWhile (\<lambda>c. c \<noteq> NUL) (take MAXSIZE d)"

definition spec_event :: "int \<Rightarrow> ep_ready \<Rightarrow> spec_state \<Rightarrow> spec_state" where
  "spec_event listenfd e t =
     (let f = rfd e; m = sinterest t in
      if f = listenfd \<and> rbits e AND EPOLLIN \<noteq> 0 then
        (case ans_accept e of
           AcceptErr _ \<Rightarrow> t\<lparr>sacts := sacts t @ [Diag ''accpet error'']\<rparr>
         | AcceptFd c \<Rightarrow> t\<lparr>sinterest := ctl EPOLL_CTL_ADD (int c) EPOLLIN m,
                           sacts := sacts t @ [Diag ''accept a new client'']\<rparr>)
      else if rbits e AND EPOLLIN \<noteq> 0 then
        (case ans_read e of
           ReadErr _ \<Rightarrow> t\<lparr>sinterest := m(f := None), sacts := sacts t @ [Diag ''read error'', Close f]\<rparr>
         | ReadOk d \<Rightarrow>
             if d = [] then t\<lparr>sinterest := m(f := None), sacts := sacts t @ [Diag ''client close'', Close f]\<rparr>
             else t\<lparr>sinterest := m(f \<mapsto> EPOLLOUT), pending := (pending t)(f := c_string d),
                     sacts := sacts t @ [Diag (c_string d)]\<rparr>)
      else if rbits e AND EPOLLOUT \<noteq> 0 then
        (if ans_write e = -1
         then t\<lparr>sinterest := m(f := None), sacts := sacts t @ [Write f (pending t f), Diag ''write error'', Close f]\<rparr>
         else t\<lparr>sinterest := m(f \<mapsto> EPOLLIN), sacts := sacts t @ [Write f (pending t f)]\<rparr>)
      else t)"

definition spec_start :: "int \<Rightarrow> spec_state" where
  "spec_start listenfd = \<lparr>sinterest = [listenfd \<mapsto> EPOLLIN], pending = (\<lambda>_. []), sacts = []\<rparr>"

text \<open>
  One request at a time: a client is read only while no answer is outstanding, and a message
  has a terminator or leaves room for one.
\<close>

definition serial_event :: "int \<Rightarrow> ep_ready \<Rightarrow> spec_state \<Rightarrow> bool" where
  "serial_event listenfd e t \<longleftrightarrow> asked (sinterest t) e \<and>
     (rfd e \<noteq> listenfd \<and> rbits e AND EPOLLIN \<noteq> 0 \<longrightarrow>
        EPOLLOUT \<notin> ran (sinterest t) \<and>
        (\<forall>d. ans_read e = ReadOk d \<longrightarrow> length d < MAXSIZE \<or> NUL \<in> set (take MAXSIZE d)))"

fun serial_run :: "int \<Rightarrow> ep_ready list \<Rightarrow> spec_state \<Rightarrow> bool" where
  "serial_run listenfd [] t = True"
| "serial_run listenfd (e # es) t = (serial_event listenfd e t \<and> serial_run listenfd es (spec_event listenfd e t))"

definition sim :: "int \<Rightarrow> ep_state \<Rightarrow> spec_state \<Rightarrow> bool" where
  "sim listenfd s t \<longleftrightarrow> interest s = sinterest t \<and> acts s = sacts t \<and> dir_inv listenfd (sinterest t) \<and>
     (EPOLLOUT \<notin> ran (sinterest t) \<longrightarrow> buf s = zeros MAXSIZE) \<and>
     (\<forall>f. sinterest t f = Some EPOLLOUT \<longrightarrow>
        strlen (buf s) = Some (length (pending t f)) \<and> take (length (pending t f)) (buf s) = pending t f \<and>
        (\<forall>g. sinterest t g = Some EPOLLOUT \<longrightarrow> g = f))"

lemma strlen_zeros_blit:
  assumes "length d < MAXSIZE \<or> NUL \<in> set (take MAXSIZE d)"
  shows "strlen (blit (take MAXSIZE d) (zeros MAXSIZE)) = Some (length (c_string d)) \<and>
    take (length (c_string d)) (blit (take MAXSIZE d) (zeros MAXSIZE)) = c_string d"
proof (cases "NUL \<in> set (take MAXSIZE d)")
  case True
  have "take (length (c_string d)) (take MAXSIZE d) = c_string d"
    unfolding c_string_def by (rule takeWhile_eq_take[symmetric])
  moreover have "length (c_string d) \<le> length (take MAXSIZE d)"
    unfolding c_string_def by (rule length_takeWhile_le)
  ultimately have "take (length (c_string d)) (blit (take MAXSIZE d) (zeros MAXSIZE)) = c_string d"
    unfolding blit_def by simp
  then show ?thesis using strlen_blit_terminated[OF True] by (simp add: c_string_def)
next
  case False
  with assms have l: "length (take MAXSIZE d) < MAXSIZE" by auto
  have "c_string d = take MAXSIZE d" unfolding c_string_def
    using False by (subst takeWhile_eq_all_conv) auto
  with strlen_blit_zeros[OF False l] take_blit[of "take MAXSIZE d"] show ?thesis by simp
qed

lemma EPOLL_neq [simp]: "EPOLLIN \<noteq> EPOLLOUT" "EPOLLOUT \<noteq> EPOLLIN"
  by (simp_all add: event_bits)

lemma MAXSIZE_take: "take MAXSIZE d = [] \<longleftrightarrow> d = []"
  by (simp add: MAXSIZE_def)

lemma no_out_upd: "EPOLLOUT \<notin> ran m \<Longrightarrow> EPOLLOUT \<notin> ran (m(f := None))"
  by (auto simp: ran_def)

lemma sim_accept:
  assumes "sim l s t" and "rfd e = l" and "rbits e AND EPOLLIN \<noteq> 0"
  shows "\<exists>s'. handle_event l e s = Inr s' \<and> sim l s' (spec_event l e t)"
proof -
  have "EPOLLOUT \<in> ran (m(f \<mapsto> EPOLLIN)) \<longleftrightarrow> EPOLLOUT \<in> ran m" if "m f = None" for m :: interest and f
    using that by (auto simp: ran_def) (metis option.distinct(1))
  with assms show ?thesis
    by (cases "ans_accept e")
       (auto simp: handle_event_def handle_accpet_def spec_event_def sim_def handler_defs dir_inv_def Let_def)
qed

lemma sim_read:
  assumes sim: "sim l s t" and ser: "serial_event l e t" and f: "rfd e \<noteq> l" and b: "rbits e AND EPOLLIN \<noteq> 0"
  shows "\<exists>s'. handle_event l e s = Inr s' \<and> sim l s' (spec_event l e t)"
proof -
  have no: "EPOLLOUT \<notin> ran (sinterest t)" using ser f b by (simp add: serial_event_def)
  then have bz: "buf s = zeros MAXSIZE" using sim by (simp add: sim_def)
  have h: "handle_event l e s = do_read (rfd e) (ans_read e) s" using f b by (simp add: handle_event_def)
  have some: "sinterest t (rfd e) \<noteq> None" using ser
    by (auto simp: serial_event_def asked_def split: option.splits)
  show ?thesis
  proof (cases "ans_read e")
    case (ReadErr n)
    with h f b sim no no_out_upd[OF no, of "rfd e"] show ?thesis
      by (auto simp: do_read_def handler_defs spec_event_def sim_def dir_inv_def ran_def Let_def)
  next
    case (ReadOk d)
    show ?thesis
    proof (cases "d = []")
      case True
      with ReadOk h f b sim no no_out_upd[OF no, of "rfd e"] show ?thesis
        by (auto simp: do_read_def handler_defs spec_event_def sim_def dir_inv_def ran_def blit_def Let_def)
    next
      case False
      let ?b = "blit (take MAXSIZE d) (zeros MAXSIZE)"
      from ReadOk ser f b have "length d < MAXSIZE \<or> NUL \<in> set (take MAXSIZE d)"
        by (simp add: serial_event_def)
      note str = strlen_zeros_blit[OF this]
      let ?s = "s\<lparr>buf := ?b, acts := acts s @ [Diag (c_string d)],
        interest := (interest s)(rfd e \<mapsto> EPOLLOUT)\<rparr>"
      have "handle_event l e s = Inr ?s"
      proof -
        have n: "read_ret (ans_read e) MAXSIZE \<noteq> 0" "read_ret (ans_read e) MAXSIZE \<noteq> -1"
          using ReadOk False MAXSIZE_take[of d] by (simp_all add: MAXSIZE_def)
        have i: "read_into (ans_read e) MAXSIZE (buf s) = ?b" using ReadOk bz by simp
        show ?thesis unfolding h do_read_def using n i str some sim
          by (auto simp: handler_defs sim_def Let_def)
      qed
      moreover have "sim l ?s (spec_event l e t)"
        using sim no str f b ReadOk False by (auto simp: sim_def spec_event_def dir_inv_def ran_def Let_def)
      ultimately show ?thesis by blast
    qed
  qed
qed

lemma sim_write:
  assumes sim: "sim l s t" and ser: "serial_event l e t"
    and b: "rbits e AND EPOLLIN = 0" "rbits e AND EPOLLOUT \<noteq> 0"
  shows "\<exists>s'. handle_event l e s = Inr s' \<and> sim l s' (spec_event l e t)"
proof -
  have ask: "asked (sinterest t) e" using ser by (simp add: serial_event_def)
  then obtain x where x: "sinterest t (rfd e) = Some x" by (auto simp: asked_def split: option.splits)
  with sim have "x = EPOLLIN \<or> x = EPOLLOUT" by (auto simp: sim_def dir_inv_def)
  with x b asked_in_out(1)[OF _ ask] have out: "sinterest t (rfd e) = Some EPOLLOUT" by auto
  with sim have f: "rfd e \<noteq> l" by (auto simp: sim_def dir_inv_def)
  from sim out have str: "strlen (buf s) = Some (length (pending t (rfd e)))"
    "take (length (pending t (rfd e))) (buf s) = pending t (rfd e)"
    "\<And>g. sinterest t g = Some EPOLLOUT \<Longrightarrow> g = rfd e" by (auto simp: sim_def)
  let ?t = "spec_event l e t"
  have rest: "sinterest ?t g \<noteq> Some EPOLLOUT" for g
    using b f str(3)[of g] by (auto simp: spec_event_def Let_def)
  then have "EPOLLOUT \<notin> ran (sinterest ?t)" by (simp add: ran_def)
  let ?s = "s\<lparr>buf := zeros MAXSIZE, acts := sacts ?t, interest := sinterest ?t\<rparr>"
  have "handle_event l e s = Inr ?s"
  proof -
    have eq: "interest s = sinterest t" "acts s = sacts t" using sim by (simp_all add: sim_def)
    have "handle_event l e s = do_write (rfd e) (ans_write e) s" using b by (simp add: handle_event_def)
    also have "\<dots> = Inr ?s"
      using b f str(1,2) out eq by (cases "ans_write e = -1")
        (simp_all add: do_write_def handler_defs spec_event_def Let_def)
    finally show ?thesis .
  qed
  moreover have "sim l ?s ?t"
    using sim rest f b by (auto simp: sim_def spec_event_def dir_inv_def Let_def)
  ultimately show ?thesis by blast
qed

lemma sim_event:
  assumes "sim l s t" and "serial_event l e t"
  shows "\<exists>s'. handle_event l e s = Inr s' \<and> sim l s' (spec_event l e t)"
proof -
  consider "rfd e = l" "rbits e AND EPOLLIN \<noteq> 0" | "rfd e \<noteq> l" "rbits e AND EPOLLIN \<noteq> 0"
    | "rbits e AND EPOLLIN = 0" "rbits e AND EPOLLOUT \<noteq> 0"
    | "rbits e AND EPOLLIN = 0" "rbits e AND EPOLLOUT = 0" by blast
  then show ?thesis
  proof cases
    case 4
    with assms(1) show ?thesis by (simp add: handle_event_def spec_event_def)
  qed (use assms sim_accept sim_read sim_write in blast)+
qed

lemma sim_run:
  assumes "sim l s t" and "serial_run l evs t"
  shows "\<exists>s'. foldE (handle_event l) evs s = Inr s' \<and> sim l s' (fold (spec_event l) evs t)"
  using assms
proof (induction evs arbitrary: s t)
  case (Cons e evs)
  then obtain s' where "handle_event l e s = Inr s'" "sim l s' (spec_event l e t)"
    using sim_event by (metis serial_run.simps(2))
  with Cons show ?case by auto
qed simp

lemma sim_start: "sim l (ep_start l) (spec_start l)"
  by (auto simp: sim_def ep_start_def spec_start_def add_event_def dir_inv_def split: if_splits)

lemma handle_events_foldE: "handle_events l = foldE (handle_event l)"
  by (simp add: handle_events_def fun_eq_iff)

subsection \<open>The direction of every descriptor\<close>

fun asked_run :: "int \<Rightarrow> ep_ready list \<Rightarrow> ep_state \<Rightarrow> bool" where
  "asked_run listenfd [] s = True"
| "asked_run listenfd (e # es) s = (asked (interest s) e \<and>
     (case handle_event listenfd e s of Inl _ \<Rightarrow> True | Inr s' \<Rightarrow> asked_run listenfd es s'))"

lemma dir_inv_event:
  assumes inv: "dir_inv l (interest s)" and ask: "asked (interest s) e" and h: "handle_event l e s = Inr s'"
  shows "dir_inv l (interest s')"
proof -
  have out: "rfd e \<noteq> l" if "rbits e AND EPOLLOUT \<noteq> 0" "rbits e AND EPOLLIN = 0"
    using asked_in_out(1)[OF _ ask] inv that by (auto simp: dir_inv_def)
  show ?thesis
    using inv out h by (auto simp: handle_event_def handle_accpet_def do_read_def do_write_def handler_defs
        dir_inv_def Let_def split: if_splits accept_result.splits option.splits) blast+
qed

lemma dir_inv_run:
  "dir_inv l (interest s) \<Longrightarrow> asked_run l evs s \<Longrightarrow> foldE (handle_event l) evs s = Inr t \<Longrightarrow>
     dir_inv l (interest t)"
proof (induction evs arbitrary: s)
  case (Cons e evs)
  then obtain u where "handle_event l e s = Inr u" "foldE (handle_event l) evs u = Inr t"
    by (auto split: sum.splits)
  with Cons show ?case by (auto intro: dir_inv_event)
qed simp

subsection \<open>Properties\<close>

text \<open>
  C3. The epoll server echoes when requests come one at a time: over any sequence of reported events in
  which a client is read only while no answer is outstanding, and every message contains
  or leaves room for a terminator, the server never reads past its buffer, and its calls
  and its interest list are those of a server with a separate buffer for every client:
  each client is sent the text it sent (up to the first NUL), in order.
\<close>

theorem server_echoes_serial:
  assumes "serial_run listenfd (concat waits) (spec_start listenfd)"
  shows "\<exists>s. do_epoll listenfd waits = Inr s \<and>
    acts s = sacts (fold (spec_event listenfd) (concat waits) (spec_start listenfd)) \<and>
    interest s = sinterest (fold (spec_event listenfd) (concat waits) (spec_start listenfd))"
  using sim_run[OF sim_start assms]
  by (auto simp: do_epoll_def handle_events_foldE foldE_concat sim_def)

text \<open>A client that connects, sends a line and gets it back.\<close>

definition ev_accept :: "nat \<Rightarrow> ep_ready" where
  "ev_accept c = \<lparr>rfd = 3, rbits = EPOLLIN, ans_accept = AcceptFd c, ans_read = ReadErr 0, ans_write = 0\<rparr>"
definition ev_read :: "int \<Rightarrow> string \<Rightarrow> ep_ready" where
  "ev_read f d = \<lparr>rfd = f, rbits = EPOLLIN, ans_accept = AcceptErr 0, ans_read = ReadOk d, ans_write = 0\<rparr>"
definition ev_write :: "int \<Rightarrow> ep_ready" where
  "ev_write f = \<lparr>rfd = f, rbits = EPOLLOUT, ans_accept = AcceptErr 0, ans_read = ReadErr 0, ans_write = 0\<rparr>"

lemmas ev_defs = ev_accept_def ev_read_def ev_write_def

theorem server_echoes_serial_witness:
  "\<exists>s. do_epoll 3 [[ev_accept 5], [ev_read 5 ''hi''], [ev_write 5]] = Inr s \<and>
    acts s = [Diag ''accept a new client'', Diag ''hi'', Write 5 ''hi'']"
proof -
  have "serial_run 3 (concat [[ev_accept 5], [ev_read 5 ''hi''], [ev_write 5]]) (spec_start 3)"
    by (simp add: ev_defs serial_event_def asked_def spec_event_def spec_start_def event_bits ran_def
        c_string_def MAXSIZE_def)
  from server_echoes_serial[OF this] show ?thesis
    by (auto simp: ev_defs spec_event_def spec_start_def event_bits c_string_def MAXSIZE_def Let_def)
qed

text \<open>
  The epoll server mixes up clients: it has one buffer, so when two clients have been read before the
  first answer is written, the first is sent the other's message (followed by what it
  leaves of its own) and the second is sent nothing.
\<close>

theorem server_crosstalk:
  assumes "a \<noteq> b" and "a \<noteq> l" and "b \<noteq> l"
    and "interest s a = Some EPOLLIN" and "interest s b = Some EPOLLIN" and "buf s = zeros MAXSIZE"
    and "x \<noteq> []" and "y \<noteq> []" and "NUL \<notin> set x" and "NUL \<notin> set y"
    and "length x < MAXSIZE" and "length y < MAXSIZE"
  shows "\<exists>t. handle_events l [ev_read a x, ev_read b y, ev_write a, ev_write b] s = Inr t \<and>
    acts t = acts s @ [Diag x, Diag (y @ drop (length y) x), Write a (y @ drop (length y) x), Write b []]"
proof -
  let ?z = "y @ drop (length y) x"
  have b: "blit y (blit x (zeros MAXSIZE)) = blit ?z (zeros MAXSIZE)"
    using assms(11,12) by (simp add: blit_def zeros_def)
  have z: "NUL \<notin> set ?z" "length ?z < MAXSIZE"
    using assms(9-12) by (auto dest: in_set_dropD)
  note str = strlen_blit_zeros[OF assms(9,11)] strlen_blit_zeros[OF z]
  have s0: "strlen (zeros MAXSIZE) = Some 0" using strlen_blit_zeros[of "[]" MAXSIZE]
    by (simp add: blit_def MAXSIZE_def)
  have tk: "take (length d) (blit d u) = d" for d u by (rule take_blit)
  have len: "take MAXSIZE x = x" "take MAXSIZE y = y" using assms(11,12) by simp_all
  have rd: "handle_event l (ev_read f d) u = Inr (modify_event f EPOLLOUT (emit [Diag (take k (blit d (buf u)))]
      (u\<lparr>buf := blit d (buf u)\<rparr>)))"
    if "f \<noteq> l" "d \<noteq> []" "take MAXSIZE d = d" "strlen (blit d (buf u)) = Some k" for f d u k
    using that by (simp add: handle_event_def ev_read_def do_read_def EPOLLIN_def)
  have wr: "handle_event l (ev_write f) u = Inr ((modify_event f EPOLLIN (emit [Write f (take k (buf u))] u))
      \<lparr>buf := zeros MAXSIZE\<rparr>)" if "strlen (buf u) = Some k" for f u k
    using that by (simp add: handle_event_def ev_write_def do_write_def event_bits)
  show ?thesis unfolding handle_events_def
    using assms(1-8) str tk[of ?z] tk[of x] len
    by (simp add: rd[of a x s "length x"] rd[of b y _ "length ?z"] wr[of _ "length ?z"] wr[of _ 0] b s0 handler_defs)
qed

theorem server_crosstalk_witness:
  "\<exists>t. handle_events 3 [ev_read 5 ''abc'', ev_read 6 ''X'', ev_write 5, ev_write 6]
      \<lparr>interest = [3 \<mapsto> EPOLLIN, 5 \<mapsto> EPOLLIN, 6 \<mapsto> EPOLLIN], buf = zeros MAXSIZE, acts = []\<rparr> = Inr t \<and>
    acts t = [Diag ''abc'', Diag ''Xbc'', Write 5 ''Xbc'', Write 6 []]"
  using server_crosstalk[of 5 6 3 "\<lparr>interest = [3 \<mapsto> EPOLLIN, 5 \<mapsto> EPOLLIN, 6 \<mapsto> EPOLLIN],
      buf = zeros MAXSIZE, acts = []\<rparr>" "''abc''" "''X''"]
  by (simp add: MAXSIZE_def)

text \<open>
  Every descriptor of the epoll server waits in one direction: as long as the kernel reports what was
  asked for, the listening socket always waits for input and every client either for input
  or for output, so no client is ever left on the list unable to make progress.
\<close>

lemma server_directions:
  assumes "asked_run listenfd (concat waits) (ep_start listenfd)" and "do_epoll listenfd waits = Inr s"
  shows "interest s listenfd = Some EPOLLIN \<and> ran (interest s) \<subseteq> {EPOLLIN, EPOLLOUT}"
proof -
  have "dir_inv listenfd (interest (ep_start listenfd))"
    by (auto simp: dir_inv_def ep_start_def add_event_def split: if_splits)
  from dir_inv_run[OF this assms(1)] assms(2) have "dir_inv listenfd (interest s)"
    by (simp add: do_epoll_def handle_events_foldE foldE_concat)
  then show ?thesis by (auto simp: dir_inv_def ran_def)
qed

subsection \<open>The client's cycle\<close>

definition idle :: "ep_state \<Rightarrow> bool" where
  "idle s \<longleftrightarrow> interest s = [STDIN \<mapsto> EPOLLIN] \<and> buf s = zeros MAXSIZE"

definition c_line :: "string \<Rightarrow> bool" where
  "c_line d \<longleftrightarrow> d \<noteq> [] \<and> NUL \<notin> set d \<and> length d < MAXSIZE"

lemma cl_read_event:
  "c_line d \<Longrightarrow> cl_event sockfd (ev_read f d) s = Inr
     (let s = s\<lparr>buf := blit d (buf s)\<rparr> in
      if f = STDIN then add_event sockfd EPOLLOUT s
      else add_event STDOUT EPOLLOUT (delete_event sockfd EPOLLIN s))"
  by (auto simp: cl_event_def ev_read_def cl_read_def event_bits Let_def c_line_def min_def)

lemma cl_write_event:
  "strlen (buf s) = Some k \<Longrightarrow> cl_event sockfd (ev_write f) s = Inr
     (let s = emit [Write f (take k (buf s))] s in
      (if f = STDOUT then delete_event f EPOLLOUT s else modify_event f EPOLLIN s)\<lparr>buf := zeros MAXSIZE\<rparr>)"
  by (simp add: cl_event_def ev_write_def cl_write_def event_bits Let_def)

lemma strlen_line: "c_line d \<Longrightarrow> strlen (blit d (zeros MAXSIZE)) = Some (length d)"
  by (simp add: c_line_def strlen_blit_zeros)

text \<open>
  The epoll client's cycle: from the idle state a line typed is sent to the server and the reply is
  printed, byte for byte, and the client is idle again: it waits for standard input only,
  with a clear buffer.
\<close>

theorem client_round_trip:
  assumes "idle s" and "c_line d" and "c_line r" and "1 < sockfd"
  shows "\<exists>t. cl_events sockfd [ev_read STDIN d, ev_write sockfd, ev_read sockfd r, ev_write STDOUT] s = Inr t \<and>
    acts t = acts s @ [Write sockfd d, Write STDOUT r] \<and> idle t"
proof -
  have "interest s = [STDIN \<mapsto> EPOLLIN]" "buf s = zeros MAXSIZE" using assms(1) by (simp_all add: idle_def)
  then show ?thesis
    using assms(2-) take_blit[of d] take_blit[of r]
    by (simp add: cl_events_def cl_read_event cl_write_event[where k = "length d"]
        cl_write_event[where k = "length r"] strlen_line handler_defs idle_def fun_eq_iff)
qed

theorem client_round_trip_witness:
  "\<exists>t. cl_events 4 [ev_read 0 ''ping'', ev_write 4, ev_read 4 ''pong'', ev_write 1]
      \<lparr>interest = [0 \<mapsto> EPOLLIN], buf = zeros MAXSIZE, acts = []\<rparr> = Inr t \<and>
    acts t = [Write 4 ''ping'', Write 1 ''pong'']"
  using client_round_trip[of "\<lparr>interest = [0 \<mapsto> EPOLLIN], buf = zeros MAXSIZE, acts = []\<rparr>" "''ping''" "''pong''" 4]
  by (auto simp: idle_def c_line_def MAXSIZE_def)

text \<open>
  The epoll client loses input: a second line typed before the reply arrives is never sent (the
  socket is already on the interest list, so \<open>EPOLL_CTL_ADD\<close> has no effect), and the reply
  is printed followed by the rest of that line.
\<close>

theorem client_loses_line:
  assumes "idle s" and "c_line d" and "c_line d2" and "c_line r" and "1 < sockfd"
  shows "\<exists>t. cl_events sockfd [ev_read STDIN d, ev_write sockfd, ev_read STDIN d2, ev_read sockfd r, ev_write STDOUT] s
      = Inr t \<and>
    acts t = acts s @ [Write sockfd d, Write STDOUT (r @ drop (length r) d2)] \<and> idle t"
proof -
  let ?z = "r @ drop (length r) d2"
  have z: "c_line ?z" using assms(3,4) by (auto simp: c_line_def dest: in_set_dropD)
  have b: "blit r (blit d2 (zeros MAXSIZE)) = blit ?z (zeros MAXSIZE)"
    using assms(3,4) by (simp add: blit_def zeros_def c_line_def)
  have "interest s = [STDIN \<mapsto> EPOLLIN]" "buf s = zeros MAXSIZE" using assms(1) by (simp_all add: idle_def)
  then show ?thesis
    using assms(2-) take_blit[of d] take_blit[of ?z] strlen_line[OF z]
    by (simp add: cl_events_def cl_read_event cl_write_event[where k = "length d"]
        cl_write_event[where k = "length ?z"] strlen_line handler_defs idle_def fun_eq_iff b)
qed

theorem client_loses_line_witness:
  "\<exists>t. cl_events 4 [ev_read 0 ''one'', ev_write 4, ev_read 0 ''three'', ev_read 4 ''one'', ev_write 1]
      \<lparr>interest = [0 \<mapsto> EPOLLIN], buf = zeros MAXSIZE, acts = []\<rparr> = Inr t \<and>
    acts t = [Write 4 ''one'', Write 1 ''oneee'']"
  using client_loses_line[of "\<lparr>interest = [0 \<mapsto> EPOLLIN], buf = zeros MAXSIZE, acts = []\<rparr>" "''one''" "''three''" "''one''" 4]
  by (auto simp: idle_def c_line_def MAXSIZE_def)

end
