(* ===== verification/Long_Connection.thy ===== *)
theory Long_Connection
  imports Epoll_Kernel
begin

text \<open>
  The edge-triggered echo server \<open>code/network/TCP/long_connection.server.c\<close> and its client
  \<open>long_connection.client.c\<close>.

  Unlike the server of \<open>via_epoll\<close> it reads a descriptor until \<open>EAGAIN\<close>, keeps every
  message in a block of its own on the heap, and passes it from the read event to the write
  event through the union \<open>epoll_data\<close>: \<open>data.fd\<close> while a connection waits for input,
  \<open>data.ptr\<close> while it waits for output. The model has the union (\<open>ep_data\<close>, with
  \<open>data_fd\<close> of a pointer its low four bytes), the two kinds of heap blocks with
  \<open>malloc\<close>'s addresses as arguments, \<open>free\<close> and the use of a freed block as a failure
  (\<open>BadPointer\<close>), and every \<open>exit\<close> as \<open>ExitFailure\<close>. The answers of \<open>read\<close> and
  \<open>write\<close> to one event are lists; a loop that has used them up is \<open>Unfinished\<close>.
  \<open>perror\<close> and the progress lines inside the loops are left out.

  \<open>Long_Connection_Spec\<close> shows that the server refines one with a private text per client; this
  theory ends with the client's conversation.
\<close>

definition MAX_BUF :: nat where "MAX_BUF = 65536"
definition LISTEN_PORT :: int where "LISTEN_PORT = 33333"
definition EAGAIN :: int where "EAGAIN = 11"
definition ETIMEDOUT :: int where "ETIMEDOUT = 110"
definition O_NONBLOCK :: int where "O_NONBLOCK = 2048"

type_synonym addr = "64 word"

datatype ep_data = DataFd int | DataPtr addr

fun data_fd :: "ep_data \<Rightarrow> int" where
  "data_fd (DataFd f) = f"
| "data_fd (DataPtr a) = sint (ucast a :: 32 word)"

record echo_data =
  ed_data :: addr
  ed_fd :: int

datatype lc_stop =
    ExitFailure
  | BadPointer
  | Ub c_error
  | Unfinished

datatype sockopt = SO_REUSEADDR | SO_KEEPALIVE | TCP_KEEPCNT | TCP_KEEPINTVL | TCP_KEEPIDLE

datatype lc_act =
    Sys sysact
  | SetOpt int sockopt int
  | SetFl int int           \<comment> \<open>\<open>fcntl(fd, F_SETFL, flags)\<close>\<close>
  | Sent int string         \<comment> \<open>the bytes one \<open>write\<close> accepted\<close>

datatype write_result = WriteErr int | WriteOk nat

type_synonym watch_list = "int \<rightharpoonup> evbits \<times> ep_data"

record lc_state =
  watch :: watch_list
  bufs :: "addr \<rightharpoonup> string"
  eds :: "addr \<rightharpoonup> echo_data"
  lacts :: "lc_act list"

text \<open>
  An entry of \<open>events\<close> and the answers of the calls its handling makes. \<open>lfd\<close> is the
  descriptor the kernel reports; the program sees only \<open>lbits\<close> and \<open>ldata\<close>.
\<close>

record lc_ready =
  lfd :: int
  lbits :: evbits
  ldata :: ep_data
  a_accept :: accept_result
  a_sockopt :: "int list"
  a_getfd :: int
  a_setfl :: int
  a_reads :: "read_result list"
  a_writes :: "write_result list"
  a_buf :: addr
  a_ed :: addr
  a_ctl :: bool             \<comment> \<open>\<open>epoll_ctl\<close> fails for lack of resources\<close>

definition lemit :: "lc_act list \<Rightarrow> lc_state \<Rightarrow> lc_state" where
  "lemit as s = s\<lparr>lacts := lacts s @ as\<rparr>"

text \<open>\<open>epoll_ctl\<close>: \<open>ExitFailure\<close> stands for the \<open>exit\<close> the program makes on -1.\<close>

definition ctl_call :: "bool \<Rightarrow> ctl_op \<Rightarrow> int \<Rightarrow> evbits \<times> ep_data \<Rightarrow> lc_state \<Rightarrow> lc_stop + lc_state" where
  "ctl_call fails op f ev s =
     (let present = (watch s f \<noteq> None) in
      if fails \<or> (op = EPOLL_CTL_ADD) = present then Inl ExitFailure
      else Inr (s\<lparr>watch := (if op = EPOLL_CTL_DEL then (watch s)(f := None) else (watch s)(f \<mapsto> ev))\<rparr>))"

subsection \<open>The socket options of a connection\<close>

text \<open>
  \<open>set_keepalive\<close>: the calls made, given the results of \<open>setsockopt\<close>, and the value returned
  (\<open>None\<close>: the end of the function is reached without a \<open>return\<close>).
\<close>

fun opt_calls :: "int \<Rightarrow> (sockopt \<times> int) list \<Rightarrow> int list \<Rightarrow> lc_act list \<times> int option" where
  "opt_calls f [] rets = ([], None)"
| "opt_calls f ((opt, v) # os) rets =
     (if rets \<noteq> [] \<and> hd rets = -1 then ([SetOpt f opt v], Some (-1))
      else let (as, r) = opt_calls f os (tl rets) in (SetOpt f opt v # as, r))"

definition set_keepalive :: "int \<Rightarrow> int \<Rightarrow> int \<Rightarrow> int \<Rightarrow> int list \<Rightarrow> lc_act list \<times> int option" where
  "set_keepalive f keepalive_time keepalive_intvl keepalive_probes rets =
     opt_calls f [(SO_KEEPALIVE, 1), (TCP_KEEPCNT, keepalive_probes),
       (TCP_KEEPINTVL, keepalive_intvl), (TCP_KEEPIDLE, keepalive_time)] rets"

text \<open>\<open>setnonblocking\<close> reads the descriptor flags (\<open>F_GETFD\<close>) and sets the status flags.\<close>

definition setnonblocking :: "int \<Rightarrow> int \<Rightarrow> int \<Rightarrow> lc_act list \<times> int" where
  "setnonblocking f getfd_ret setfl_ret =
     ([SetFl f (getfd_ret OR O_NONBLOCK)], if setfl_ret = -1 then -1 else 0)"

subsection \<open>Reading until \<open>EAGAIN\<close>\<close>

definition blit_at :: "nat \<Rightarrow> string \<Rightarrow> string \<Rightarrow> string" where
  "blit_at n d buf = take n buf @ d @ drop (n + length d) buf"

text \<open>The result is the block, \<open>count\<close>, and whether the connection timed out.\<close>

fun read_loop :: "read_result list \<Rightarrow> string \<Rightarrow> nat \<Rightarrow> lc_stop + string \<times> nat \<times> bool" where
  "read_loop [] buf cnt = Inl Unfinished"
| "read_loop (ReadOk d # rs) buf cnt =
     (let d = take 1024 d; n = length d in
      if n = 0 then Inr (buf, cnt, False)
      else if length buf < cnt + n then Inl (Ub (OverWrite (cnt + n) (length buf)))
      else read_loop rs (blit_at cnt d buf) (cnt + n))"
| "read_loop (ReadErr e # rs) buf cnt =
     (if e = EAGAIN then Inr (buf, cnt, False)
      else if e = ETIMEDOUT then Inr (buf, cnt, True)
      else Inl ExitFailure)"

subsection \<open>Writing the whole message\<close>

fun write_loop :: "write_result list \<Rightarrow> string \<Rightarrow> nat \<Rightarrow> lc_stop + string list" where
  "write_loop [] send_buf send_pos = Inl Unfinished"
| "write_loop (WriteErr e # ws) send_buf send_pos =
     (if e = EAGAIN then write_loop ws send_buf send_pos else Inl ExitFailure)"
| "write_loop (WriteOk k # ws) send_buf send_pos =
     (let len = length send_buf; ret = min k (len - send_pos);
          sent = take ret (drop send_pos send_buf) in
      if len = send_pos + ret then Inr [sent]
      else (case write_loop ws send_buf (send_pos + ret) of
              Inl x \<Rightarrow> Inl x | Inr cs \<Rightarrow> Inr (sent # cs)))"

subsection \<open>The event handler\<close>

definition del_and_close :: "bool \<Rightarrow> int \<Rightarrow> evbits \<times> ep_data \<Rightarrow> lc_state \<Rightarrow> lc_stop + lc_state" where
  "del_and_close fails f ev s =
     (case ctl_call fails EPOLL_CTL_DEL f ev s of
        Inl x \<Rightarrow> Inl x
      | Inr s \<Rightarrow> Inr (lemit [Sys (Close f)] s))"

definition handle_in :: "lc_ready \<Rightarrow> lc_state \<Rightarrow> lc_stop + lc_state" where
  "handle_in e s =
     (let f = data_fd (ldata e) in
      if a_buf e = 0 then Inl (Ub NullDeref)
      else case read_loop (a_reads e) (zeros MAX_BUF) 0 of
        Inl x \<Rightarrow> Inl x
      | Inr (buf, cnt, timed_out) \<Rightarrow>
          let s = s\<lparr>bufs := (bufs s)(a_buf e \<mapsto> buf)\<rparr> in
          if timed_out \<or> cnt = 0 then del_and_close (a_ctl e) f (lbits e, ldata e) s
          else case strlen buf of
            None \<Rightarrow> Inl (Ub UnterminatedString)
          | Some k \<Rightarrow>
              let s = lemit [Sys (Diag (''recv from client: '' @ take k buf))] s in
              if a_ed e = 0 then Inl (Ub NullDeref)
              else ctl_call (a_ctl e) EPOLL_CTL_MOD f (EPOLLOUT OR EPOLLET, DataPtr (a_ed e))
                (s\<lparr>eds := (eds s)(a_ed e \<mapsto> \<lparr>ed_data = a_buf e, ed_fd = f\<rparr>)\<rparr>))"

definition handle_out :: "lc_ready \<Rightarrow> lc_state \<Rightarrow> lc_stop + lc_state" where
  "handle_out e s =
     (case ldata e of
        DataFd _ \<Rightarrow> Inl BadPointer
      | DataPtr p \<Rightarrow>
        (case eds s p of
           None \<Rightarrow> Inl BadPointer
         | Some ed \<Rightarrow>
           (case bufs s (ed_data ed) of
              None \<Rightarrow> Inl BadPointer
            | Some buf \<Rightarrow>
              (case strlen buf of
                 None \<Rightarrow> Inl (Ub UnterminatedString)
               | Some len \<Rightarrow>
                   let s = lemit [Sys (Diag (''write data to client: '' @ take len buf))] s in
                   case write_loop (a_writes e) (take len buf) 0 of
                     Inl x \<Rightarrow> Inl x
                   | Inr cs \<Rightarrow>
                     (case ctl_call (a_ctl e) EPOLL_CTL_MOD (ed_fd ed) (EPOLLIN OR EPOLLET, DataFd (ed_fd ed))
                             (lemit (map (Sent (ed_fd ed)) cs) s) of
                        Inl x \<Rightarrow> Inl x
                      | Inr s \<Rightarrow> Inr (s\<lparr>bufs := (bufs s)(ed_data ed := None), eds := (eds s)(p := None)\<rparr>))))))"

definition events_handle :: "lc_ready \<Rightarrow> lc_state \<Rightarrow> lc_stop + lc_state" where
  "events_handle e s =
     (if lbits e AND EPOLLIN \<noteq> 0 then handle_in e s
      else if lbits e AND EPOLLOUT \<noteq> 0 then handle_out e s
      else Inr s)"

subsection \<open>The main loop\<close>

definition accept_conn :: "lc_ready \<Rightarrow> lc_state \<Rightarrow> lc_stop + lc_state" where
  "accept_conn e s =
     (case a_accept e of
        AcceptErr _ \<Rightarrow> Inl ExitFailure
      | AcceptFd c \<Rightarrow>
          ctl_call (a_ctl e) EPOLL_CTL_ADD (int c) (EPOLLIN OR EPOLLET, DataFd (int c))
            (lemit (Sys (Diag ''accept from'') # fst (set_keepalive (int c) 120 20 3 (a_sockopt e)) @
                    fst (setnonblocking (int c) (a_getfd e) (a_setfl e))) s))"

definition run_event :: "int \<Rightarrow> lc_ready \<Rightarrow> lc_state \<Rightarrow> lc_stop + lc_state" where
  "run_event listen_sock e s =
     (if data_fd (ldata e) = listen_sock then accept_conn e s else events_handle e s)"

text \<open>One \<open>epoll_wait\<close> (\<open>None\<close>: it failed) and the loop over what it reported.\<close>

definition run_pass :: "int \<Rightarrow> lc_ready list option \<Rightarrow> lc_state \<Rightarrow> lc_stop + lc_state" where
  "run_pass listen_sock evs s =
     (case evs of None \<Rightarrow> Inl ExitFailure | Some es \<Rightarrow> foldE (run_event listen_sock) es s)"

definition run_start :: "int \<Rightarrow> lc_state" where
  "run_start listen_sock =
     \<lparr>watch = [listen_sock \<mapsto> (EPOLLIN, DataFd listen_sock)], bufs = Map.empty, eds = Map.empty,
      lacts = [SetOpt listen_sock SO_REUSEADDR 1, Sys (Bind listen_sock ''0.0.0.0'' LISTEN_PORT),
               Sys (Listen listen_sock 5)]\<rparr>"

definition run :: "int \<Rightarrow> int \<Rightarrow> int \<Rightarrow> bool \<Rightarrow> lc_ready list option list \<Rightarrow> lc_stop + lc_state" where
  "run epfd listen_sock bind_result add_fails waits =
     (if epfd = -1 then Inl ExitFailure
      else if bind_result = -1 then Inl ExitFailure
      else if add_fails then Inl ExitFailure
      else foldE (run_pass listen_sock) waits (run_start listen_sock))"

subsection \<open>The client\<close>

definition SERVER_PORT :: int where "SERVER_PORT = 33333"
definition MAXLEN :: nat where "MAXLEN = 65535"

text \<open>\<open>fgets\<close> stores at most \<open>MAXLEN - 1\<close> characters of the line and a terminator.\<close>

definition fgets_into :: "string \<Rightarrow> string \<Rightarrow> string" where
  "fgets_into line buf = blit (take (MAXLEN - 1) line @ [NUL]) buf"

text \<open>
  \<open>client_handle\<close>: what \<open>fgets\<close> and \<open>read\<close> answer in every round; the result is the list of
  calls, or \<open>Unfinished\<close> when the answers are used up. A failed \<open>read\<close> returns -1, which the
  program passes to \<open>write\<close> as a length.
\<close>

fun client_rounds :: "int \<Rightarrow> (string option \<times> read_result) list \<Rightarrow> string \<Rightarrow> string \<Rightarrow> lc_stop + sysact list" where
  "client_rounds sock [] sendbuf recvbuf = Inl Unfinished"
| "client_rounds sock ((line, ans) # rounds) sendbuf recvbuf =
     (case line of
        None \<Rightarrow> Inr [Close sock]
      | Some d \<Rightarrow>
          let sendbuf = fgets_into d sendbuf in
          if sendbuf ! 0 = CHR ''#'' then Inr [Close sock]
          else case strlen sendbuf of
            None \<Rightarrow> Inl (Ub UnterminatedString)
          | Some k \<Rightarrow>
              let n = read_ret ans MAXLEN; recvbuf = read_into ans MAXLEN recvbuf in
              if n = 0 then Inr [Write sock (take k sendbuf), Close sock]
              else (case client_rounds sock rounds sendbuf recvbuf of
                      Inl x \<Rightarrow> Inl x
                    | Inr as \<Rightarrow> Inr (Write sock (take k sendbuf)
                        # (if n < 0 then WriteCount 1 n else Write 1 (take (nat n) recvbuf))
                        # Diag ''time diff'' # as)))"

definition client_handle :: "int \<Rightarrow> (string option \<times> read_result) list \<Rightarrow> lc_stop + sysact list" where
  "client_handle sock rounds = client_rounds sock rounds (zeros MAXLEN) (zeros MAXLEN)"

text \<open>\<open>main\<close>: \<open>argv\<close> without the program name; \<open>htons\<close> keeps the low 16 bits of the port.\<close>

definition main_client :: "string list \<Rightarrow> int \<Rightarrow> (string option \<times> read_result) list \<Rightarrow> lc_stop + sysact list" where
  "main_client argv sock rounds =
     (let server_port = (if length argv = 1 then atoi (argv ! 0) else SERVER_PORT) in
      case client_handle sock rounds of
        Inl x \<Rightarrow> Inl x
      | Inr as \<Rightarrow> Inr (map (\<lambda>a. Diag (''input args '' @ a)) argv @
          Connect sock ''127.0.0.1'' (server_port mod 65536) # as))"

subsection \<open>The client's rounds\<close>

definition typed :: "string \<Rightarrow> bool" where
  "typed d \<longleftrightarrow> d \<noteq> [] \<and> hd d \<noteq> CHR ''#'' \<and> NUL \<notin> set d \<and> length d < MAXLEN"

lemma client_round:
  assumes "typed d" and "r \<noteq> []" and "length r \<le> MAXLEN"
  shows "client_rounds sock ((Some d, ReadOk r) # rounds) sendbuf recvbuf =
    (case client_rounds sock rounds (fgets_into d sendbuf) (blit r recvbuf) of
       Inl x \<Rightarrow> Inl x
     | Inr as \<Rightarrow> Inr (Write sock d # Write 1 r # Diag ''time diff'' # as))"
proof -
  have d: "d \<noteq> []" "hd d \<noteq> CHR ''#''" "NUL \<notin> set d" "length d < MAXLEN" using assms(1) by (simp_all add: typed_def)
  then have f: "fgets_into d sendbuf = blit (d @ [NUL]) sendbuf" by (simp add: fgets_into_def)
  have tw: "takeWhile (\<lambda>c. c \<noteq> NUL) (d @ [NUL]) = d" using d(3) by (subst takeWhile_append2) auto
  have str: "strlen (fgets_into d sendbuf) = Some (length d)"
    using strlen_blit_terminated[of "d @ [NUL]" sendbuf] unfolding f tw by simp
  have hd: "fgets_into d sendbuf ! 0 = hd d" using d(1) unfolding f by (cases d) (simp_all add: blit_def)
  have tk: "take (length d) (fgets_into d sendbuf) = d" unfolding f by (simp add: blit_def)
  show ?thesis using assms(2,3) d(2) str hd tk take_blit[of r recvbuf] by (simp add: Let_def split: sum.split)
qed

lemma client_talk:
  assumes "\<forall>(d, r) \<in> set talk. typed d \<and> r \<noteq> [] \<and> length r \<le> MAXLEN"
    and "stop = None \<or> (\<exists>d. stop = Some (CHR ''#'' # d))"
  shows "client_handle sock (map (\<lambda>(d, r). (Some d, ReadOk r)) talk @ [(stop, ans)]) =
    Inr (concat (map (\<lambda>(d, r). [Write sock d, Write 1 r, Diag ''time diff'']) talk) @ [Close sock])"
proof -
  have "client_rounds sock (map (\<lambda>(d, r). (Some d, ReadOk r)) talk @ [(stop, ans)]) sendbuf recvbuf =
    Inr (concat (map (\<lambda>(d, r). [Write sock d, Write 1 r, Diag ''time diff'']) talk) @ [Close sock])" for sendbuf recvbuf
    using assms(1)
  proof (induction talk arbitrary: sendbuf recvbuf)
    case Nil
    show ?case using assms(2) by (auto simp: fgets_into_def blit_def MAXLEN_def take_Cons')
  next
    case (Cons x talk)
    obtain d r where x: "x = (d, r)" by fastforce
    with Cons.prems have "typed d" "r \<noteq> []" "length r \<le> MAXLEN" by auto
    from client_round[OF this] Cons.IH Cons.prems show ?case by (simp add: x del: client_rounds.simps)
  qed
  then show ?thesis by (simp add: client_handle_def)
qed

text \<open>
  The long-connection client talks to the server line by line: for any lines typed (not empty, not
  starting with the quit character) and any non-empty replies that fit its buffer, it sends
  every line as typed, prints every reply as received, in order, and closes the socket once
  at the end of the input; a line starting with \<open>#\<close> ends it as well.
\<close>

theorem client_handle_rounds:
  assumes "\<forall>(d, r) \<in> set talk. typed d \<and> r \<noteq> [] \<and> length r \<le> MAXLEN"
    and "stop = None \<or> (\<exists>d. stop = Some (CHR ''#'' # d))"
  shows "client_handle sock (map (\<lambda>(d, r). (Some d, ReadOk r)) talk @ [(stop, ans)]) =
    Inr (concat (map (\<lambda>(d, r). [Write sock d, Write 1 r, Diag ''time diff'']) talk) @ [Close sock])"
  using assms by (rule client_talk)

theorem client_handle_rounds_witness:
  "client_handle 3 [(Some ''ping'', ReadOk ''pong''), (None, ReadErr 0)] =
    Inr [Write 3 ''ping'', Write 1 ''pong'', Diag ''time diff'', Close 3]"
  using client_handle_rounds[of "[(''ping'', ''pong'')]" None 3 "ReadErr 0"] by (simp add: typed_def MAXLEN_def)

end
