(* ===== verification/Long_Connection_Spec.thy ===== *)
theory Long_Connection_Spec
  imports Long_Connection
begin

text \<open>
  The abstract server behind \<open>long_connection.server.c\<close> and the refinement of it by the model of
  \<open>Long_Connection\<close>. The abstract state is one entry per descriptor (absent, idle, or with a
  text to send back) and the bytes delivered to each. The invariant \<open>lc_inv\<close> ties every
  registration for output to a node and a block on the heap of its own; the simulation is
  proved event by event (\<open>step_sim\<close>) and lifted to the batches of \<open>epoll_wait\<close>, in which a
  registration other than the event's own stays as it was reported.
\<close>

subsection \<open>The reference server: a private text for every client\<close>

text \<open>
  \<open>who f\<close>: not connected, connected and idle, or with a reply to be sent; \<open>sent f\<close>: the
  bytes delivered to \<open>f\<close> so far.
\<close>

record lc_spec =
  who :: "int \<rightharpoonup> string option"
  sent :: "int \<Rightarrow> string"

text \<open>What a sequence of reads delivers, and the result that ends it.\<close>

fun gather :: "read_result list \<Rightarrow> (string \<times> read_result) option" where
  "gather [] = None"
| "gather (ReadErr e # rs) = Some ([], ReadErr e)"
| "gather (ReadOk d # rs) =
     (if d = [] then Some ([], ReadOk [])
      else map_option (\<lambda>(x, f). (take 1024 d @ x, f)) (gather rs))"

definition c_text :: "string \<Rightarrow> string" where
  "c_text b = takeWhile (\<lambda>c. c \<noteq> NUL) b"

text \<open>\<open>None\<close>: the server exits.\<close>

definition lc_spec_event :: "int \<Rightarrow> lc_ready \<Rightarrow> lc_spec \<Rightarrow> lc_spec option" where
  "lc_spec_event listen_sock e t =
     (let f = lfd e in
      if f = listen_sock then
        (case a_accept e of
           AcceptErr _ \<Rightarrow> None
         | AcceptFd c \<Rightarrow> if a_ctl e \<or> who t (int c) \<noteq> None then None
                         else Some (t\<lparr>who := (who t)(int c \<mapsto> None)\<rparr>))
      else case who t f of
        None \<Rightarrow> Some t
      | Some None \<Rightarrow>
          if lbits e AND EPOLLIN = 0 then Some t
          else (case gather (a_reads e) of
             None \<Rightarrow> None
           | Some (d, fin) \<Rightarrow>
               if fin \<notin> {ReadOk [], ReadErr EAGAIN, ReadErr ETIMEDOUT} \<or> a_ctl e then None
               else if d = [] \<or> fin = ReadErr ETIMEDOUT then Some (t\<lparr>who := (who t)(f := None)\<rparr>)
               else Some (t\<lparr>who := (who t)(f \<mapsto> Some (c_text d))\<rparr>))
      | Some (Some txt) \<Rightarrow>
          if lbits e AND EPOLLOUT = 0 then Some t
          else if a_ctl e then None
          else Some (t\<lparr>who := (who t)(f \<mapsto> None), sent := (sent t)(f := sent t f @ txt)\<rparr>))"

fun lc_spec_run :: "int \<Rightarrow> lc_ready list \<Rightarrow> lc_spec \<Rightarrow> lc_spec option" where
  "lc_spec_run listen_sock [] t = Some t"
| "lc_spec_run listen_sock (e # es) t =
     (case lc_spec_event listen_sock e t of None \<Rightarrow> None | Some t' \<Rightarrow> lc_spec_run listen_sock es t')"

subsection \<open>What the kernel and the C library promise\<close>

text \<open>A reported event carries the data registered for its descriptor, and bits that were asked for.\<close>

definition reported :: "lc_state \<Rightarrow> lc_ready \<Rightarrow> bool" where
  "reported s e = (case watch s (lfd e) of None \<Rightarrow> False
     | Some (b, d) \<Rightarrow> ldata e = d \<and> lbits e AND NOT (b OR (POLLERR OR POLLHUP)) = 0)"

text \<open>\<open>malloc\<close>: an aligned block that is not in use.\<close>

definition malloc_ok :: "lc_state \<Rightarrow> lc_ready \<Rightarrow> bool" where
  "malloc_ok s e \<longleftrightarrow> a_buf e \<noteq> 0 \<and> a_ed e \<noteq> 0 \<and> a_ed e AND 15 = 0 \<and>
     bufs s (a_buf e) = None \<and> eds s (a_ed e) = None"

text \<open>The read loop ends, with less than \<open>MAX_BUF\<close> bytes gathered.\<close>

definition reads_fit :: "lc_ready \<Rightarrow> bool" where
  "reads_fit e = (case gather (a_reads e) of None \<Rightarrow> False | Some (d, fin) \<Rightarrow> length d < MAX_BUF)"

text \<open>The peer takes at least \<open>n\<close> bytes in the end, and \<open>write\<close> fails with \<open>EAGAIN\<close> only.\<close>

fun takes :: "write_result list \<Rightarrow> nat \<Rightarrow> bool" where
  "takes [] n = False"
| "takes (WriteErr e # ws) n = (e = EAGAIN \<and> takes ws n)"
| "takes (WriteOk k # ws) n = (n \<le> k \<or> takes ws (n - k))"

definition answers_ok :: "lc_state \<Rightarrow> lc_ready \<Rightarrow> bool" where
  "answers_ok s e \<longleftrightarrow> malloc_ok s e \<and> reads_fit e \<and> (\<forall>n < MAX_BUF. takes (a_writes e) n)"

subsection \<open>The loops\<close>

lemma write_loop_all:
  "takes ws (length txt - pos) \<Longrightarrow> pos \<le> length txt \<Longrightarrow>
     \<exists>cs. write_loop ws txt pos = Inr cs \<and> concat cs = drop pos txt"
proof (induction ws arbitrary: pos)
  case (Cons w ws)
  show ?case
  proof (cases w)
    case (WriteOk k)
    show ?thesis
    proof (cases "length txt - pos \<le> k")
      case True
      with WriteOk Cons.prems(2) show ?thesis by simp
    next
      case False
      with Cons.prems WriteOk have "takes ws (length txt - (pos + k))" "pos + k \<le> length txt" by simp_all
      from Cons.IH[OF this] obtain cs where cs: "write_loop ws txt (pos + k) = Inr cs" "concat cs = drop (pos + k) txt"
        by blast
      have "take k (drop pos txt) @ drop (pos + k) txt = drop pos txt"
        by (metis append_take_drop_id drop_drop add.commute)
      with WriteOk False cs show ?thesis by (simp add: Let_def)
    qed
  qed (use Cons in auto)
qed simp

lemma blit_at_blit:
  "length acc + length d \<le> n \<Longrightarrow> blit_at (length acc) d (blit acc (zeros n)) = blit (acc @ d) (zeros n)"
  by (simp add: blit_at_def blit_def add.commute)

lemma read_loop_gather:
  "gather rs = Some (x, fin) \<Longrightarrow> length acc + length x \<le> n \<Longrightarrow>
     read_loop rs (blit acc (zeros n)) (length acc) =
       (case fin of
          ReadOk _ \<Rightarrow> Inr (blit (acc @ x) (zeros n), length (acc @ x), False)
        | ReadErr e \<Rightarrow> if e = EAGAIN then Inr (blit (acc @ x) (zeros n), length (acc @ x), False)
            else if e = ETIMEDOUT then Inr (blit (acc @ x) (zeros n), length (acc @ x), True)
            else Inl ExitFailure)"
proof (induction rs arbitrary: acc x)
  case (Cons r rs)
  show ?case
  proof (cases r)
    case (ReadOk d)
    show ?thesis
    proof (cases "d = []")
      case False
      let ?d = "take 1024 d"
      from False have n0: "length ?d \<noteq> 0" by simp
      from Cons.prems(1) ReadOk False obtain y where y: "gather rs = Some (y, fin)" "x = ?d @ y" by auto
      have fit: "length (acc @ ?d) + length y \<le> n" using Cons.prems(2) y(2) by simp
      have "read_loop (r # rs) (blit acc (zeros n)) (length acc)
          = read_loop rs (blit (acc @ ?d) (zeros n)) (length (acc @ ?d))"
        using ReadOk n0 fit blit_at_blit[of acc ?d n]
        by (simp add: Let_def length_blit)
      also note Cons.IH[OF y(1) fit]
      finally show ?thesis unfolding y(2) append_assoc .
    qed (use Cons.prems ReadOk in auto)
  qed (use Cons.prems in auto)
qed simp

subsection \<open>The invariant and the abstraction\<close>

fun bytes_to :: "int \<Rightarrow> lc_act list \<Rightarrow> string" where
  "bytes_to f [] = []"
| "bytes_to f (Sent g d # as) = (if g = f then d else []) @ bytes_to f as"
| "bytes_to f (_ # as) = bytes_to f as"

definition lc_text :: "lc_state \<Rightarrow> addr \<Rightarrow> string" where
  "lc_text s p = (case eds s p of None \<Rightarrow> [] | Some ed \<Rightarrow>
     (case bufs s (ed_data ed) of None \<Rightarrow> [] | Some b \<Rightarrow> c_text b))"

definition lc_who :: "lc_state \<Rightarrow> evbits \<times> ep_data \<Rightarrow> string option" where
  "lc_who s r = (case snd r of DataFd _ \<Rightarrow> None | DataPtr p \<Rightarrow> Some (lc_text s p))"

definition lc_abs :: "lc_state \<Rightarrow> lc_spec" where
  "lc_abs s = \<lparr>who = (\<lambda>f. map_option (lc_who s) (watch s f)), sent = (\<lambda>f. bytes_to f (lacts s))\<rparr>"

text \<open>A registration for output owns a node that names its descriptor, and a terminated block.\<close>

fun reg_ok :: "int \<Rightarrow> lc_state \<Rightarrow> int \<Rightarrow> evbits \<times> ep_data \<Rightarrow> bool" where
  "reg_ok l s f (b, DataFd g) \<longleftrightarrow> g = f \<and> b = (if f = l then EPOLLIN else EPOLLIN OR EPOLLET)"
| "reg_ok l s f (b, DataPtr p) \<longleftrightarrow> f \<noteq> l \<and> b = EPOLLOUT OR EPOLLET \<and> data_fd (DataPtr p) \<noteq> l \<and>
     (\<exists>ed buf. eds s p = Some ed \<and> ed_fd ed = f \<and> bufs s (ed_data ed) = Some buf \<and>
        NUL \<in> set buf \<and> length buf = MAX_BUF)"

definition lc_inv :: "int \<Rightarrow> lc_state \<Rightarrow> bool" where
  "lc_inv l s \<longleftrightarrow> watch s l = Some (EPOLLIN, DataFd l) \<and> (\<forall>f r. watch s f = Some r \<longrightarrow> reg_ok l s f r) \<and>
     (\<forall>f g b c p q. watch s f = Some (b, DataPtr p) \<longrightarrow> watch s g = Some (c, DataPtr q) \<longrightarrow> f \<noteq> g \<longrightarrow>
        ed_data (the (eds s p)) \<noteq> ed_data (the (eds s q)))"

lemma lc_invD:
  assumes "lc_inv l s"
  shows "watch s l = Some (EPOLLIN, DataFd l)"
    and "watch s f = Some r \<Longrightarrow> reg_ok l s f r"
    and "watch s f = Some (b, DataPtr p) \<Longrightarrow> watch s g = Some (c, DataPtr q) \<Longrightarrow> f \<noteq> g \<Longrightarrow>
      ed_data (the (eds s p)) \<noteq> ed_data (the (eds s q))"
  using assms unfolding lc_inv_def by blast+

lemma bytes_to_append: "bytes_to f (as @ bs) = bytes_to f as @ bytes_to f bs"
  by (induction f as rule: bytes_to.induct) auto

lemma bytes_to_sent: "bytes_to f (map (Sent g) cs) = (if f = g then concat cs else [])"
  by (induction cs) auto

lemma bytes_to_opts: "bytes_to f (fst (opt_calls g os rets)) = []"
  by (induction g os rets rule: opt_calls.induct) (auto split: prod.splits simp: Let_def)

lemma watch_lemit [simp]: "watch (lemit as s) = watch s" "bufs (lemit as s) = bufs s" "eds (lemit as s) = eds s"
  "lacts (lemit as s) = lacts s @ as"
  by (simp_all add: lemit_def)

lemma EPOLL_bits [simp]:
  "EPOLLIN AND ((EPOLLOUT OR EPOLLET) OR (POLLERR OR POLLHUP)) = 0"
  "EPOLLOUT AND ((EPOLLIN OR EPOLLET) OR (POLLERR OR POLLHUP)) = 0"
  by (simp_all add: event_bits)

text \<open>The low half of an aligned pointer is a multiple of 16.\<close>

lemma aligned_fd:
  assumes "p AND 15 = 0"
  shows "data_fd (DataPtr p) mod 16 = 0"
proof -
  have mask: "(15 :: 64 word) = mask 4" by (simp add: mask_eq_exp_minus_1)
  have "take_bit 4 p = 0" using assms unfolding mask by (simp add: take_bit_eq_mask)
  then have "take_bit 4 (uint p) = 0" by (metis unsigned_0 unsigned_take_bit_eq)
  have "take_bit 4 (sint (ucast p :: 32 word)) = take_bit 4 (uint (ucast p :: 32 word))"
    by (simp add: sint_uint take_bit_signed_take_bit)
  also have "\<dots> = take_bit 4 (uint p)" by (simp add: unsigned_ucast_eq)
  finally show ?thesis using \<open>take_bit 4 (uint p) = 0\<close> by (simp add: take_bit_eq_mod)
qed

definition step_sim :: "int \<Rightarrow> lc_ready \<Rightarrow> lc_state \<Rightarrow> bool" where
  "step_sim l e s = (case run_event l e s of
      Inl x \<Rightarrow> x = ExitFailure \<and> lc_spec_event l e (lc_abs s) = None
    | Inr s' \<Rightarrow> lc_inv l s' \<and> lc_spec_event l e (lc_abs s) = Some (lc_abs s') \<and>
        (\<forall>f. f \<noteq> lfd e \<longrightarrow> watch s f \<noteq> None \<longrightarrow> watch s' f = watch s f))"

lemma lc_frame [simp]:
  "reg_ok l (s\<lparr>watch := w\<rparr>) f r = reg_ok l s f r" "reg_ok l (s\<lparr>lacts := as\<rparr>) f r = reg_ok l s f r"
  "lc_text (s\<lparr>watch := w\<rparr>) p = lc_text s p" "lc_text (s\<lparr>lacts := as\<rparr>) p = lc_text s p"
  "lc_who (s\<lparr>watch := w\<rparr>) = lc_who s" "lc_who (s\<lparr>lacts := as\<rparr>) = lc_who s"
  "lc_inv l (s\<lparr>lacts := as\<rparr>) = lc_inv l s"
proof -
  show *: "reg_ok l (s\<lparr>watch := w\<rparr>) f r = reg_ok l s f r" "reg_ok l (s\<lparr>lacts := as\<rparr>) f r = reg_ok l s f r" for f r
    by (cases "(l, s, f, r)" rule: reg_ok.cases; simp)+
  show t: "lc_text (s\<lparr>watch := w\<rparr>) p = lc_text s p" "lc_text (s\<lparr>lacts := as\<rparr>) p = lc_text s p" for p
    by (cases "eds s p"; simp add: lc_text_def)+
  show "lc_who (s\<lparr>watch := w\<rparr>) = lc_who s" "lc_who (s\<lparr>lacts := as\<rparr>) = lc_who s"
    by (simp_all add: lc_who_def fun_eq_iff t split: ep_data.splits)
  show "lc_inv l (s\<lparr>lacts := as\<rparr>) = lc_inv l s" by (simp add: lc_inv_def *)
qed

text \<open>The four ways a handler changes the registrations and the heap.\<close>

lemma lc_inv_add:
  assumes "lc_inv l s" and "watch s c = None"
  shows "lc_inv l (s\<lparr>watch := (watch s)(c \<mapsto> (EPOLLIN OR EPOLLET, DataFd c))\<rparr>)"
proof -
  have "c \<noteq> l" using lc_invD(1)[OF assms(1)] assms(2) by auto
  with assms show ?thesis unfolding lc_inv_def by auto
qed

lemma lc_inv_del:
  assumes "lc_inv l s" and "f \<noteq> l"
  shows "lc_inv l (s\<lparr>watch := (watch s)(f := None)\<rparr>)"
  using assms unfolding lc_inv_def by auto

lemma registered_block:
  assumes "lc_inv l s" and "watch s f = Some (b, DataPtr p)"
  obtains ed buf where "eds s p = Some ed" "ed_fd ed = f" "bufs s (ed_data ed) = Some buf"
    "NUL \<in> set buf" "length buf = MAX_BUF" "f \<noteq> l" "b = EPOLLOUT OR EPOLLET" "data_fd (DataPtr p) \<noteq> l"
  using lc_invD(2)[OF assms] by auto

lemma lc_alloc:
  assumes "lc_inv l s" and "bufs s a = None"
  shows "lc_inv l (s\<lparr>bufs := (bufs s)(a \<mapsto> b)\<rparr>)" (is "lc_inv l ?t")
    and "lc_abs (s\<lparr>bufs := (bufs s)(a \<mapsto> b)\<rparr>) = lc_abs s"
proof -
  have ok: "reg_ok l ?t f r" if w: "watch s f = Some r" for f r
    using lc_invD(2)[OF assms(1) w] assms(2) by (cases "(l, s, f, r)" rule: reg_ok.cases) force+
  have who: "lc_who ?t r = lc_who s r" if w: "watch s f = Some r" for f r
    using lc_invD(2)[OF assms(1) w] assms(2)
    by (cases "(l, s, f, r)" rule: reg_ok.cases) (force simp: lc_who_def lc_text_def)+
  show "lc_inv l ?t" using lc_invD[OF assms(1)] ok unfolding lc_inv_def by simp
  show "lc_abs ?t = lc_abs s" using who
    by (auto simp: lc_abs_def fun_eq_iff intro!: option.map_cong0)
qed

lemma lc_to_out:
  assumes inv: "lc_inv l s" and f: "f \<noteq> l" "watch s f = Some (b, DataFd f)"
    and a: "bufs s a = None" and q: "eds s q = None" "data_fd (DataPtr q) \<noteq> l"
    and buf: "NUL \<in> set buf" "length buf = MAX_BUF"
  defines "t \<equiv> s\<lparr>bufs := (bufs s)(a \<mapsto> buf), eds := (eds s)(q \<mapsto> \<lparr>ed_data = a, ed_fd = f\<rparr>),
      watch := (watch s)(f \<mapsto> (EPOLLOUT OR EPOLLET, DataPtr q))\<rparr>"
  shows "lc_inv l t" and "lc_abs t = (lc_abs s)\<lparr>who := (who (lc_abs s))(f \<mapsto> Some (c_text buf))\<rparr>"
proof -
  have ok: "reg_ok l t g r" "lc_who t r = lc_who s r" if w: "watch s g = Some r" for g r
    using lc_invD(2)[OF inv w] a q(1) unfolding t_def
    by (cases "(l, s, g, r)" rule: reg_ok.cases, force simp: lc_who_def lc_text_def,
        force simp: lc_who_def lc_text_def)+
  have new: "reg_ok l t f (EPOLLOUT OR EPOLLET, DataPtr q)"
    "lc_who t (EPOLLOUT OR EPOLLET, DataPtr q) = Some (c_text buf)"
    using f q(2) buf by (simp_all add: t_def lc_who_def lc_text_def)
  have own: "ed_data (the (eds t p)) = ed_data (the (eds s p)) \<and> ed_data (the (eds s p)) \<noteq> a"
    if "watch s g = Some (c, DataPtr p)" for g c p
    using lc_invD(2)[OF inv that] a q(1) unfolding t_def by auto
  have q': "ed_data (the (eds t q)) = a" by (simp add: t_def)
  have w: "watch t = (watch s)(f \<mapsto> (EPOLLOUT OR EPOLLET, DataPtr q))" by (simp add: t_def)
  show "lc_inv l t" unfolding lc_inv_def w
    using lc_invD(1)[OF inv] f ok(1) new(1) own q' lc_invD(3)[OF inv] by (auto split: if_splits) metis+
  show "lc_abs t = (lc_abs s)\<lparr>who := (who (lc_abs s))(f \<mapsto> Some (c_text buf))\<rparr>"
    using ok(2) new(2) by (auto simp: lc_abs_def w fun_eq_iff intro!: option.map_cong0) (auto simp: t_def)
qed

lemma lc_to_in:
  assumes inv: "lc_inv l s" and f: "watch s f = Some (b, DataPtr p)" and ed: "eds s p = Some ed"
  defines "t \<equiv> s\<lparr>bufs := (bufs s)(ed_data ed := None), eds := (eds s)(p := None),
      watch := (watch s)(f \<mapsto> (EPOLLIN OR EPOLLET, DataFd f))\<rparr>"
  shows "lc_inv l t" and "lc_abs t = (lc_abs s)\<lparr>who := (who (lc_abs s))(f \<mapsto> None)\<rparr>"
proof -
  have fd: "ed_fd ed = f" "f \<noteq> l" using registered_block[OF inv f] ed by auto
  have ok: "reg_ok l t g r" "lc_who t r = lc_who s r" if w: "watch s g = Some r" and g: "g \<noteq> f" for g r
  proof -
    have "reg_ok l t g r \<and> lc_who t r = lc_who s r"
    proof (cases "snd r")
      case (DataFd h)
      with lc_invD(2)[OF inv w] show ?thesis by (cases r) (simp add: t_def lc_who_def)
    next
      case (DataPtr q)
      then obtain c where r: "r = (c, DataPtr q)" by (cases r) auto
      from registered_block[OF inv w[unfolded r]] obtain ed' buf where
        e: "eds s q = Some ed'" "ed_fd ed' = g" "bufs s (ed_data ed') = Some buf" by metis
      have "ed_data ed' \<noteq> ed_data ed" using lc_invD(3)[OF inv w[unfolded r] f g] e(1) ed by simp
      moreover have "q \<noteq> p" using e(1,2) ed fd(1) g by auto
      ultimately show ?thesis using lc_invD(2)[OF inv w] e r by (auto simp: t_def lc_who_def lc_text_def)
    qed
    then show "reg_ok l t g r" "lc_who t r = lc_who s r" by simp_all
  qed
  have own: "the (eds t q) = the (eds s q)" if "watch s g = Some (c, DataPtr q)" "g \<noteq> f" for g c q
  proof -
    have "q \<noteq> p" by (rule registered_block[OF inv that(1)]) (use that(2) ed fd(1) in auto)
    then show ?thesis by (simp add: t_def)
  qed
  have new: "reg_ok l t f (EPOLLIN OR EPOLLET, DataFd f)" using fd(2) by simp
  have w: "watch t = (watch s)(f \<mapsto> (EPOLLIN OR EPOLLET, DataFd f))" by (simp add: t_def)
  have sep: "ed_data (the (eds t p1)) \<noteq> ed_data (the (eds t p2))"
    if "watch t g = Some (b1, DataPtr p1)" "watch t h = Some (b2, DataPtr p2)" "g \<noteq> h" for g h b1 b2 p1 p2
  proof -
    from that have "g \<noteq> f" "h \<noteq> f" "watch s g = Some (b1, DataPtr p1)" "watch s h = Some (b2, DataPtr p2)"
      by (auto simp: w split: if_splits)
    with own lc_invD(3)[OF inv] that(3) show ?thesis by metis
  qed
  have "reg_ok l t g r" if "watch t g = Some r" for g r
    using that ok(1) new by (cases "g = f") (auto simp: w)
  moreover have "watch t l = Some (EPOLLIN, DataFd l)" using lc_invD(1)[OF inv] fd(2) by (simp add: w)
  ultimately show "lc_inv l t" using sep unfolding lc_inv_def by blast
  show "lc_abs t = (lc_abs s)\<lparr>who := (who (lc_abs s))(f \<mapsto> None)\<rparr>"
    using ok(2) by (auto simp: lc_abs_def w fun_eq_iff lc_who_def[of t "(EPOLLIN OR EPOLLET, DataFd f)"]
        intro!: option.map_cong0) (auto simp: t_def)
qed

subsection \<open>One event\<close>

lemma sim_accept_conn:
  assumes inv: "lc_inv l s" and f: "lfd e = l" and rep: "reported s e"
  shows "step_sim l e s"
proof -
  have d: "ldata e = DataFd l" using rep f lc_invD(1)[OF inv] by (simp add: reported_def)
  have abs: "lc_abs (s\<lparr>watch := (watch s)(c \<mapsto> (b, DataFd c)), lacts := lacts s @ as\<rparr>)
      = (lc_abs s)\<lparr>who := (who (lc_abs s))(c \<mapsto> None)\<rparr>" if "\<And>f. bytes_to f as = []" for c b as
    using that by (simp add: lc_abs_def lc_who_def[of s "(b, DataFd c)"] bytes_to_append fun_eq_iff)
  have r: "run_event l e s = accept_conn e s" using d by (simp add: run_event_def)
  show ?thesis
  proof (cases "a_accept e")
    case (AcceptErr x)
    with r f show ?thesis by (simp add: step_sim_def accept_conn_def lc_spec_event_def)
  next
    case (AcceptFd c)
    define as where "as = Sys (Diag ''accept from'') # fst (set_keepalive (int c) 120 20 3 (a_sockopt e)) @
        fst (setnonblocking (int c) (a_getfd e) (a_setfl e))"
    have quiet: "bytes_to g as = []" for g
      by (simp add: as_def set_keepalive_def setnonblocking_def bytes_to_append bytes_to_opts)
    show ?thesis
    proof (cases "a_ctl e \<or> watch s (int c) \<noteq> None")
      case True
      with r f AcceptFd show ?thesis
        by (auto simp: step_sim_def accept_conn_def ctl_call_def lc_spec_event_def lc_abs_def)
    next
      case False
      then have none: "watch s (int c) = None" by blast
      let ?t = "s\<lparr>watch := (watch s)(int c \<mapsto> (EPOLLIN OR EPOLLET, DataFd (int c))), lacts := lacts s @ as\<rparr>"
      have "run_event l e s = Inr ?t"
        using False AcceptFd unfolding r accept_conn_def by (simp add: ctl_call_def as_def lemit_def)
      moreover have "lc_spec_event l e (lc_abs s) = Some (lc_abs ?t)"
        using False AcceptFd f abs[OF quiet] by (simp add: lc_spec_event_def lc_abs_def)
      moreover have "lc_inv l ?t" using lc_inv_add[OF inv none] by simp
      ultimately show ?thesis using False by (simp add: step_sim_def)
    qed
  qed
qed

lemma gather_fin: "gather rs = Some (d, ReadOk x) \<Longrightarrow> x = []"
  by (induction rs arbitrary: d rule: gather.induct) (auto split: if_splits)

lemma c_text_blit: "c_text (blit d (zeros n)) = c_text d"
proof (cases "NUL \<in> set d")
  case True
  then show ?thesis by (simp add: c_text_def blit_def)
next
  case False
  then have d: "takeWhile (\<lambda>c. c \<noteq> NUL) d = d" by (intro takeWhile_eq_all_conv[THEN iffD2]) auto
  have "takeWhile (\<lambda>c. c \<noteq> NUL) (d @ drop (length d) (zeros n)) = d @ takeWhile (\<lambda>c. c \<noteq> NUL) (drop (length d) (zeros n))"
    using False by (intro takeWhile_append2) auto
  also have "takeWhile (\<lambda>c. c \<noteq> NUL) (drop (length d) (zeros n)) = []"
    by (simp add: zeros_def)
  finally show ?thesis unfolding c_text_def blit_def d by (simp only: append_Nil2)
qed

lemma nul_blit: "length d < n \<Longrightarrow> NUL \<in> set (blit d (zeros n))"
  by (simp add: blit_def zeros_def)

text \<open>The outcome of \<open>handle_in\<close> on a connection that waits for input.\<close>

lemma handle_in_cases:
  assumes "gather (a_reads e) = Some (d, fin)" and "length d < MAX_BUF" and "malloc_ok s e" and "ldata e = DataFd f"
  shows "handle_in e s =
    (let s' = s\<lparr>bufs := (bufs s)(a_buf e \<mapsto> blit d (zeros MAX_BUF))\<rparr> in
     if fin \<notin> {ReadErr EAGAIN, ReadErr ETIMEDOUT} \<and> (\<forall>x. fin \<noteq> ReadOk x) then Inl ExitFailure
     else if d = [] \<or> fin = ReadErr ETIMEDOUT then del_and_close (a_ctl e) f (lbits e, ldata e) s'
     else ctl_call (a_ctl e) EPOLL_CTL_MOD f (EPOLLOUT OR EPOLLET, DataPtr (a_ed e))
       (s'\<lparr>lacts := lacts s @ [Sys (Diag (''recv from client: '' @ c_text d))],
          eds := (eds s)(a_ed e \<mapsto> \<lparr>ed_data = a_buf e, ed_fd = f\<rparr>)\<rparr>))"
proof -
  let ?b = "blit d (zeros MAX_BUF)"
  have z: "blit [] (zeros MAX_BUF) = zeros MAX_BUF" by (simp add: blit_def)
  have r: "read_loop (a_reads e) (zeros MAX_BUF) 0 = (case fin of
      ReadOk _ \<Rightarrow> Inr (?b, length d, False)
    | ReadErr e \<Rightarrow> if e = EAGAIN then Inr (?b, length d, False)
        else if e = ETIMEDOUT then Inr (?b, length d, True) else Inl ExitFailure)"
    using read_loop_gather[OF assms(1), of "[]" MAX_BUF] assms(2) z by (cases fin) simp_all
  have str: "strlen ?b = Some (length (c_text d))" "take (length (c_text d)) ?b = c_text d"
  proof -
    have "strlen ?b = Some (length (c_text ?b))" using nul_blit[OF assms(2)] by (simp add: strlen_def c_text_def)
    then show "strlen ?b = Some (length (c_text d))" by (simp add: c_text_blit)
    have "take (length (c_text ?b)) ?b = c_text ?b" unfolding c_text_def by (rule takeWhile_eq_take[symmetric])
    then show "take (length (c_text d)) ?b = c_text d" by (simp add: c_text_blit)
  qed
  have ne: "EAGAIN \<noteq> ETIMEDOUT" "ETIMEDOUT \<noteq> EAGAIN" by (simp_all add: EAGAIN_def ETIMEDOUT_def)
  from assms(3) have m: "a_buf e \<noteq> 0" "a_ed e \<noteq> 0" by (simp_all add: malloc_ok_def)
  show ?thesis
    by (cases fin) (simp_all add: handle_in_def r m ne str assms(4) Let_def lemit_def)
qed

lemma sim_handle_in:
  assumes inv: "lc_inv l s" and f: "lfd e \<noteq> l" "watch s (lfd e) = Some (b, DataFd (lfd e))"
    and rep: "ldata e = DataFd (lfd e)" "lbits e AND EPOLLIN \<noteq> 0"
    and ans: "malloc_ok s e" "reads_fit e" and l: "l mod 16 \<noteq> 0"
  shows "step_sim l e s"
proof -
  obtain d fin where g: "gather (a_reads e) = Some (d, fin)" "length d < MAX_BUF"
    using ans(2) by (auto simp: reads_fit_def split: option.splits)
  let ?b = "blit d (zeros MAX_BUF)"
  let ?s = "s\<lparr>bufs := (bufs s)(a_buf e \<mapsto> ?b)\<rparr>"
  have m: "bufs s (a_buf e) = None" "eds s (a_ed e) = None" "data_fd (DataPtr (a_ed e)) \<noteq> l"
    using ans(1) aligned_fd[of "a_ed e"] l by (auto simp: malloc_ok_def)
  note alloc = lc_alloc[OF inv m(1), of ?b]
  have who: "who (lc_abs s) (lfd e) = Some None" using f(2) by (simp add: lc_abs_def lc_who_def)
  have h: "run_event l e s = handle_in e s" using f(1) rep by (simp add: run_event_def events_handle_def)
  have ok: "(fin \<notin> {ReadErr EAGAIN, ReadErr ETIMEDOUT} \<and> (\<forall>x. fin \<noteq> ReadOk x)) \<longleftrightarrow>
      fin \<notin> {ReadOk [], ReadErr EAGAIN, ReadErr ETIMEDOUT}"
    using gather_fin g(1) by blast
  note hi = h[unfolded handle_in_cases[OF g ans(1) rep(1)] ok]
  note sp = lc_spec_event_def[of l e "lc_abs s", unfolded Let_def who g(1)]
  consider "fin \<notin> {ReadOk [], ReadErr EAGAIN, ReadErr ETIMEDOUT}"
    | (del) "fin \<in> {ReadOk [], ReadErr EAGAIN, ReadErr ETIMEDOUT}" "d = [] \<or> fin = ReadErr ETIMEDOUT"
    | (out) "fin \<in> {ReadOk [], ReadErr EAGAIN, ReadErr ETIMEDOUT}" "\<not> (d = [] \<or> fin = ReadErr ETIMEDOUT)"
    by blast
  then show ?thesis
  proof cases
    case 1
    with hi sp f(1) rep(2) show ?thesis by (simp add: step_sim_def Let_def)
  next
    case del
    have run: "run_event l e s = (if a_ctl e then Inl ExitFailure
        else Inr (?s\<lparr>watch := (watch s)(lfd e := None), lacts := lacts s @ [Sys (Close (lfd e))]\<rparr>))"
      unfolding hi using del f(2) by (auto simp: Let_def del_and_close_def ctl_call_def lemit_def)
    have "lc_abs (?s\<lparr>watch := (watch s)(lfd e := None), lacts := lacts s @ [Sys (Close (lfd e))]\<rparr>)
        = (lc_abs ?s)\<lparr>who := (who (lc_abs ?s))(lfd e := None)\<rparr>"
      by (simp add: lc_abs_def bytes_to_append fun_eq_iff)
    with run alloc lc_inv_del[OF alloc(1) f(1)] sp del f(1) rep(2) show ?thesis by (auto simp: step_sim_def)
  next
    case out
    define as where "as = [Sys (Diag (''recv from client: '' @ c_text d))]"
    let ?t = "s\<lparr>bufs := (bufs s)(a_buf e \<mapsto> ?b), eds := (eds s)(a_ed e \<mapsto> \<lparr>ed_data = a_buf e, ed_fd = lfd e\<rparr>),
        watch := (watch s)(lfd e \<mapsto> (EPOLLOUT OR EPOLLET, DataPtr (a_ed e)))\<rparr>"
    have run: "run_event l e s = (if a_ctl e then Inl ExitFailure else Inr (?t\<lparr>lacts := lacts s @ as\<rparr>))"
      unfolding hi using out f(2) by (auto simp: Let_def ctl_call_def as_def)
    note t = lc_to_out[OF inv f m nul_blit[OF g(2)], simplified length_blit c_text_blit]
    have "lc_abs (?t\<lparr>lacts := lacts s @ as\<rparr>) = lc_abs ?t"
      by (simp add: lc_abs_def bytes_to_append as_def fun_eq_iff)
    with run t g(2) sp out f(1) rep(2) show ?thesis by (auto simp: step_sim_def length_blit)
  qed
qed

lemma sim_handle_out:
  assumes inv: "lc_inv l s" and f: "watch s (lfd e) = Some (b, DataPtr p)"
    and rep: "ldata e = DataPtr p" "lbits e AND EPOLLIN = 0" "lbits e AND EPOLLOUT \<noteq> 0"
    and ans: "\<forall>n < MAX_BUF. takes (a_writes e) n"
  shows "step_sim l e s"
proof -
  from registered_block[OF inv f] obtain ed buf where
    ed: "eds s p = Some ed" "ed_fd ed = lfd e" "bufs s (ed_data ed) = Some buf" "NUL \<in> set buf" "length buf = MAX_BUF"
    and l: "lfd e \<noteq> l" "data_fd (DataPtr p) \<noteq> l" by metis
  let ?n = "length (c_text buf)"
  have str: "strlen buf = Some ?n" using ed(4) by (simp add: strlen_def c_text_def)
  have tx: "take ?n buf = c_text buf" unfolding c_text_def by (rule takeWhile_eq_take[symmetric])
  have "takes (a_writes e) ?n" using ans strlen_less[OF str] ed(5) by simp
  from write_loop_all[of _ "c_text buf" 0] this obtain cs where
    cs: "write_loop (a_writes e) (c_text buf) 0 = Inr cs" "concat cs = c_text buf" by auto
  define as where "as = Sys (Diag (''write data to client: '' @ c_text buf)) # map (Sent (lfd e)) cs"
  have sent: "bytes_to g as = (if g = lfd e then c_text buf else [])" for g
    by (simp add: as_def bytes_to_sent cs(2))
  let ?t = "s\<lparr>bufs := (bufs s)(ed_data ed := None), eds := (eds s)(p := None),
      watch := (watch s)(lfd e \<mapsto> (EPOLLIN OR EPOLLET, DataFd (lfd e)))\<rparr>"
  have "run_event l e s = handle_out e s" using l(2) rep by (simp add: run_event_def events_handle_def)
  also have "\<dots> = (if a_ctl e then Inl ExitFailure else Inr (?t\<lparr>lacts := lacts s @ as\<rparr>))"
    using rep(1) ed str tx cs(1) f by (simp add: handle_out_def ctl_call_def lemit_def as_def)
  finally have run: "run_event l e s = (if a_ctl e then Inl ExitFailure else Inr (?t\<lparr>lacts := lacts s @ as\<rparr>))" .
  have who: "who (lc_abs s) (lfd e) = Some (Some (c_text buf))"
    using f ed by (simp add: lc_abs_def lc_who_def lc_text_def)
  note t = lc_to_in[OF inv f ed(1)]
  have "lc_abs (?t\<lparr>lacts := lacts s @ as\<rparr>) =
      (lc_abs ?t)\<lparr>sent := (sent (lc_abs s))(lfd e := sent (lc_abs s) (lfd e) @ c_text buf)\<rparr>"
    by (simp add: lc_abs_def bytes_to_append sent fun_eq_iff)
  with run t who l(1) rep(3) show ?thesis by (simp add: step_sim_def lc_spec_event_def Let_def)
qed

lemma sim_run_event:
  assumes inv: "lc_inv l s" and rep: "reported s e" and ans: "answers_ok s e" and l: "l mod 16 \<noteq> 0"
  shows "step_sim l e s"
proof -
  obtain b d where w: "watch s (lfd e) = Some (b, d)" "ldata e = d" "lbits e AND NOT (b OR (POLLERR OR POLLHUP)) = 0"
    using rep by (auto simp: reported_def split: option.splits)
  show ?thesis
  proof (cases "lfd e = l")
    case False
    show ?thesis
    proof (cases d)
      case (DataFd g)
      with lc_invD(2)[OF inv w(1)] False have g: "g = lfd e" "b = EPOLLIN OR EPOLLET" by simp_all
      show ?thesis
      proof (cases "lbits e AND EPOLLIN = 0")
        case True
        have "lbits e AND EPOLLOUT = 0" using and_outside[OF w(3)] g(2) by simp
        moreover have "who (lc_abs s) (lfd e) = Some None" using w(1) DataFd by (simp add: lc_abs_def lc_who_def)
        ultimately show ?thesis using True False inv w(2) DataFd g(1)
          by (simp add: step_sim_def run_event_def events_handle_def lc_spec_event_def)
      qed (use sim_handle_in[OF inv False] w DataFd g ans l in \<open>simp add: answers_ok_def\<close>)
    next
      case (DataPtr p)
      with lc_invD(2)[OF inv w(1)] have b: "b = EPOLLOUT OR EPOLLET" "data_fd (DataPtr p) \<noteq> l" by simp_all
      have no: "lbits e AND EPOLLIN = 0" using and_outside[OF w(3)] b by simp
      show ?thesis
      proof (cases "lbits e AND EPOLLOUT = 0")
        case True
        with no False inv w(1,2) DataPtr b(2) show ?thesis
          by (simp add: step_sim_def run_event_def events_handle_def lc_spec_event_def lc_abs_def lc_who_def)
      qed (use sim_handle_out[OF inv] w DataPtr no ans in \<open>simp add: answers_ok_def\<close>)
    qed
  qed (use sim_accept_conn[OF inv] rep in blast)
qed

subsection \<open>Whole runs\<close>

fun batch_ok :: "int \<Rightarrow> lc_ready list \<Rightarrow> lc_state \<Rightarrow> bool" where
  "batch_ok l [] s = True"
| "batch_ok l (e # es) s = (answers_ok s e \<and>
     (case run_event l e s of Inl _ \<Rightarrow> True | Inr s' \<Rightarrow> batch_ok l es s'))"

text \<open>One \<open>epoll_wait\<close> reports a descriptor once, with what was registered when it was called.\<close>

fun kernel_ok :: "int \<Rightarrow> lc_ready list list \<Rightarrow> lc_state \<Rightarrow> bool" where
  "kernel_ok l [] s = True"
| "kernel_ok l (es # ws) s = (distinct (map lfd es) \<and> (\<forall>e \<in> set es. reported s e) \<and> batch_ok l es s \<and>
     (case foldE (run_event l) es s of Inl _ \<Rightarrow> True | Inr s' \<Rightarrow> kernel_ok l ws s'))"

definition run_sim :: "int \<Rightarrow> lc_stop + lc_state \<Rightarrow> lc_spec option \<Rightarrow> bool" where
  "run_sim l r t = (case r of
      Inl x \<Rightarrow> x = ExitFailure \<and> t = None
    | Inr s \<Rightarrow> lc_inv l s \<and> t = Some (lc_abs s))"

text \<open>A registration that is not the event's own stays as it was reported.\<close>

lemma reported_stable:
  assumes "step_sim l e s" and "run_event l e s = Inr s'" and "reported s e'" and "lfd e' \<noteq> lfd e"
  shows "reported s' e'"
proof -
  have "watch s (lfd e') \<noteq> None" using assms(3) by (auto simp: reported_def split: option.splits)
  with assms(1,2,4) have "watch s' (lfd e') = watch s (lfd e')" by (simp add: step_sim_def)
  with assms(3) show ?thesis by (simp add: reported_def)
qed

lemma sim_batch:
  assumes l: "l mod 16 \<noteq> 0"
  shows "lc_inv l s \<Longrightarrow> distinct (map lfd es) \<Longrightarrow> \<forall>e \<in> set es. reported s e \<Longrightarrow> batch_ok l es s \<Longrightarrow>
    run_sim l (foldE (run_event l) es s) (lc_spec_run l es (lc_abs s))"
proof (induction es arbitrary: s)
  case (Cons e es)
  from Cons.prems have sim: "step_sim l e s" by (intro sim_run_event[OF _ _ _ l]) auto
  show ?case
  proof (cases "run_event l e s")
    case (Inl x)
    with sim show ?thesis by (simp add: run_sim_def step_sim_def)
  next
    case (Inr s')
    with sim have s': "lc_inv l s'" "lc_spec_event l e (lc_abs s) = Some (lc_abs s')" by (simp_all add: step_sim_def)
    have "\<forall>e' \<in> set es. reported s' e'"
      using reported_stable[OF sim Inr] Cons.prems(2,3) by (metis image_eqI list.set_intros(2) list.set_map distinct.simps(2) list.map(2))
    with Cons.IH[OF s'(1)] Cons.prems(2,4) Inr s'(2) show ?thesis by simp
  qed
qed (simp add: run_sim_def)

lemma lc_spec_run_append: "lc_spec_run l (es @ fs) t =
    (case lc_spec_run l es t of None \<Rightarrow> None | Some t' \<Rightarrow> lc_spec_run l fs t')"
  by (induction es arbitrary: t) (auto split: option.splits)

lemma sim_waits:
  assumes l: "l mod 16 \<noteq> 0"
  shows "lc_inv l s \<Longrightarrow> kernel_ok l ws s \<Longrightarrow>
    run_sim l (foldE (run_pass l) (map Some ws) s) (lc_spec_run l (concat ws) (lc_abs s))"
proof (induction ws arbitrary: s)
  case (Cons es ws)
  have one: "run_sim l (foldE (run_event l) es s) (lc_spec_run l es (lc_abs s))"
    using Cons.prems by (intro sim_batch[OF l]) simp_all
  show ?case
  proof (cases "foldE (run_event l) es s")
    case (Inl x)
    with one show ?thesis by (simp add: run_sim_def run_pass_def lc_spec_run_append)
  next
    case (Inr s')
    with one have s': "lc_inv l s'" "lc_spec_run l es (lc_abs s) = Some (lc_abs s')" by (simp_all add: run_sim_def)
    with Cons.IH[OF s'(1)] Cons.prems(2) Inr show ?thesis by (simp add: run_pass_def lc_spec_run_append)
  qed
qed (simp add: run_sim_def)

definition lc_spec_start :: "int \<Rightarrow> lc_spec" where
  "lc_spec_start l = \<lparr>who = [l \<mapsto> None], sent = (\<lambda>_. [])\<rparr>"

lemma lc_start: "lc_inv l (run_start l)" "lc_abs (run_start l) = lc_spec_start l"
  by (auto simp: lc_inv_def run_start_def lc_abs_def lc_spec_start_def lc_who_def fun_eq_iff split: if_splits)

lemma gather_overflow:
  "gather rs = Some (x, fin) \<Longrightarrow> length acc \<le> n \<Longrightarrow> n < length acc + length x \<Longrightarrow>
     \<exists>m. n < m \<and> read_loop rs (blit acc (zeros n)) (length acc) = Inl (Ub (OverWrite m n))"
proof (induction rs arbitrary: acc x)
  case (Cons r rs)
  then obtain d where r: "r = ReadOk d" "d \<noteq> []" by (cases r) (auto split: if_splits)
  let ?d = "take 1024 d"
  from Cons.prems(1) r obtain y where y: "gather rs = Some (y, fin)" "x = ?d @ y" by auto
  have n0: "length ?d \<noteq> 0" using r(2) by simp
  have lb: "length (blit acc (zeros n)) = n" using Cons.prems(2) by (simp add: length_blit)
  show ?case
  proof (cases "n < length acc + length ?d")
    case True
    then show ?thesis using r n0 lb by (simp add: Let_def)
  next
    case False
    have "\<exists>m. n < m \<and> read_loop rs (blit (acc @ ?d) (zeros n)) (length (acc @ ?d)) = Inl (Ub (OverWrite m n))"
      using False Cons.prems(3) y(2) by (intro Cons.IH[OF y(1)]) simp_all
    moreover have "read_loop (r # rs) (blit acc (zeros n)) (length acc)
        = read_loop rs (blit (acc @ ?d) (zeros n)) (length (acc @ ?d))"
      using r(1) n0 lb False blit_at_blit[of acc ?d n] by (simp add: Let_def)
    ultimately show ?thesis by simp
  qed
qed simp

lemma run_refines_spec:
  assumes "kernel_ok listen_sock batches (run_start listen_sock)" and "listen_sock mod 16 \<noteq> 0"
    and "epfd \<noteq> -1" and "bind_result \<noteq> -1"
  shows "case run epfd listen_sock bind_result False (map Some batches) of
      Inl x \<Rightarrow> x = ExitFailure \<and> lc_spec_run listen_sock (concat batches) (lc_spec_start listen_sock) = None
    | Inr s \<Rightarrow> lc_spec_run listen_sock (concat batches) (lc_spec_start listen_sock) = Some (lc_abs s)"
  using sim_waits[OF assms(2) lc_start(1) assms(1)] assms(3,4)
  by (auto simp: run_sim_def run_def lc_start(2) split: sum.splits)

subsection \<open>What goes in comes out\<close>

text \<open>The bytes an event takes from its client for a reply, and those of a client over a run.\<close>

definition event_input :: "lc_ready \<Rightarrow> lc_spec \<Rightarrow> string" where
  "event_input e t =
     (if who t (lfd e) = Some None \<and> lbits e AND EPOLLIN \<noteq> 0
      then (case gather (a_reads e) of Some (d, fin) \<Rightarrow> if fin = ReadErr ETIMEDOUT then [] else d | None \<Rightarrow> []) else [])"

fun lc_input :: "int \<Rightarrow> int \<Rightarrow> lc_ready list \<Rightarrow> lc_spec \<Rightarrow> string" where
  "lc_input l f [] t = []"
| "lc_input l f (e # es) t = (if lfd e = f then event_input e t else []) @
     (case lc_spec_event l e t of None \<Rightarrow> [] | Some t' \<Rightarrow> lc_input l f es t')"

definition pending_reply :: "lc_spec \<Rightarrow> int \<Rightarrow> string" where
  "pending_reply t f = (case who t f of Some (Some txt) \<Rightarrow> txt | _ \<Rightarrow> [])"

lemma c_text_all: "NUL \<notin> set d \<Longrightarrow> c_text d = d"
  by (auto simp: c_text_def takeWhile_eq_all_conv)

lemma event_conserves:
  assumes "lc_spec_event l e t = Some t'" and "f \<noteq> l" and "lfd e = f \<Longrightarrow> NUL \<notin> set (event_input e t)"
  shows "sent t' f @ pending_reply t' f = sent t f @ pending_reply t f @ (if lfd e = f then event_input e t else [])"
proof (cases "lfd e = l")
  case True
  with assms(1,2) show ?thesis by (auto simp: lc_spec_event_def Let_def pending_reply_def split: accept_result.splits if_splits)
next
  case l: False
  show ?thesis
  proof (cases "who t (lfd e)")
    case None
    with l assms(1) show ?thesis by (auto simp: lc_spec_event_def Let_def event_input_def)
  next
    case (Some w)
    show ?thesis
    proof (cases w)
      case idle: None
      show ?thesis
      proof (cases "lbits e AND EPOLLIN = 0")
        case True
        with l assms(1) Some idle show ?thesis by (simp add: lc_spec_event_def Let_def event_input_def)
      next
        case bit: False
        with l assms(1) Some idle obtain d fin where g: "gather (a_reads e) = Some (d, fin)"
          by (auto simp: lc_spec_event_def Let_def split: option.splits)
        with l bit Some idle assms(1) have t': "t' = (if d = [] \<or> fin = ReadErr ETIMEDOUT then t\<lparr>who := (who t)(lfd e := None)\<rparr>
            else t\<lparr>who := (who t)(lfd e \<mapsto> Some (c_text d))\<rparr>)"
          by (auto simp: lc_spec_event_def Let_def split: if_splits)
        have inp: "event_input e t = (if fin = ReadErr ETIMEDOUT then [] else d)" using g bit Some idle by (simp add: event_input_def)
        then have "lfd e = f \<Longrightarrow> fin \<noteq> ReadErr ETIMEDOUT \<Longrightarrow> c_text d = d" using assms(3) by (auto intro: c_text_all)
        with t' inp Some idle show ?thesis by (auto simp: pending_reply_def)
      qed
    next
      case (Some reply)
      with l assms(1) \<open>who t (lfd e) = Some w\<close> show ?thesis
        by (auto simp: lc_spec_event_def Let_def pending_reply_def event_input_def split: if_splits)
    qed
  qed
qed

lemma spec_conserves:
  assumes "lc_spec_run l es t = Some t'" and "f \<noteq> l" and "NUL \<notin> set (lc_input l f es t)"
  shows "sent t' f @ pending_reply t' f = sent t f @ pending_reply t f @ lc_input l f es t"
  using assms
proof (induction es arbitrary: t)
  case (Cons e es)
  from Cons.prems(1) obtain u where u: "lc_spec_event l e t = Some u" "lc_spec_run l es u = Some t'"
    by (auto split: option.splits)
  have "sent t' f @ pending_reply t' f = sent u f @ pending_reply u f @ lc_input l f es u"
    using Cons.prems(2,3) u by (intro Cons.IH) auto
  moreover have "sent u f @ pending_reply u f = sent t f @ pending_reply t f @ (if lfd e = f then event_input e t else [])"
    using Cons.prems(2,3) by (intro event_conserves[OF u(1)]) auto
  ultimately show ?case using u(1) by simp
qed simp

subsection \<open>Properties\<close>

text \<open>
  C2. The long-connection server gives every client a private conversation: over any sequence of
  \<open>epoll_wait\<close> results in which a descriptor is reported once per call with what was
  registered for it, blocks come from \<open>malloc\<close> fresh and aligned, a burst of input has less
  than 65536 bytes and a client takes what is written to it in the end, the server and a
  reference server with one pending text per client agree: they exit together, and otherwise
  each client has been sent exactly the texts it sent (up to a NUL), in order, whatever the
  interleaving; no freed or foreign block is ever used, because the only failure is
  \<open>exit\<close>. The listening descriptor must not look like an aligned pointer.
\<close>

theorem long_connection_refines:
  assumes "kernel_ok listen_sock batches (run_start listen_sock)" and "listen_sock mod 16 \<noteq> 0"
    and "epfd \<noteq> -1" and "bind_result \<noteq> -1"
  shows "case run epfd listen_sock bind_result False (map Some batches) of
      Inl x \<Rightarrow> x = ExitFailure \<and> lc_spec_run listen_sock (concat batches) (lc_spec_start listen_sock) = None
    | Inr s \<Rightarrow> lc_spec_run listen_sock (concat batches) (lc_spec_start listen_sock) = Some (lc_abs s)"
  using assms by (rule run_refines_spec)

text \<open>Two clients whose requests and replies are interleaved.\<close>

definition ev0 :: "int \<Rightarrow> ep_data \<Rightarrow> evbits \<Rightarrow> lc_ready" where
  "ev0 f d b = \<lparr>lfd = f, lbits = b, ldata = d, a_accept = AcceptErr 0, a_sockopt = [], a_getfd = 0, a_setfl = 0,
     a_reads = [ReadErr EAGAIN], a_writes = [WriteOk MAX_BUF], a_buf = 0x500, a_ed = 0x600, a_ctl = False\<rparr>"
definition ev_conn :: "nat \<Rightarrow> lc_ready" where
  "ev_conn c = (ev0 4 (DataFd 4) EPOLLIN)\<lparr>a_accept := AcceptFd c\<rparr>"
definition ev_data_in :: "int \<Rightarrow> addr \<Rightarrow> string list \<Rightarrow> lc_ready" where
  "ev_data_in f a ds = (ev0 f (DataFd f) EPOLLIN)\<lparr>a_reads := map ReadOk ds @ [ReadErr EAGAIN], a_buf := a, a_ed := a + 16\<rparr>"
definition ev_data_out :: "int \<Rightarrow> addr \<Rightarrow> lc_ready" where
  "ev_data_out f a = (ev0 f (DataPtr (a + 16)) EPOLLOUT)\<lparr>a_writes := [WriteOk 1, WriteErr EAGAIN, WriteOk MAX_BUF]\<rparr>"

definition ex_batches :: "lc_ready list list" where
  "ex_batches = [[ev_conn 5], [ev_conn 6],
     [ev_data_in 5 0x100 [''hel'', ''lo''], ev_data_in 6 0x200 [''X'']], [ev_data_out 5 0x100]]"

lemmas ex_defs = ev0_def ev_conn_def ev_data_in_def ev_data_out_def

lemma ex_conn:
  "watch s (int c) = None \<Longrightarrow> run_event 4 (ev_conn c) s = Inr (s\<lparr>
     watch := (watch s)(int c \<mapsto> (EPOLLIN OR EPOLLET, DataFd (int c))),
     lacts := lacts s @ [Sys (Diag ''accept from''), SetOpt (int c) SO_KEEPALIVE 1, SetOpt (int c) TCP_KEEPCNT 3,
       SetOpt (int c) TCP_KEEPINTVL 20, SetOpt (int c) TCP_KEEPIDLE 120, SetFl (int c) O_NONBLOCK]\<rparr>)"
  by (simp add: ex_defs run_event_def accept_conn_def set_keepalive_def setnonblocking_def ctl_call_def lemit_def)

lemma ex_answers:
  "bufs s 0x500 = None \<Longrightarrow> eds s 0x600 = None \<Longrightarrow> answers_ok s (ev_conn c)"
  "bufs s 0x500 = None \<Longrightarrow> eds s 0x600 = None \<Longrightarrow> answers_ok s (ev_data_out f a)"
  "bufs s a = None \<Longrightarrow> eds s (a + 16) = None \<Longrightarrow> a \<noteq> 0 \<Longrightarrow> a + 16 \<noteq> 0 \<Longrightarrow> (a + 16) AND 15 = 0 \<Longrightarrow>
     gather (map ReadOk ds @ [ReadErr EAGAIN]) = Some (d, fin) \<Longrightarrow> length d < MAX_BUF \<Longrightarrow>
     answers_ok s (ev_data_in f a ds)"
  by (auto simp: answers_ok_def malloc_ok_def reads_fit_def ex_defs MAX_BUF_def)

lemma ex_in:
  assumes "malloc_ok s (ev_data_in f a ds)" and "watch s f \<noteq> None" and "f \<noteq> 4"
    and "gather (map ReadOk ds @ [ReadErr EAGAIN]) = Some (d, ReadErr EAGAIN)" and "d \<noteq> []" and "length d < MAX_BUF"
  shows "run_event 4 (ev_data_in f a ds) s = Inr (s\<lparr>bufs := (bufs s)(a \<mapsto> blit d (zeros MAX_BUF)),
     lacts := lacts s @ [Sys (Diag (''recv from client: '' @ c_text d))],
     eds := (eds s)(a + 16 \<mapsto> \<lparr>ed_data = a, ed_fd = f\<rparr>),
     watch := (watch s)(f \<mapsto> (EPOLLOUT OR EPOLLET, DataPtr (a + 16)))\<rparr>)"
proof -
  let ?e = "ev_data_in f a ds"
  have g: "gather (a_reads ?e) = Some (d, ReadErr EAGAIN)" and l: "ldata ?e = DataFd f" "a_buf ?e = a" "a_ed ?e = a + 16"
    "\<not> a_ctl ?e" using assms(4) by (simp_all add: ex_defs)
  have "run_event 4 ?e s = handle_in ?e s"
    using assms(3) by (simp add: run_event_def events_handle_def ex_defs event_bits)
  moreover have "EAGAIN \<noteq> ETIMEDOUT" by (simp add: EAGAIN_def ETIMEDOUT_def)
  ultimately show ?thesis using handle_in_cases[OF g assms(6) assms(1) l(1)] assms(2,5) l
    by (simp add: Let_def ctl_call_def)
qed

lemma ex_kernel_ok: "kernel_ok 4 ex_batches (run_start 4)"
proof -
  have g: "gather (map ReadOk [''hel'', ''lo''] @ [ReadErr EAGAIN]) = Some (''hello'', ReadErr EAGAIN)"
    "gather (map ReadOk [''X''] @ [ReadErr EAGAIN]) = Some (''X'', ReadErr EAGAIN)" by simp_all
  have m: "malloc_ok s (ev_data_in f a ds)" if "answers_ok s (ev_data_in f a ds)" for s f a ds
    using that by (simp add: answers_ok_def)
  have len: "length ''hello'' < MAX_BUF" "length ''X'' < MAX_BUF" by (simp_all add: MAX_BUF_def)
  note conn = ex_conn[where c = 5, simplified] ex_conn[where c = 6, simplified]
  have rep: "lfd (ev_conn c) = 4" "lfd (ev_data_in f a ds) = f" "lfd (ev_data_out f a) = f"
    "ldata (ev_conn c) = DataFd 4" "ldata (ev_data_in f a ds) = DataFd f" "ldata (ev_data_out f a) = DataPtr (a + 16)"
    "lbits (ev_conn c) = EPOLLIN" "lbits (ev_data_in f a ds) = EPOLLIN" "lbits (ev_data_out f a) = EPOLLOUT" for c f a ds
    by (simp_all add: ex_defs)
  obtain s1 where s1: "run_event 4 (ev_conn 5) (run_start 4) = Inr s1" "bufs s1 = Map.empty" "eds s1 = Map.empty"
    "watch s1 = [4 \<mapsto> (EPOLLIN, DataFd 4), 5 \<mapsto> (EPOLLIN OR EPOLLET, DataFd 5)]"
    using conn(1)[of "run_start 4"] by (simp add: run_start_def)
  obtain s2 where s2: "run_event 4 (ev_conn 6) s1 = Inr s2" "bufs s2 = Map.empty" "eds s2 = Map.empty"
    "watch s2 = (watch s1)(6 \<mapsto> (EPOLLIN OR EPOLLET, DataFd 6))"
    using conn(2)[of s1] s1 by simp
  have a5: "answers_ok s2 (ev_data_in 5 0x100 [''hel'', ''lo''])" using s2 len by (intro ex_answers(3)[OF _ _ _ _ _ g(1)]) simp_all
  obtain s3 where s3: "run_event 4 (ev_data_in 5 0x100 [''hel'', ''lo'']) s2 = Inr s3" "dom (bufs s3) = {0x100}" "dom (eds s3) = {0x110}"
    "watch s3 = (watch s2)(5 \<mapsto> (EPOLLOUT OR EPOLLET, DataPtr 0x110))"
    using ex_in[OF m[OF a5] _ _ g(1) _ len(1)] s1(4) s2 by simp
  have "bufs s3 0x200 = None" "eds s3 0x210 = None"
    using domIff[of "0x200" "bufs s3"] domIff[of "0x210" "eds s3"] unfolding s3(2,3) by simp_all
  then have a6: "answers_ok s3 (ev_data_in 6 0x200 [''X''])" using len by (intro ex_answers(3)[OF _ _ _ _ _ g(2)]) simp_all
  obtain s4 where s4: "run_event 4 (ev_data_in 6 0x200 [''X'']) s3 = Inr s4" "dom (bufs s4) = {0x100, 0x200}"
    "dom (eds s4) = {0x110, 0x210}" "watch s4 = (watch s3)(6 \<mapsto> (EPOLLOUT OR EPOLLET, DataPtr 0x210))"
    using ex_in[OF m[OF a6] _ _ g(2) _ len(2)] s2(4) s3 by auto
  have "bufs s4 0x500 = None" "eds s4 0x600 = None"
    using domIff[of "0x500" "bufs s4"] domIff[of "0x600" "eds s4"] unfolding s4(2,3) by simp_all
  then have a7: "answers_ok s4 (ev_data_out 5 0x100)" by (rule ex_answers(2))
  have a1: "answers_ok (run_start 4) (ev_conn 5)" "answers_ok s1 (ev_conn 6)"
    using s1 by (auto intro: ex_answers(1) simp: run_start_def)
  have w0: "watch (run_start 4) = [4 \<mapsto> (EPOLLIN, DataFd 4)]" by (simp add: run_start_def)
  show ?thesis
    by (simp add: ex_batches_def s1(1,4) s2(1,4) s3(1,4) s4(1,4) a1 a5 a6 a7 rep event_bits reported_def w0 split: sum.splits)
qed

theorem long_connection_refines_witness:
  "case run 3 4 0 False (map Some ex_batches) of Inl x \<Rightarrow> False | Inr s \<Rightarrow> bytes_to 5 (lacts s) = ''hello''"
proof -
  have b: "EPOLLIN \<noteq> 0" "EPOLLOUT \<noteq> 0" by (simp_all add: event_bits)
  have "\<exists>t. lc_spec_run 4 (concat ex_batches) (lc_spec_start 4) = Some t \<and> sent t 5 = ''hello''"
    by (simp add: ex_batches_def ex_defs lc_spec_start_def lc_spec_event_def Let_def b EAGAIN_def ETIMEDOUT_def c_text_def)
  with long_connection_refines[OF ex_kernel_ok, of 3 0] show ?thesis
    by (auto simp: lc_abs_def split: sum.splits)
qed

text \<open>
  A burst of input overflows the block: whenever the reads up to \<open>EAGAIN\<close> deliver more than the 65536
  bytes of the block, the loop stores past its end, because it never compares \<open>cnt\<close>
  with \<open>MAX_BUF\<close>.
\<close>

theorem long_connection_overflow:
  assumes "gather (a_reads e) = Some (d, fin)" and "MAX_BUF < length d" and "a_buf e \<noteq> 0"
  shows "\<exists>m. MAX_BUF < m \<and> handle_in e s = Inl (Ub (OverWrite m MAX_BUF))"
proof -
  have "blit [] (zeros MAX_BUF) = zeros MAX_BUF" by (simp add: blit_def)
  with gather_overflow[OF assms(1), of "[]" MAX_BUF] assms(2,3) show ?thesis by (auto simp: handle_in_def)
qed

lemma gather_replicate:
  "d \<noteq> [] \<Longrightarrow> length d \<le> 1024 \<Longrightarrow>
     gather (replicate k (ReadOk d) @ [ReadErr e]) = Some (concat (replicate k d), ReadErr e)"
  by (induction k) simp_all

theorem long_connection_overflow_witness:
  "\<exists>m. MAX_BUF < m \<and> handle_in ((ev0 5 (DataFd 5) EPOLLIN)
      \<lparr>a_reads := replicate 65 (ReadOk (replicate 1024 CHR ''x'')) @ [ReadErr EAGAIN]\<rparr>) (run_start 4)
    = Inl (Ub (OverWrite m MAX_BUF))"
proof (rule long_connection_overflow)
  show "gather (a_reads ((ev0 5 (DataFd 5) EPOLLIN)
      \<lparr>a_reads := replicate 65 (ReadOk (replicate 1024 CHR ''x'')) @ [ReadErr EAGAIN]\<rparr>))
    = Some (concat (replicate 65 (replicate 1024 CHR ''x'')), ReadErr EAGAIN)"
    using gather_replicate[of "replicate 1024 CHR ''x''" 65 EAGAIN] by simp
  show "MAX_BUF < length (concat (replicate 65 (replicate 1024 CHR ''x'')))"
    by (simp add: MAX_BUF_def length_concat sum_list_replicate)
qed (simp add: ev0_def)

end
