(* ===== verification/Sync.thy ===== *)
theory Sync
  imports Prelude
begin

text \<open>
  The C++ synchronisation objects the multi-threaded programs use.

  A \<open>monitor\<close> is a \<open>std::mutex\<close> with a \<open>std::condition_variable\<close>: the thread that
  owns the mutex, and the threads blocked in \<open>wait\<close>. \<open>wait(lk)\<close> is two steps: give up the
  mutex and join the wait set (atomically), then, once removed from the set by a notification
  or a spurious wake-up, take the mutex again. \<open>notify_one\<close> removes one waiting thread, which
  one is not determined, and does nothing when there is none; \<open>notify_all\<close> empties the set.
  Programs extend the record with their own variables.
\<close>

record 't monitor =
  owner :: "'t option"
  waiting :: "'t set"

inductive notify_one :: "('t, 'z) monitor_scheme \<Rightarrow> ('t, 'z) monitor_scheme \<Rightarrow> bool" where
  wake_some: "t \<in> waiting s \<Longrightarrow> notify_one s (s\<lparr>waiting := waiting s - {t}\<rparr>)"
| wake_none: "waiting s = {} \<Longrightarrow> notify_one s s"

inductive_cases notify_oneE: "notify_one s s'"

lemma notify_one_total: "\<exists>s'. notify_one s s'"
  by (cases "waiting s = {}") (auto intro: notify_one.intros)

text \<open>Sums over threads of which one has moved.\<close>

lemma sum_moved:
  fixes f :: "nat \<Rightarrow> 'm::comm_monoid_add"
  assumes "i < N" and "\<And>j. j < N \<Longrightarrow> j \<noteq> i \<Longrightarrow> f' j = f j"
  shows "sum f' {..<N} + f i = sum f {..<N} + f' i"
proof -
  have "sum f' ({..<N} - {i}) = sum f ({..<N} - {i})"
    using assms(2) by (intro sum.cong) auto
  with assms(1) show ?thesis
    by (simp add: sum.remove[of _ i f] sum.remove[of _ i f'] ac_simps)
qed

lemma balance_moved:
  fixes S :: "'m::cancel_comm_monoid_add"
  assumes "S' + f = S + f'" and "a' + f + b = a + f' + b'" and "a = b + S"
  shows "a' = b' + S'"
proof -
  have "a' + (f + b) = b + S + f' + b'" using assms(2,3) by (simp add: ac_simps)
  also have "\<dots> = b + b' + (S' + f)" unfolding assms(1) by (simp add: ac_simps)
  also have "\<dots> = (b' + S') + (f + b)" by (simp add: ac_simps)
  finally show ?thesis by simp
qed

lemma sum_nat_le:
  fixes f :: "nat \<Rightarrow> nat"
  assumes "\<And>j. j < N \<Longrightarrow> f' j \<le> f j + c"
  shows "sum f' {..<N} \<le> sum f {..<N} + c * N"
  using sum_mono[of "{..<N}" f' "\<lambda>j. f j + c"] assms by (simp add: sum.distrib ac_simps)

end
