(* ===== verification/Thread_Pool.thy ===== *)
theory Thread_Pool
  imports Sync
begin

text \<open>
  The class \<open>fixed_thread_pool\<close> of \<open>code/concurrent/threadpool.cpp\<close> (the same class stands
  in \<open>code/concurrent/sum.cpp\<close>) with \<open>N\<close> worker threads and the thread that owns the pool:
  it calls \<open>execute\<close> for each task of a list and then destroys the pool.

  The state has the fields of \<open>struct data\<close> (\<open>mtx_\<close> and \<open>cond_\<close> are the monitor), the
  program counter of every thread, and three histories: the tasks handed to \<open>execute\<close>, the
  tasks taken from the queue, the tasks whose execution has ended. A step is one access to
  the shared data by one thread, so every interleaving of the C++ code is a run.
\<close>

datatype tid = Owner | Worker nat

text \<open>Where a worker stands in the lambda given to \<open>std::thread\<close>.\<close>

datatype 'k wpc =
    WStart      \<comment> \<open>about to construct \<open>lk\<close>\<close>
  | WLoop       \<comment> \<open>head of \<open>for (;;)\<close>, holding \<open>mtx_\<close>\<close>
  | WGot 'k     \<comment> \<open>task popped, still holding \<open>mtx_\<close>\<close>
  | WRun 'k     \<comment> \<open>after \<open>lk.unlock()\<close>, in \<open>current()\<close>\<close>
  | WRelock     \<comment> \<open>before \<open>lk.lock()\<close>\<close>
  | WSleep      \<comment> \<open>in \<open>cond_.wait(lk)\<close>\<close>
  | WDone       \<comment> \<open>after \<open>break\<close>\<close>

text \<open>Where the owning thread stands: between calls, in \<open>execute\<close>, in the destructor.\<close>

datatype opc = OIdle | OExec | OEmplaced | ONotifyOne | ODtor | ODtorSet | ONotifyAll | OGone

record 'k pool = "tid monitor" +
  tasks :: "'k list"
  is_shutdown :: bool
  wpc :: "nat \<Rightarrow> 'k wpc"
  opc :: opc
  todo :: "'k list"
  submitted :: "'k list"
  taken :: "'k list"
  finished :: "'k list"

inductive worker_step :: "nat \<Rightarrow> 'k pool \<Rightarrow> 'k pool \<Rightarrow> bool" for i :: nat where
  w_lock: "wpc s i = WStart \<Longrightarrow> owner s = None \<Longrightarrow>
     worker_step i s (s\<lparr>owner := Some (Worker i), wpc := (wpc s)(i := WLoop)\<rparr>)"
| w_take: "wpc s i = WLoop \<Longrightarrow> tasks s = k # ks \<Longrightarrow>
     worker_step i s (s\<lparr>tasks := ks, taken := taken s @ [k], wpc := (wpc s)(i := WGot k)\<rparr>)"
| w_unlock: "wpc s i = WGot k \<Longrightarrow>
     worker_step i s (s\<lparr>owner := None, wpc := (wpc s)(i := WRun k)\<rparr>)"
| w_run: "wpc s i = WRun k \<Longrightarrow>
     worker_step i s (s\<lparr>finished := finished s @ [k], wpc := (wpc s)(i := WRelock)\<rparr>)"
| w_relock: "wpc s i = WRelock \<Longrightarrow> owner s = None \<Longrightarrow>
     worker_step i s (s\<lparr>owner := Some (Worker i), wpc := (wpc s)(i := WLoop)\<rparr>)"
| w_break: "wpc s i = WLoop \<Longrightarrow> tasks s = [] \<Longrightarrow> is_shutdown s \<Longrightarrow>
     worker_step i s (s\<lparr>owner := None, wpc := (wpc s)(i := WDone)\<rparr>)"
| w_wait: "wpc s i = WLoop \<Longrightarrow> tasks s = [] \<Longrightarrow> \<not> is_shutdown s \<Longrightarrow>
     worker_step i s (s\<lparr>owner := None, waiting := insert (Worker i) (waiting s),
       wpc := (wpc s)(i := WSleep)\<rparr>)"
| w_wake: "wpc s i = WSleep \<Longrightarrow> Worker i \<notin> waiting s \<Longrightarrow> owner s = None \<Longrightarrow>
     worker_step i s (s\<lparr>owner := Some (Worker i), wpc := (wpc s)(i := WLoop)\<rparr>)"

text \<open>\<open>execute(task)\<close>, called for every task of \<open>todo\<close>.\<close>

inductive execute_step :: "'k pool \<Rightarrow> 'k pool \<Rightarrow> bool" where
  e_lock: "opc s = OIdle \<Longrightarrow> todo s \<noteq> [] \<Longrightarrow> owner s = None \<Longrightarrow>
     execute_step s (s\<lparr>owner := Some Owner, opc := OExec\<rparr>)"
| e_emplace: "opc s = OExec \<Longrightarrow> todo s = k # ks \<Longrightarrow>
     execute_step s (s\<lparr>tasks := tasks s @ [k], submitted := submitted s @ [k], todo := ks,
       opc := OEmplaced\<rparr>)"
| e_unlock: "opc s = OEmplaced \<Longrightarrow>
     execute_step s (s\<lparr>owner := None, opc := ONotifyOne\<rparr>)"
| e_notify: "opc s = ONotifyOne \<Longrightarrow> notify_one s t \<Longrightarrow>
     execute_step s (t\<lparr>opc := OIdle\<rparr>)"

text \<open>\<open>~fixed_thread_pool()\<close>, with \<open>data_\<close> set.\<close>

inductive dtor_step :: "'k pool \<Rightarrow> 'k pool \<Rightarrow> bool" where
  d_lock: "opc s = OIdle \<Longrightarrow> todo s = [] \<Longrightarrow> owner s = None \<Longrightarrow>
     dtor_step s (s\<lparr>owner := Some Owner, opc := ODtor\<rparr>)"
| d_set: "opc s = ODtor \<Longrightarrow>
     dtor_step s (s\<lparr>is_shutdown := True, opc := ODtorSet\<rparr>)"
| d_unlock: "opc s = ODtorSet \<Longrightarrow>
     dtor_step s (s\<lparr>owner := None, opc := ONotifyAll\<rparr>)"
| d_notify: "opc s = ONotifyAll \<Longrightarrow>
     dtor_step s (s\<lparr>waiting := {}, opc := OGone\<rparr>)"

text \<open>The constructor: an empty queue and \<open>N\<close> threads started.\<close>

definition pool_init :: "nat \<Rightarrow> 'k list \<Rightarrow> 'k pool \<Rightarrow> bool" where
  "pool_init N ts s \<longleftrightarrow> 0 < N \<and>
     s = \<lparr>owner = None, waiting = {}, tasks = [], is_shutdown = False, wpc = (\<lambda>_. WStart),
          opc = OIdle, todo = ts, submitted = [], taken = [], finished = []\<rparr>"

definition pool_next :: "nat \<Rightarrow> 'k pool \<Rightarrow> 'k pool \<Rightarrow> bool" where
  "pool_next N s t \<longleftrightarrow> (\<exists>i<N. worker_step i s t) \<or> execute_step s t \<or> dtor_step s t"

text \<open>The same with spurious wake-ups, which the standard allows \<open>wait\<close> at any time.\<close>

definition pool_any :: "nat \<Rightarrow> 'k pool \<Rightarrow> 'k pool \<Rightarrow> bool" where
  "pool_any N s t \<longleftrightarrow> pool_next N s t \<or>
     (\<exists>i. Worker i \<in> waiting s \<and> t = s\<lparr>waiting := waiting s - {Worker i}\<rparr>)"

subsection \<open>The invariant\<close>

fun in_cs :: "'k wpc \<Rightarrow> bool" where
  "in_cs WLoop = True" | "in_cs (WGot k) = True" | "in_cs _ = False"

text \<open>A thread in a critical section owns \<open>mtx_\<close>, and the owner is in a critical section.\<close>

definition lock_inv :: "nat \<Rightarrow> 'k pool \<Rightarrow> bool" where
  "lock_inv N s \<longleftrightarrow> (opc s \<in> {OExec, OEmplaced, ODtor, ODtorSet} \<longrightarrow> owner s = Some Owner) \<and>
     (\<forall>i<N. in_cs (wpc s i) \<longrightarrow> owner s = Some (Worker i))"

definition owner_inv :: "nat \<Rightarrow> 'k pool \<Rightarrow> bool" where
  "owner_inv N s \<longleftrightarrow> (\<forall>i. owner s = Some (Worker i) \<longrightarrow> i < N \<and> in_cs (wpc s i)) \<and>
     (owner s = Some Owner \<longrightarrow> opc s \<in> {OExec, OEmplaced, ODtor, ODtorSet})"

definition wait_inv :: "nat \<Rightarrow> 'k pool \<Rightarrow> bool" where
  "wait_inv N s \<longleftrightarrow> (\<forall>t \<in> waiting s. \<exists>i<N. t = Worker i \<and> wpc s i = WSleep)"

definition phase_inv :: "'k pool \<Rightarrow> bool" where
  "phase_inv s \<longleftrightarrow> (is_shutdown s \<longleftrightarrow> opc s \<in> {ODtorSet, ONotifyAll, OGone}) \<and>
     (opc s \<in> {ODtor, ODtorSet, ONotifyAll, OGone} \<longrightarrow> todo s = []) \<and>
     (opc s = OExec \<longrightarrow> todo s \<noteq> []) \<and> (opc s = OGone \<longrightarrow> waiting s = {})"

definition queue_inv :: "'k list \<Rightarrow> 'k pool \<Rightarrow> bool" where
  "queue_inv ts s \<longleftrightarrow> submitted s = taken s @ tasks s \<and> submitted s @ todo s = ts"

fun in_flight :: "'k wpc \<Rightarrow> 'k multiset" where
  "in_flight (WGot k) = {#k#}" | "in_flight (WRun k) = {#k#}" | "in_flight _ = {#}"

definition exec_inv :: "nat \<Rightarrow> 'k pool \<Rightarrow> bool" where
  "exec_inv N s \<longleftrightarrow> mset (taken s) = mset (finished s) + (\<Sum>i<N. in_flight (wpc s i))"

definition done_inv :: "nat \<Rightarrow> 'k pool \<Rightarrow> bool" where
  "done_inv N s \<longleftrightarrow> (\<forall>i<N. wpc s i = WDone \<longrightarrow> is_shutdown s \<and> tasks s = [])"

text \<open>No lost wake-up: a queued task has a notification on its way or a worker awake.\<close>

definition wake_inv :: "nat \<Rightarrow> 'k pool \<Rightarrow> bool" where
  "wake_inv N s \<longleftrightarrow> 0 < N \<and> (tasks s \<noteq> [] \<longrightarrow>
     opc s \<in> {OEmplaced, ONotifyOne} \<or> (\<exists>i<N. Worker i \<notin> waiting s))"

definition pool_inv :: "nat \<Rightarrow> 'k list \<Rightarrow> 'k pool \<Rightarrow> bool" where
  "pool_inv N ts s \<longleftrightarrow> lock_inv N s \<and> owner_inv N s \<and> wait_inv N s \<and> phase_inv s \<and> queue_inv ts s \<and>
     exec_inv N s \<and> done_inv N s \<and> wake_inv N s"

inductive_cases worker_stepE: "worker_step i s t"
inductive_cases execute_stepE: "execute_step s t"
inductive_cases dtor_stepE: "dtor_step s t"

lemma pool_any_cases [consumes 1, case_names worker execute dtor spurious]:
  assumes "pool_any N s t"
  obtains i where "i < N" "worker_step i s t" | "execute_step s t" | "dtor_step s t"
  | i where "Worker i \<in> waiting s" "t = s\<lparr>waiting := waiting s - {Worker i}\<rparr>"
  using assms by (auto simp: pool_any_def pool_next_def)

lemma lock_excl:
  "lock_inv N s \<Longrightarrow> i < N \<Longrightarrow> in_cs (wpc s i) \<Longrightarrow>
     owner s = Some (Worker i) \<and> (\<forall>j<N. j \<noteq> i \<longrightarrow> \<not> in_cs (wpc s j)) \<and>
     opc s \<notin> {OExec, OEmplaced, ODtor, ODtorSet}"
  unfolding lock_inv_def by (metis option.inject tid.distinct(1) tid.inject)

lemma lock_free:
  "lock_inv N s \<Longrightarrow> owner s = None \<Longrightarrow>
     (\<forall>j<N. \<not> in_cs (wpc s j)) \<and> opc s \<notin> {OExec, OEmplaced, ODtor, ODtorSet}"
  unfolding lock_inv_def by (metis option.distinct(1))

lemma lock_owned:
  "lock_inv N s \<Longrightarrow> opc s \<in> {OExec, OEmplaced, ODtor, ODtorSet} \<Longrightarrow>
     owner s = Some Owner \<and> (\<forall>j<N. \<not> in_cs (wpc s j))"
  unfolding lock_inv_def by (metis option.inject tid.distinct(1))

lemma lock_inv_worker:
  assumes inv: "lock_inv N s" and i: "i < N" and step: "worker_step i s t"
  shows "lock_inv N t"
proof -
  note excl = lock_excl[OF inv i] and free = lock_free[OF inv]
  from step show ?thesis
  proof (cases rule: worker_step.cases)
    case w_lock then show ?thesis using free by (simp add: lock_inv_def)
  next
    case w_take then show ?thesis using excl by (simp add: lock_inv_def)
  next
    case w_unlock then show ?thesis using excl by (simp add: lock_inv_def)
  next
    case w_run then show ?thesis using inv by (simp add: lock_inv_def)
  next
    case w_relock then show ?thesis using free by (simp add: lock_inv_def)
  next
    case w_break then show ?thesis using excl by (simp add: lock_inv_def)
  next
    case w_wait then show ?thesis using excl by (simp add: lock_inv_def)
  next
    case w_wake then show ?thesis using free by (simp add: lock_inv_def)
  qed
qed

lemma lock_inv_owner:
  assumes inv: "lock_inv N s" and step: "execute_step s t \<or> dtor_step s t"
  shows "lock_inv N t"
  using step lock_owned[OF inv] lock_free[OF inv] inv
  by (elim disjE execute_stepE dtor_stepE notify_oneE) (simp_all add: lock_inv_def)

lemma lock_inv_step:
  assumes "lock_inv N s" and "pool_any N s t"
  shows "lock_inv N t"
  using assms(2) 
proof (cases rule: pool_any_cases)
  case (worker i)
  then show ?thesis using assms(1) by (blast intro: lock_inv_worker)
next
  case (spurious i)
  then show ?thesis using assms(1) by (simp add: lock_inv_def)
qed (use assms(1) in \<open>blast intro: lock_inv_owner\<close>)+

lemma owner_inv_step: "owner_inv N s \<Longrightarrow> pool_any N s t \<Longrightarrow> owner_inv N t"
proof (erule pool_any_cases)
  fix i assume "owner_inv N s" "i < N" "worker_step i s t"
  then show ?thesis by (elim worker_stepE; auto simp: owner_inv_def)
next
  assume "owner_inv N s" "execute_step s t"
  then show ?thesis by (elim execute_stepE; auto simp: owner_inv_def elim: notify_oneE)
next
  assume "owner_inv N s" "dtor_step s t"
  then show ?thesis by (elim dtor_stepE; auto simp: owner_inv_def)
qed (auto simp: owner_inv_def)

lemma wait_inv_step: "wait_inv N s \<Longrightarrow> pool_any N s t \<Longrightarrow> wait_inv N t"
proof (erule pool_any_cases)
  fix i assume "wait_inv N s" "i < N" "worker_step i s t"
  then show ?thesis by (elim worker_stepE) (simp_all add: wait_inv_def, (metis tid.inject wpc.distinct(1,7,13,23,27,29) wpc.simps)+)
next
  assume "wait_inv N s" "execute_step s t"
  then show ?thesis by (elim execute_stepE; auto simp: wait_inv_def elim!: notify_oneE)
next
  assume "wait_inv N s" "dtor_step s t"
  then show ?thesis by (elim dtor_stepE; auto simp: wait_inv_def)
qed (auto simp: wait_inv_def)

lemma phase_inv_step: "phase_inv s \<Longrightarrow> pool_any N s t \<Longrightarrow> phase_inv t"
proof (erule pool_any_cases)
  fix i assume "phase_inv s" "worker_step i s t"
  then show ?thesis by (elim worker_stepE; auto simp: phase_inv_def)
next
  assume "phase_inv s" "execute_step s t"
  then show ?thesis by (elim execute_stepE; auto simp: phase_inv_def elim!: notify_oneE)
next
  assume "phase_inv s" "dtor_step s t"
  then show ?thesis by (elim dtor_stepE; auto simp: phase_inv_def)
qed (auto simp: phase_inv_def)

lemma queue_inv_step: "queue_inv ts s \<Longrightarrow> pool_any N s t \<Longrightarrow> queue_inv ts t"
proof (erule pool_any_cases)
  fix i assume "queue_inv ts s" "worker_step i s t"
  then show ?thesis by (elim worker_stepE; auto simp: queue_inv_def)
next
  assume "queue_inv ts s" "execute_step s t"
  then show ?thesis by (elim execute_stepE; auto simp: queue_inv_def elim!: notify_oneE)
next
  assume "queue_inv ts s" "dtor_step s t"
  then show ?thesis by (elim dtor_stepE; auto simp: queue_inv_def)
qed (auto simp: queue_inv_def)

lemma done_inv_step: "done_inv N s \<Longrightarrow> phase_inv s \<Longrightarrow> pool_any N s t \<Longrightarrow> done_inv N t"
proof (erule pool_any_cases)
  fix i assume "done_inv N s" "worker_step i s t"
  then show ?thesis by (elim worker_stepE; auto simp: done_inv_def)
next
  assume "done_inv N s" "phase_inv s" "execute_step s t"
  then show ?thesis
    by (elim execute_stepE; auto simp: done_inv_def phase_inv_def elim!: notify_oneE)
next
  assume "done_inv N s" "dtor_step s t"
  then show ?thesis by (elim dtor_stepE; auto simp: done_inv_def)
qed (auto simp: done_inv_def)

lemma wake_inv_step: "wake_inv N s \<Longrightarrow> wait_inv N s \<Longrightarrow> pool_any N s t \<Longrightarrow> wake_inv N t"
proof (erule pool_any_cases)
  fix i assume "wake_inv N s" "i < N" "worker_step i s t"
  then show ?thesis by (elim worker_stepE; auto simp: wake_inv_def)
next
  assume "wake_inv N s" "wait_inv N s" "execute_step s t"
  then show ?thesis
    by (elim execute_stepE; force simp: wake_inv_def wait_inv_def elim!: notify_oneE)
next
  assume "wake_inv N s" "dtor_step s t"
  then show ?thesis by (elim dtor_stepE; auto simp: wake_inv_def)
qed (auto simp: wake_inv_def)

lemma exec_inv_worker:
  assumes "exec_inv N s" "i < N" "worker_step i s t"
  shows "exec_inv N t"
proof -
  have "(\<Sum>j<N. in_flight (wpc t j)) + in_flight (wpc s i) =
      (\<Sum>j<N. in_flight (wpc s j)) + in_flight (wpc t i)"
    using assms(2,3) by (intro sum_moved) (auto elim!: worker_stepE)
  moreover have "mset (taken t) + in_flight (wpc s i) + mset (finished s) =
      mset (taken s) + in_flight (wpc t i) + mset (finished t)"
    using assms(3) by (cases rule: worker_step.cases) simp_all
  ultimately show ?thesis using assms(1) unfolding exec_inv_def by (rule balance_moved)
qed

lemma exec_inv_step: "exec_inv N s \<Longrightarrow> pool_any N s t \<Longrightarrow> exec_inv N t"
proof (erule pool_any_cases)
  assume "exec_inv N s" "execute_step s t"
  then show ?thesis by (elim execute_stepE; auto simp: exec_inv_def elim!: notify_oneE)
next
  assume "exec_inv N s" "dtor_step s t"
  then show ?thesis by (elim dtor_stepE; auto simp: exec_inv_def)
qed (auto intro: exec_inv_worker, simp add: exec_inv_def)

lemma pool_inv_init: "pool_init N ts s \<Longrightarrow> pool_inv N ts s"
  by (auto simp: pool_init_def pool_inv_def lock_inv_def owner_inv_def wait_inv_def phase_inv_def queue_inv_def
      exec_inv_def done_inv_def wake_inv_def)

lemma pool_inv_step: "pool_inv N ts s \<Longrightarrow> pool_any N s t \<Longrightarrow> pool_inv N ts t"
  unfolding pool_inv_def
  by (intro conjI; elim conjE; rule lock_inv_step owner_inv_step wait_inv_step phase_inv_step
      queue_inv_step exec_inv_step done_inv_step wake_inv_step; assumption)

interpretation pool_safe: inductive_invariant "pool_init N ts" "pool_any N" "pool_inv N ts"
  by unfold_locales (auto intro: pool_inv_init pool_inv_step)

subsection \<open>Termination: a rank, and a step from every state that is not final\<close>

fun wrank :: "bool \<Rightarrow> 'k wpc \<Rightarrow> nat" where
  "wrank _ WStart = 2" | "wrank _ WLoop = 1" | "wrank _ (WGot k) = 4" | "wrank _ (WRun k) = 3"
| "wrank _ WRelock = 2" | "wrank blocked WSleep = (if blocked then 0 else 2)" | "wrank _ WDone = 0"

fun orank :: "nat \<Rightarrow> nat \<Rightarrow> opc \<Rightarrow> nat" where
  "orank N n OIdle = 2 * N + 4 + 10 * n" | "orank N n OExec = 2 * N + 3 + 10 * n"
| "orank N n OEmplaced = 2 * N + 8 + 10 * n" | "orank N n ONotifyOne = 2 * N + 7 + 10 * n"
| "orank N n ODtor = 2 * N + 3" | "orank N n ODtorSet = 2 * N + 2"
| "orank N n ONotifyAll = 2 * N + 1" | "orank N n OGone = 0"

definition workers_rank :: "nat \<Rightarrow> 'k pool \<Rightarrow> nat" where
  "workers_rank N s = (\<Sum>i<N. wrank (Worker i \<in> waiting s) (wpc s i))"

definition pool_rank :: "nat \<Rightarrow> 'k pool \<Rightarrow> nat" where
  "pool_rank N s = workers_rank N s + 4 * length (tasks s) + orank N (length (todo s)) (opc s)"

definition pool_final :: "nat \<Rightarrow> 'k pool \<Rightarrow> bool" where
  "pool_final N s \<longleftrightarrow> opc s = OGone \<and> (\<forall>i<N. wpc s i = WDone)"

lemma worker_rank:
  assumes "i < N" and "worker_step i s t"
  shows "pool_rank N t < pool_rank N s"
proof -
  let ?f = "\<lambda>s j. wrank (Worker j \<in> waiting s) (wpc s j)"
  have "(\<Sum>j<N. ?f t j) + ?f s i = (\<Sum>j<N. ?f s j) + ?f t i"
    using assms by (intro sum_moved) (auto elim!: worker_stepE)
  moreover have "?f t i + 4 * length (tasks t) < ?f s i + 4 * length (tasks s) \<and>
      todo t = todo s \<and> opc t = opc s"
    using assms(2) by (cases rule: worker_step.cases) simp_all
  ultimately show ?thesis unfolding pool_rank_def workers_rank_def by simp
qed

text \<open>A notification makes at most the workers it wakes two steps further from sleep.\<close>

lemma workers_rank_wake:
  assumes "\<And>j. j < N \<Longrightarrow> Worker j \<notin> waiting s \<Longrightarrow> Worker j \<notin> waiting t" and "wpc t = wpc s"
  shows "workers_rank N t \<le> workers_rank N s + 2 * N"
proof -
  have "wrank (Worker j \<in> waiting t) (wpc t j) \<le> wrank (Worker j \<in> waiting s) (wpc s j) + 2" for j
    unfolding assms(2) by (cases "wpc s j") auto
  then show ?thesis unfolding workers_rank_def by (intro sum_nat_le)
qed

lemma workers_rank_notify:
  assumes "notify_one s t" and "wait_inv N s"
  shows "workers_rank N t \<le> workers_rank N s + 2 \<and> tasks t = tasks s \<and> todo t = todo s"
  using assms(1)
proof (cases rule: notify_one.cases)
  case (wake_some x)
  with assms(2) obtain i where i: "i < N" "x = Worker i" "wpc s i = WSleep"
    by (auto simp: wait_inv_def)
  let ?f = "\<lambda>s j. wrank (Worker j \<in> waiting s) (wpc s j)"
  have "(\<Sum>j<N. ?f t j) + ?f s i = (\<Sum>j<N. ?f s j) + ?f t i"
    using i wake_some by (intro sum_moved) auto
  with i wake_some show ?thesis by (simp add: workers_rank_def)
qed simp

lemma execute_rank:
  assumes step: "execute_step s t" and inv: "wait_inv N s"
  shows "pool_rank N t < pool_rank N s"
  using step
proof (cases rule: execute_step.cases)
  case (e_notify u)
  then have "workers_rank N t = workers_rank N u" by (simp add: workers_rank_def)
  moreover have "tasks t = tasks u" "todo t = todo u" "opc t = OIdle" "opc s = ONotifyOne"
    using e_notify by simp_all
  ultimately show ?thesis using workers_rank_notify[OF e_notify(3) inv]
    by (simp add: pool_rank_def)
qed (simp_all add: pool_rank_def workers_rank_def)

lemma dtor_rank:
  assumes step: "dtor_step s t"
  shows "pool_rank N t < pool_rank N s"
  using step
proof (cases rule: dtor_step.cases)
  case d_notify
  then have "workers_rank N t \<le> workers_rank N s + 2 * N" by (intro workers_rank_wake) auto
  with d_notify show ?thesis by (simp add: pool_rank_def)
qed (simp_all add: pool_rank_def workers_rank_def)

lemma pool_rank_decreases:
  assumes "pool_inv N ts s" and "pool_next N s t"
  shows "pool_rank N t < pool_rank N s"
  using assms worker_rank execute_rank dtor_rank by (auto simp: pool_next_def pool_inv_def)

lemma worker_can_step:
  assumes "wpc s i \<noteq> WDone" and "in_cs (wpc s i) \<or> owner s = None" and "Worker i \<notin> waiting s"
  shows "\<exists>t. worker_step i s t"
proof (cases "wpc s i")
  case WLoop
  then show ?thesis
    by (cases "tasks s"; cases "is_shutdown s") (blast intro: w_take w_break w_wait)+
qed (use assms in \<open>auto intro: worker_step.intros\<close>)

lemma owner_can_step:
  assumes "opc s \<in> {OIdle, ONotifyOne, ONotifyAll} \<and> owner s = None
    \<or> opc s \<in> {OExec, OEmplaced, ODtor, ODtorSet}" and "phase_inv s"
  shows "\<exists>t. execute_step s t \<or> dtor_step s t"
proof (cases "opc s")
  case OIdle
  with assms(1) show ?thesis by (cases "todo s = []") (auto intro: e_lock d_lock)
next
  case OExec
  with assms(2) obtain k ks where "todo s = k # ks" by (cases "todo s") (auto simp: phase_inv_def)
  with OExec show ?thesis by (blast intro: e_emplace)
next
  case ONotifyOne
  then show ?thesis using notify_one_total[of s] by (blast intro: e_notify)
next
  case OEmplaced
  then show ?thesis by (blast intro: e_unlock)
next
  case ODtor
  then show ?thesis by (blast intro: d_set)
next
  case ODtorSet
  then show ?thesis by (blast intro: d_unlock)
next
  case ONotifyAll
  then show ?thesis by (blast intro: d_notify)
next
  case OGone
  with assms(1) show ?thesis by simp
qed

lemma pool_progress:
  assumes inv: "pool_inv N ts s" and "\<not> pool_final N s"
  shows "\<exists>t. pool_next N s t"
proof (cases "owner s")
  case None
  have free: "opc s \<notin> {OExec, OEmplaced, ODtor, ODtorSet}"
    using inv None by (auto simp: pool_inv_def dest: lock_free)
  show ?thesis
  proof (cases "opc s = OGone")
    case True
    with inv assms(2) obtain i where "i < N" "wpc s i \<noteq> WDone" "Worker i \<notin> waiting s"
      by (auto simp: pool_final_def pool_inv_def phase_inv_def)
    with None worker_can_step[of s i] show ?thesis unfolding pool_next_def by blast
  next
    case False
    with free None have "opc s \<in> {OIdle, ONotifyOne, ONotifyAll} \<and> owner s = None"
      by (cases "opc s") auto
    with inv show ?thesis using owner_can_step[of s] unfolding pool_next_def pool_inv_def by blast
  qed
next
  case (Some x)
  show ?thesis
  proof (cases x)
    case Owner
    with Some inv have "opc s \<in> {OExec, OEmplaced, ODtor, ODtorSet}"
      by (auto simp: pool_inv_def owner_inv_def)
    with inv show ?thesis using owner_can_step[of s] unfolding pool_next_def pool_inv_def by blast
  next
    case (Worker i)
    with Some inv have i: "i < N" "in_cs (wpc s i)" by (auto simp: pool_inv_def owner_inv_def)
    then have "Worker i \<notin> waiting s" "wpc s i \<noteq> WDone"
      using inv by (auto simp: pool_inv_def wait_inv_def)
    with i worker_can_step[of s i] show ?thesis unfolding pool_next_def by blast
  qed
qed

lemma pool_next_any: "pool_next N s t \<Longrightarrow> pool_any N s t"
  by (simp add: pool_any_def)

interpretation pool_live: terminating_system "pool_init N ts" "pool_next N" "pool_inv N ts"
    "pool_rank N" "pool_final N"
  by unfold_locales
    (auto intro: pool_inv_init pool_inv_step pool_next_any pool_rank_decreases pool_progress)

lemma pool_final_complete:
  assumes "pool_inv N ts s" and "pool_final N s"
  shows "taken s = ts" and "mset (finished s) = mset ts"
proof -
  have "tasks s = []" using assms by (auto simp: pool_inv_def pool_final_def done_inv_def wake_inv_def)
  with assms show ts: "taken s = ts"
    by (auto simp: pool_inv_def pool_final_def phase_inv_def queue_inv_def)
  have "(\<Sum>i<N. in_flight (wpc s i)) = {#}"
    using assms(2) by (intro sum.neutral) (simp add: pool_final_def)
  with ts assms(1) show "mset (finished s) = mset ts" by (simp add: pool_inv_def exec_inv_def)
qed

lemma pool_final_stuck: "pool_final N s \<Longrightarrow> \<not> pool_next N s t"
  by (auto simp: pool_final_def pool_next_def elim!: worker_stepE execute_stepE dtor_stepE)

lemma pool_init_exists: "0 < N \<Longrightarrow> \<exists>s. pool_init N ts s"
  by (simp add: pool_init_def)

lemma pool_init_rank: "pool_init N ts s \<Longrightarrow> pool_rank N s = 4 * N + 4 + 10 * length ts"
  by (auto simp: pool_init_def pool_rank_def workers_rank_def)

lemma pool_can_finish:
  assumes "0 < N"
  shows "\<exists>s. reach (pool_init N ts) (pool_next N) s \<and> pool_final N s"
proof -
  obtain s where s: "pool_init N ts s" using pool_init_exists[OF assms] by blast
  then obtain t where "(pool_next N)\<^sup>*\<^sup>* s t" "pool_final N t"
    using pool_live.can_finish pool_inv_init by blast
  then show ?thesis using s by (blast intro: reach_rtranclp reach_ini)
qed

subsection \<open>The tasks of \<open>main\<close>\<close>

text \<open>
  \<open>print\<close> post-increments the atomic \<open>global_data\<close> and prints the old value; the lambda
  prints the \<open>i\<close> it captured. A task's effect on the counter and on the printed values:
\<close>

datatype main_task = Print | Lambda int

fun run_task :: "main_task \<Rightarrow> int \<times> int list \<Rightarrow> int \<times> int list" where
  "run_task Print (global_data, out) = (global_data + 1, out @ [global_data])"
| "run_task (Lambda i) (global_data, out) = (global_data, out @ [i])"

definition main_tasks :: "main_task list" where
  "main_tasks = concat (map (\<lambda>i. [Print, Lambda i]) [1..15])"

definition run_main_tasks :: "main_task list \<Rightarrow> int \<times> int list" where
  "run_main_tasks ks = fold run_task ks (100, [])"

fun lambda_value :: "main_task \<Rightarrow> int list" where
  "lambda_value Print = []" | "lambda_value (Lambda i) = [i]"

fun consecutive :: "int \<Rightarrow> nat \<Rightarrow> int list" where
  "consecutive g 0 = []" | "consecutive g (Suc n) = g # consecutive (g + 1) n"

lemma run_tasks_values:
  "fst (fold run_task ks (g, out)) = g + int (count (mset ks) Print) \<and>
   mset (snd (fold run_task ks (g, out))) =
     mset out + mset (consecutive g (count (mset ks) Print)) +
     (\<Sum>k \<in># mset ks. mset (lambda_value k))"
proof (induction ks arbitrary: g out)
  case (Cons k ks)
  show ?case
  proof (cases k)
    case Print
    with Cons[of "g + 1" "out @ [g]"] show ?thesis by simp
  qed (simp add: Cons)
qed simp

subsection \<open>Properties\<close>

text \<open>
  C1. The pool completes: a run of \<open>fixed_thread_pool\<close> with at least one worker, in which the
  owner calls \<open>execute\<close> for each task of \<open>ts\<close> and then destroys the pool, and which can go
  no further has executed every task exactly once (and never another), has taken them
  from the queue in the order of submission, and has left the loop in every worker: no
  wake-up is lost and nothing deadlocks, whatever the interleaving.
\<close>

theorem pool_completes:
  assumes "reach (pool_init N ts) (pool_next N) s" and "\<And>t. \<not> pool_next N s t"
  shows "mset (finished s) = mset ts \<and> taken s = ts \<and> tasks s = [] \<and> opc s = OGone \<and>
    (\<forall>i<N. wpc s i = WDone)"
proof -
  have inv: "pool_inv N ts s" using assms(1) by (rule pool_live.reach_holds)
  have fin: "pool_final N s" using assms by (rule pool_live.stuck_is_final)
  from inv pool_final_complete[OF inv fin] have "tasks s = []"
    by (auto simp: pool_inv_def queue_inv_def)
  with fin pool_final_complete[OF inv fin] show ?thesis by (simp add: pool_final_def)
qed

theorem pool_completes_witness:
  "\<exists>s. reach (pool_init 2 [5, 6, 5::nat]) (pool_next 2) s \<and>
    mset (finished s) = {#5, 5, 6#} \<and> taken s = [5, 6, 5]"
proof -
  obtain s where s: "reach (pool_init 2 [5, 6, 5::nat]) (pool_next 2) s" "pool_final 2 s"
    using pool_can_finish[of 2 "[5, 6, 5::nat]"] by auto
  with pool_completes[OF s(1) pool_final_stuck[OF s(2)]] show ?thesis by auto
qed

text \<open>
  C25. The pool terminates: as long as no wake-up is spurious, a run from the constructor makes at
  most \<open>4 N + 4 + 10 |ts|\<close> steps, so neither the workers nor the owner loop forever.
\<close>

theorem pool_terminates:
  assumes "pool_init N ts s" and "(pool_next N ^^ n) s t"
  shows "n \<le> 4 * N + 4 + 10 * length ts"
  using pool_live.run_bounded[OF pool_inv_init[OF assms(1)] assms(2)] pool_init_rank[OF assms(1)]
  by simp

theorem pool_terminates_witness:
  "\<exists>s t. pool_init 1 [3::nat] s \<and> pool_next 1 s t \<and> 1 \<le> 4 * 1 + 4 + 10 * length [3::nat]"
proof -
  obtain s where s: "pool_init 1 [3::nat] s" using pool_init_exists[of 1] by auto
  then have "wpc s 0 = WStart" "owner s = None" by (simp_all add: pool_init_def)
  then have "\<exists>t. worker_step 0 s t" by (blast intro: w_lock)
  then obtain t where t: "pool_next 1 s t" by (auto simp: pool_next_def)
  with s pool_terminates[OF s, of 1 t] show ?thesis by auto
qed

text \<open>
  C17. Safety under spurious wake-ups: whatever the interleaving, and with \<open>wait\<close> returning at any
  time, at most one thread is between locking and unlocking \<open>mtx_\<close>, the queue hands the
  tasks out first in, first out, each to one worker, no task is executed that was not
  taken, and a worker leaves its loop only after the destructor set \<open>is_shutdown_\<close> and
  with the queue empty.
\<close>

theorem pool_safety:
  assumes "reach (pool_init N ts) (pool_any N) s"
  shows "(\<forall>i<N. \<forall>j<N. in_cs (wpc s i) \<and> in_cs (wpc s j) \<longrightarrow> i = j) \<and>
    ts = taken s @ tasks s @ todo s \<and>
    mset (taken s) = mset (finished s) + (\<Sum>i<N. in_flight (wpc s i)) \<and>
    (\<forall>i<N. wpc s i = WDone \<longrightarrow> is_shutdown s \<and> tasks s = [])"
proof -
  have inv: "pool_inv N ts s" using assms by (rule pool_safe.reach_holds)
  then have "lock_inv N s" by (simp add: pool_inv_def)
  then have "\<forall>i<N. \<forall>j<N. in_cs (wpc s i) \<and> in_cs (wpc s j) \<longrightarrow> i = j" by (meson lock_excl)
  with inv show ?thesis by (auto simp: pool_inv_def queue_inv_def exec_inv_def done_inv_def)
qed

theorem pool_safety_witness:
  "\<exists>s. reach (pool_init 1 [7::nat]) (pool_any 1) s \<and> waiting s = {} \<and> [7] = taken s @ tasks s @ todo s"
proof -
  obtain s where s: "pool_init 1 [7::nat] s" using pool_init_exists[of 1] by auto
  then have r: "reach (pool_init 1 [7::nat]) (pool_any 1) s" by (rule reach_ini)
  from pool_safety[OF r] have "[7] = taken s @ tasks s @ todo s" by blast
  moreover from s have "waiting s = {}" by (simp add: pool_init_def)
  ultimately show ?thesis using r by blast
qed

text \<open>
  The program of \<open>threadpool.cpp\<close>: once every task of \<open>main\<close> has been executed, in whatever
  order the workers did, the counter is 115 and the values printed are exactly 100 to
  114, each once (no increment is lost), and 1 to 15.
\<close>

theorem main_prints:
  assumes "reach (pool_init N main_tasks) (pool_next N) s" and "pool_final N s"
  shows "fst (run_main_tasks (finished s)) = 115 \<and>
    mset (snd (run_main_tasks (finished s))) = mset [100..114] + mset [1..15]"
proof -
  have "pool_inv N main_tasks s" using assms(1) by (rule pool_live.reach_holds)
  then have ms: "mset (finished s) = mset main_tasks" using assms(2) by (rule pool_final_complete)
  have tasks: "main_tasks = concat (map (\<lambda>i. [Print, Lambda i]) [1,2,3,4,5,6,7,8,9,10,11,12,13,14,15])"
    by (simp add: main_tasks_def upto_rec1)
  have "count (mset main_tasks) Print = Suc (Suc (Suc (Suc (Suc (Suc (Suc (Suc (Suc (Suc (Suc (Suc
      (Suc (Suc (Suc 0))))))))))))))"
    unfolding tasks by simp
  moreover have "(\<Sum>k \<in># mset main_tasks. mset (lambda_value k)) = mset [1..15]"
    unfolding tasks by (simp add: upto_rec1)
  ultimately show ?thesis using ms run_tasks_values[of "finished s" 100 "[]"]
    by (simp add: run_main_tasks_def upto_rec1)
qed

theorem main_prints_witness:
  "\<exists>s. reach (pool_init 3 main_tasks) (pool_next 3) s \<and> fst (run_main_tasks (finished s)) = 115"
proof -
  obtain s where s: "reach (pool_init 3 main_tasks) (pool_next 3) s" "pool_final 3 s"
    using pool_can_finish[of 3 main_tasks] by auto
  with main_prints[OF s] show ?thesis by blast
qed

end
