(* ===== verification/Parallel_Sum.thy ===== *)
theory Parallel_Sum
  imports Prelude
begin

text \<open>
  \<open>TMP::manual_mt\<close>, \<open>operator()\<close>, \<open>partial_sum\<close> and \<open>benchmark_entry\<close> of
  \<open>code/concurrent/sum.cpp\<close>: the data is cut into ranges, one job per range is handed to the
  thread pool, and the vector of partial results takes the place of the data until it is
  shorter than a batch. Iterators are offsets. The element type has the \<open>0\<close> and \<open>+\<close> the code
  uses (\<open>double\<close> addition is not assumed to be associative). The jobs' own statements are
  the two lines of log output that are not commented out, so a job leaves \<open>next_data\<close>
  unchanged. \<open>hardware_concurrency()\<close> is an argument.

  \<open>epoch_count\<close> is the ceiling of a \<open>float\<close> quotient: the argument \<open>cq\<close>, a function of the size and the
  batch. \<open>exact_quotient\<close> is what \<open>float\<close> guarantees: below \<open>2 ^ 24\<close> both numbers are represented
  exactly, and the rounding error of the quotient, at most \<open>n / (b * 2 ^ 24)\<close>, is less than the distance \<open>1 / b\<close> of
  a quotient that is not an integer from the next integer, so that the ceiling is exact.
  The range a job captures is not used by it: the call of \<open>task\<close> is commented out.
\<close>

definition accumulate :: "'a::{zero,plus} list \<Rightarrow> 'a" where
  "accumulate xs = foldl (+) 0 xs"

text \<open>\<open>partial_sum\<close>: the accumulation is commented out.\<close>

definition partial_sum :: "nat \<Rightarrow> nat \<Rightarrow> 'a::zero" where
  "partial_sum start stop = 0"

text \<open>The \<open>do ... while (--epoch_count)\<close> loop: the ranges handed to \<open>execute\<close>.\<close>

fun epoch_jobs :: "nat \<Rightarrow> nat \<Rightarrow> nat \<Rightarrow> nat \<Rightarrow> (nat \<times> nat) list" where
  "epoch_jobs batch_size start offset 0 = []"
| "epoch_jobs batch_size start offset (Suc epoch_count) =
     (start, start + offset) # epoch_jobs batch_size (start + offset) batch_size epoch_count"

definition exact_quotient :: "(nat \<Rightarrow> nat \<Rightarrow> nat) \<Rightarrow> bool" where
  "exact_quotient cq \<longleftrightarrow> (\<forall>n b. 0 < b \<and> b < 2 ^ 24 \<and> n < 2 ^ 24 \<longrightarrow> cq n b = (n + b - 1) div b)"

definition epoch :: "(nat \<Rightarrow> nat \<Rightarrow> nat) \<Rightarrow> nat \<Rightarrow> nat \<Rightarrow> (nat \<times> nat) list" where
  "epoch cq local_size batch_size =
     (let epoch_count = cq local_size batch_size;
          epoch_last = local_size mod batch_size;
          offset = (if epoch_last = 0 then batch_size else epoch_last)
      in epoch_jobs batch_size 0 offset epoch_count)"

text \<open>What a job does to \<open>next_data\<close>: nothing, the \<open>push_back\<close> is commented out.\<close>

definition run_job :: "nat \<times> nat \<Rightarrow> 'a list \<Rightarrow> 'a list" where
  "run_job r next_data = next_data"

lemma fold_run_job [simp]: "fold run_job rs d = d"
  by (induction rs) (simp_all add: run_job_def)

text \<open>The \<open>while\<close> loop; \<open>None\<close> is the undefined \<open>% 0\<close>. The second result lists the jobs.\<close>

function sum_loop :: "(nat \<Rightarrow> nat \<Rightarrow> nat) \<Rightarrow> nat \<Rightarrow> 'a list \<Rightarrow> (nat \<times> nat) list \<Rightarrow> ('a list \<times> (nat \<times> nat) list) option" where
  "sum_loop cq batch_size local_date jobs =
     (if length local_date < batch_size then Some (local_date, jobs)
      else if batch_size = 0 then None
      else sum_loop cq batch_size (fold run_job (epoch cq (length local_date) batch_size) [])
             (jobs @ epoch cq (length local_date) batch_size))"
  by pat_completeness auto
termination sum_loop
  by (relation "measure (\<lambda>(q, b, d, l). length d)") auto

declare sum_loop.simps [simp del]

text \<open>
  The number of pool threads and the value of \<open>manual_mt\<close>, with the jobs it created. The number is an \<open>int\<close> that becomes
  a \<open>size_t\<close>: where \<open>hardware_concurrency()\<close> is 0 it is -1 and wraps around.
\<close>

definition pool_threads :: "nat \<Rightarrow> nat \<Rightarrow> nat" where
  "pool_threads maximum_thread thread_count =
     (if maximum_thread \<le> thread_count then nat ((int maximum_thread - 1) mod 2 ^ 64) else thread_count)"

definition manual_mt ::
  "(nat \<Rightarrow> nat \<Rightarrow> nat) \<Rightarrow> nat \<Rightarrow> 'a::{zero,plus} list \<Rightarrow> nat \<Rightarrow> nat \<Rightarrow> ('a \<times> nat \<times> (nat \<times> nat) list) option" where
  "manual_mt cq hardware_concurrency dat thread_count batch_size =
     map_option (\<lambda>(local_date, jobs).
       (accumulate local_date, pool_threads hardware_concurrency thread_count, jobs))
       (sum_loop cq batch_size dat [])"

text \<open>\<open>operator()\<close> through \<open>benchmark_entry\<close> (the \<open>void\<close> branch): the value it prints.\<close>

definition call_operator :: "(nat \<Rightarrow> nat \<Rightarrow> nat) \<Rightarrow> nat \<Rightarrow> 'a::{zero,plus} list \<Rightarrow> nat \<Rightarrow> 'a option" where
  "call_operator cq hardware_concurrency dat thread_count =
     map_option fst (manual_mt cq hardware_concurrency dat thread_count 3000)"

text \<open>
  \<open>my_timer\<close>: the milliseconds between its construction and its destruction, from clock readings in nanoseconds;
  \<open>benchmark_entry\<close>: the lines it prints around the operation (the name of the type of the operation is left
  out); the constructor of \<open>TMP\<close>: \<open>n\<close> draws of the distribution, with its two lines; \<open>main\<close>. The \<open>*\<close> that
  a detached thread prints at some time is left out.
\<close>

datatype 'a sum_line = Generating | Generated nat | Signature | Elapsed int | SumIs 'a

definition my_timer :: "int \<Rightarrow> int \<Rightarrow> int" where
  "my_timer start_ns end_ns = (end_ns - start_ns) div 1000000"

definition benchmark_entry :: "int \<Rightarrow> int \<Rightarrow> 'a option \<Rightarrow> 'a sum_line list option" where
  "benchmark_entry start_ns end_ns res =
     map_option (\<lambda>res. [Signature, Elapsed (my_timer start_ns end_ns), SumIs res]) res"

definition new_TMP :: "nat \<Rightarrow> (nat \<Rightarrow> 'a) \<Rightarrow> 'a list \<times> 'a sum_line list" where
  "new_TMP n draw = (let dat = map draw [0..<n] in (dat, [Generating, Generated (length dat)]))"

definition sum_main :: "(nat \<Rightarrow> nat \<Rightarrow> nat) \<Rightarrow> nat \<Rightarrow> (nat \<Rightarrow> 'a::{zero,plus}) \<Rightarrow> int \<Rightarrow> int \<Rightarrow> 'a sum_line list option" where
  "sum_main cq hardware_concurrency draw start_ns end_ns =
     (let (dat, out) = new_TMP 1000000 draw
      in map_option (\<lambda>ls. out @ ls) (benchmark_entry start_ns end_ns (call_operator cq hardware_concurrency dat 12)))"

definition covers :: "nat \<times> nat \<Rightarrow> nat list" where
  "covers r = [fst r..<snd r]"

lemma epoch_jobs_tile:
  "concat (map covers (epoch_jobs b start offset (Suc n))) = [start..<start + offset + n * b]"
proof (induction n arbitrary: start offset)
  case (Suc n)
  have "concat (map covers (epoch_jobs b start offset (Suc (Suc n)))) =
      [start..<start + offset] @ concat (map covers (epoch_jobs b (start + offset) b (Suc n)))"
    by (simp only: epoch_jobs.simps list.map concat.simps) (simp add: covers_def)
  also have "\<dots> = [start..<start + offset] @ [start + offset..<start + offset + (b + n * b)]"
    using Suc[of "start + offset" b] by (simp add: ac_simps)
  also have "\<dots> = [start..<start + offset + Suc n * b]"
    using upt_add_eq_append[of start "start + offset" "b + n * b"] by (simp add: ac_simps)
  finally show ?case .
qed (simp add: covers_def)

lemma epoch_jobs_sizes:
  "offset \<le> b \<Longrightarrow> \<forall>r \<in> set (epoch_jobs b start offset n). snd r - fst r \<le> b"
  by (induction n arbitrary: start offset) auto

lemma epoch_split:
  fixes n b :: nat
  assumes "0 < b" and "0 < n"
  shows "\<exists>m. (n + b - 1) div b = Suc m \<and> (if n mod b = 0 then b else n mod b) + m * b = n"
proof (cases "n mod b = 0")
  case True
  then obtain k where k: "n = b * k" by auto
  with assms obtain m where m: "k = Suc m" by (cases k) auto
  from assms k m have "n + b - 1 = (b - 1) + b * Suc m" by simp
  then have "(n + b - 1) div b = ((b - 1) + b * Suc m) div b" by (rule arg_cong)
  also have "\<dots> = Suc m + (b - 1) div b" using assms(1) by (intro div_mult_self2) simp
  finally have "(n + b - 1) div b = Suc m" using assms(1) by simp
  with True k m show ?thesis by (auto simp: algebra_simps)
next
  case False
  let ?q = "n div b" and ?r = "n mod b"
  have "n + b - 1 = (?r - 1) + b * Suc ?q" using False assms by (simp add: algebra_simps)
  moreover have "?r - 1 < b" using assms(1) by (meson le_less_trans diff_le_self mod_less_divisor)
  ultimately have "(n + b - 1) div b = Suc ?q" using assms(1) by (simp del: mult_Suc_right)
  then show ?thesis using False by (intro exI[of _ ?q]) simp
qed

lemma sum_loop_large:
  "0 < b \<Longrightarrow> b \<le> length d \<Longrightarrow> sum_loop cq b d jobs = Some ([], jobs @ epoch cq (length d) b)"
  by (subst sum_loop.simps, simp, subst sum_loop.simps, simp)

subsection \<open>Properties\<close>

text \<open>
  The jobs of \<open>manual_mt\<close> tile the data: for a positive batch size and at least one batch of
  data, the ranges given to the pool, in order, cover each index of the vector exactly
  once and nothing outside it (every \<open>start + offset\<close> is a valid iterator), and no job is
  larger than a batch.
\<close>

theorem manual_mt_jobs_tile:
  assumes "0 < batch_size" and "batch_size \<le> length dat" and "exact_quotient cq" and "length dat < 2 ^ 24"
  shows "\<exists>res jobs. manual_mt cq hw dat thread_count batch_size = Some (res, pool_threads hw thread_count, jobs) \<and>
    concat (map covers jobs) = [0..<length dat] \<and> (\<forall>r \<in> set jobs. snd r - fst r \<le> batch_size)"
proof -
  obtain m where m: "(length dat + batch_size - 1) div batch_size = Suc m"
    "(if length dat mod batch_size = 0 then batch_size else length dat mod batch_size) + m * batch_size
      = length dat"
    using epoch_split[OF assms(1) less_le_trans[OF assms(1,2)]] by blast
  let ?o = "if length dat mod batch_size = 0 then batch_size else length dat mod batch_size"
  have e: "epoch cq (length dat) batch_size = epoch_jobs batch_size 0 ?o (Suc m)"
    using m(1) assms by (simp add: epoch_def exact_quotient_def Let_def)
  have "concat (map covers (epoch cq (length dat) batch_size)) = [0..<length dat]"
    unfolding e epoch_jobs_tile using m(2) by simp
  moreover have "\<forall>r \<in> set (epoch cq (length dat) batch_size). snd r - fst r \<le> batch_size"
    unfolding e using assms(1) by (intro epoch_jobs_sizes) (simp add: less_imp_le)
  ultimately show ?thesis using assms by (simp add: manual_mt_def sum_loop_large)
qed

theorem manual_mt_jobs_tile_witness:
  "\<exists>res jobs. manual_mt (\<lambda>n b. (n + b - 1) div b) 8 [1, 2, 3, 4, 5, 6, 7::int] 12 3 = Some (res, pool_threads 8 12, jobs) \<and>
    concat (map covers jobs) = [0, 1, 2, 3, 4, 5, 6]"
proof -
  have "exact_quotient (\<lambda>n b. (n + b - 1) div b)" by (simp add: exact_quotient_def)
  moreover have "[0..<length [1, 2, 3, 4, 5, 6, 7::int]] = [0, 1, 2, 3, 4, 5, 6]" by (simp add: upt_rec)
  ultimately show ?thesis
    using manual_mt_jobs_tile[of 3 "[1, 2, 3, 4, 5, 6, 7::int]" "\<lambda>n b. (n + b - 1) div b" 8 12]
    by (simp only: One_nat_def) (simp, blast)
qed

lemma sum_loop_value:
  "sum_loop cq b dat [] = (if length dat < b then Some (dat, []) else if b = 0 then None else Some ([], epoch cq (length dat) b))"
proof (cases "length dat < b")
  case False
  then show ?thesis by (cases "b = 0") (simp_all add: sum_loop_large, simp add: sum_loop.simps)
qed (simp add: sum_loop.simps)

text \<open>
  \<open>manual_mt\<close> returns the sum only of data smaller than a batch: the jobs write nothing to
  \<open>next_data\<close>, so with a batch of data or more the loop goes on with an empty vector and
  the value returned, and printed by \<open>operator()\<close>, is 0.
\<close>

theorem manual_mt_value:
  "manual_mt cq hw dat thread_count batch_size =
     (if length dat < batch_size then Some (accumulate dat, pool_threads hw thread_count, [])
      else if batch_size = 0 then None
      else Some (0, pool_threads hw thread_count, epoch cq (length dat) batch_size)) \<and>
   call_operator cq hw dat thread_count = Some (if length dat < 3000 then accumulate dat else 0)"
  by (simp add: manual_mt_def call_operator_def accumulate_def sum_loop_value)

text \<open>So \<open>main\<close>, whose data has a million elements, prints 0 whatever was drawn.\<close>

lemma sum_main_zero:
  "sum_main cq hw draw t0 t1 = Some [Generating, Generated 1000000, Signature, Elapsed (my_timer t0 t1), SumIs 0]"
proof -
  have "call_operator cq hw (map draw [0..<1000000]) 12 = Some 0"
    using sum_loop_value[of cq 3000 "map draw [0..<1000000]"] by (simp add: call_operator_def manual_mt_def accumulate_def del: upt_Suc)
  then show ?thesis by (simp add: sum_main_def new_TMP_def benchmark_entry_def del: upt_Suc)
qed

end
