(* ===== verification/My_Future.thy ===== *)
theory My_Future
  imports Sync
begin

text \<open>
  \<open>code/concurrent/MyFuture.cpp\<close>: \<open>MyFuture\<close>, a handle on a reference-counted
  \<open>MyFutureInner\<close>, and the hand-over of a value from \<open>thread2_run\<close> to \<open>main\<close>.

  The first part models the handles: a heap from addresses to inner objects and the handle
  objects in existence, each with its \<open>inner_ptr_\<close> (\<open>None\<close> is \<open>nullptr\<close>, what the move
  constructor leaves behind). Dereferencing \<open>nullptr\<close> or freed memory is an error value.
  The second part is the step relation of \<open>set\<close> against \<open>get\<close> with the \<open>if\<close> around
  \<open>wait\<close>.
\<close>

record 'a inner =
  ref_count :: int
  fvalue :: 'a
  value_set :: bool

record 'a mf_state =
  heap :: "nat \<rightharpoonup> 'a inner"
  handles :: "nat \<rightharpoonup> nat option"

datatype mf_error = NoObject nat | NullPointer | Dangling nat

text \<open>\<open>inner_ptr_->\<close>: the address behind a handle, if it can be dereferenced.\<close>

definition deref :: "nat \<Rightarrow> 'a mf_state \<Rightarrow> mf_error + nat \<times> 'a inner" where
  "deref h s = (case handles s h of
     None \<Rightarrow> Inl (NoObject h)
   | Some None \<Rightarrow> Inl NullPointer
   | Some (Some a) \<Rightarrow> (case heap s a of None \<Rightarrow> Inl (Dangling a) | Some i \<Rightarrow> Inr (a, i)))"

text \<open>\<open>MyFuture()\<close> with \<open>new\<close> returning \<open>a\<close>; \<open>dflt\<close> is the value-initialised \<open>T\<close>.\<close>

definition mf_new :: "'a \<Rightarrow> nat \<Rightarrow> nat \<Rightarrow> 'a mf_state \<Rightarrow> mf_error + 'a mf_state" where
  "mf_new dflt h a s =
     Inr (s\<lparr>heap := (heap s)(a \<mapsto> \<lparr>ref_count = 1, fvalue = dflt, value_set = False\<rparr>),
            handles := (handles s)(h \<mapsto> Some a)\<rparr>)"

text \<open>The copy constructor, \<open>increase_reference\<close> included.\<close>

definition mf_copy :: "nat \<Rightarrow> nat \<Rightarrow> 'a mf_state \<Rightarrow> mf_error + 'a mf_state" where
  "mf_copy future this s = (case deref future s of
     Inl e \<Rightarrow> Inl e
   | Inr (a, i) \<Rightarrow> Inr (s\<lparr>heap := (heap s)(a \<mapsto> i\<lparr>ref_count := ref_count i + 1\<rparr>),
                          handles := (handles s)(this \<mapsto> Some a)\<rparr>))"

definition mf_move :: "nat \<Rightarrow> nat \<Rightarrow> 'a mf_state \<Rightarrow> mf_error + 'a mf_state" where
  "mf_move future this s = (case handles s future of
     None \<Rightarrow> Inl (NoObject future)
   | Some p \<Rightarrow> Inr (s\<lparr>handles := (handles s)(this \<mapsto> p, future \<mapsto> None)\<rparr>))"

definition mf_set :: "nat \<Rightarrow> 'a \<Rightarrow> 'a mf_state \<Rightarrow> mf_error + 'a mf_state" where
  "mf_set h v s = (case deref h s of
     Inl e \<Rightarrow> Inl e
   | Inr (a, i) \<Rightarrow> Inr (s\<lparr>heap := (heap s)(a \<mapsto> i\<lparr>fvalue := v, value_set := True\<rparr>)\<rparr>))"

text \<open>The destructor, \<open>decrease_reference\<close> included.\<close>

definition mf_destroy :: "nat \<Rightarrow> 'a mf_state \<Rightarrow> mf_error + 'a mf_state" where
  "mf_destroy h s = (case handles s h of
     None \<Rightarrow> Inl (NoObject h)
   | Some None \<Rightarrow> Inr (s\<lparr>handles := (handles s)(h := None)\<rparr>)
   | Some (Some a) \<Rightarrow> (case heap s a of
        None \<Rightarrow> Inl (Dangling a)
      | Some i \<Rightarrow>
          let c = ref_count i - 1 in
          Inr (s\<lparr>heap := (heap s)(a := if c = 0 then None else Some (i\<lparr>ref_count := c\<rparr>)),
                 handles := (handles s)(h := None)\<rparr>)))"

datatype 'a mf_op = New nat nat | Copy nat nat | Move nat nat | SetV nat 'a | Destroy nat

fun mf_exec :: "'a \<Rightarrow> 'a mf_op \<Rightarrow> 'a mf_state \<Rightarrow> mf_error + 'a mf_state" where
  "mf_exec d (New h a) s = mf_new d h a s"
| "mf_exec d (Copy x y) s = mf_copy x y s"
| "mf_exec d (Move x y) s = mf_move x y s"
| "mf_exec d (SetV h v) s = mf_set h v s"
| "mf_exec d (Destroy h) s = mf_destroy h s"

text \<open>
  What the client keeps to: \<open>new\<close> returns unused memory, a constructor makes a new object, a
  moved-from handle is only destroyed or moved from. A run is legal when each call is legal in
  the state it is made in; that a call succeeds is no part of it, and nothing is asked of
  the calls after a failed one.
\<close>

fun mf_legal :: "'a mf_op \<Rightarrow> 'a mf_state \<Rightarrow> bool" where
  "mf_legal (New h a) s \<longleftrightarrow> handles s h = None \<and> heap s a = None"
| "mf_legal (Copy x y) s \<longleftrightarrow> (\<exists>a. handles s x = Some (Some a)) \<and> handles s y = None"
| "mf_legal (Move x y) s \<longleftrightarrow> handles s x \<noteq> None \<and> handles s y = None"
| "mf_legal (SetV h v) s \<longleftrightarrow> (\<exists>a. handles s h = Some (Some a))"
| "mf_legal (Destroy h) s \<longleftrightarrow> handles s h \<noteq> None"

fun mf_legal_run :: "'a \<Rightarrow> 'a mf_op list \<Rightarrow> 'a mf_state \<Rightarrow> bool" where
  "mf_legal_run d [] s = True"
| "mf_legal_run d (op # ops) s = (mf_legal op s \<and>
     (case mf_exec d op s of Inl _ \<Rightarrow> True | Inr t \<Rightarrow> mf_legal_run d ops t))"

subsection \<open>Counts are the number of handles\<close>

definition owners :: "nat \<Rightarrow> 'a mf_state \<Rightarrow> nat set" where
  "owners a s = {h. handles s h = Some (Some a)}"

definition mf_inv :: "'a mf_state \<Rightarrow> bool" where
  "mf_inv s \<longleftrightarrow> finite (dom (handles s)) \<and>
     (\<forall>a. case heap s a of None \<Rightarrow> owners a s = {}
        | Some i \<Rightarrow> ref_count i = int (card (owners a s)) \<and> owners a s \<noteq> {})"

lemma owners_finite: "mf_inv s \<Longrightarrow> finite (owners a s)"
  by (rule finite_subset[of _ "dom (handles s)"]) (auto simp: mf_inv_def owners_def)

lemma owners_upd:
  "handles t = (handles s)(h := p) \<Longrightarrow>
     owners a t = (if p = Some (Some a) then insert h (owners a s) else owners a s - {h})"
  by (auto simp: owners_def)

lemma mf_invI:
  assumes "finite (dom (handles t))"
    and "\<And>a. heap t a = None \<Longrightarrow> owners a t = {}"
    and "\<And>a i. heap t a = Some i \<Longrightarrow> ref_count i = int (card (owners a t)) \<and> owners a t \<noteq> {}"
  shows "mf_inv t"
  using assms by (auto simp: mf_inv_def split: option.splits)

lemma mf_invD:
  assumes "mf_inv s"
  shows "finite (dom (handles s))" and "heap s a = None \<Longrightarrow> owners a s = {}"
    and "heap s a = Some i \<Longrightarrow> ref_count i = int (card (owners a s)) \<and> owners a s \<noteq> {}"
proof -
  have "case heap s a of None \<Rightarrow> owners a s = {}
      | Some i \<Rightarrow> ref_count i = int (card (owners a s)) \<and> owners a s \<noteq> {}"
    using assms by (simp add: mf_inv_def)
  then show "heap s a = None \<Longrightarrow> owners a s = {}"
    and "heap s a = Some i \<Longrightarrow> ref_count i = int (card (owners a s)) \<and> owners a s \<noteq> {}" by auto
  show "finite (dom (handles s))" using assms by (simp add: mf_inv_def)
qed

lemma mf_live:
  assumes "mf_inv s" and "handles s h = Some (Some a)"
  shows "\<exists>i. heap s a = Some i \<and> ref_count i = int (card (owners a s)) \<and> h \<in> owners a s"
  using assms(2) mf_invD(2,3)[OF assms(1), of a] by (cases "heap s a") (auto simp: owners_def)

lemma mf_inv_new:
  assumes inv: "mf_inv s" and legal: "mf_legal (New h a) s"
  shows "\<exists>t. mf_exec d (New h a) s = Inr t \<and> mf_inv t"
proof -
  let ?t = "s\<lparr>heap := (heap s)(a \<mapsto> \<lparr>ref_count = 1, fvalue = d, value_set = False\<rparr>),
            handles := (handles s)(h \<mapsto> Some a)\<rparr>"
  have o: "owners b ?t = (if b = a then insert h (owners b s) else owners b s)" for b
    using legal by (auto simp: owners_def)
  have "owners a s = {}" using legal mf_invD(2)[OF inv] by simp
  then have "mf_inv ?t" using mf_invD[OF inv] o by (intro mf_invI) (auto split: if_splits)
  then show ?thesis by (simp add: mf_new_def)
qed

lemma mf_inv_copy:
  assumes inv: "mf_inv s" and legal: "mf_legal (Copy x y) s"
  shows "\<exists>t. mf_exec d (Copy x y) s = Inr t \<and> mf_inv t"
proof -
  from legal obtain a where a: "handles s x = Some (Some a)" "handles s y = None" by auto
  from mf_live[OF inv a(1)] obtain i where i: "heap s a = Some i"
    "ref_count i = int (card (owners a s))" by blast
  let ?t = "s\<lparr>heap := (heap s)(a \<mapsto> i\<lparr>ref_count := ref_count i + 1\<rparr>),
              handles := (handles s)(y \<mapsto> Some a)\<rparr>"
  have o: "owners b ?t = (if b = a then insert y (owners b s) else owners b s)" for b
    using a by (auto simp: owners_def)
  have "y \<notin> owners a s" using a by (simp add: owners_def)
  then have "mf_inv ?t" using mf_invD[OF inv] o i owners_finite[OF inv, of a]
    by (intro mf_invI) (auto split: if_splits)
  then show ?thesis using a i by (simp add: mf_copy_def deref_def)
qed

lemma mf_inv_move:
  assumes inv: "mf_inv s" and legal: "mf_legal (Move x y) s"
  shows "\<exists>t. mf_exec d (Move x y) s = Inr t \<and> mf_inv t"
proof -
  from legal obtain p where p: "handles s x = Some p" "handles s y = None" by auto
  let ?t = "s\<lparr>handles := (handles s)(y \<mapsto> p, x \<mapsto> None)\<rparr>"
  have o: "owners b ?t = (if p = Some b then insert y (owners b s - {x}) else owners b s)" for b
    using p by (auto simp: owners_def)
  have c: "card (insert y (owners b s - {x})) = card (owners b s)" if "p = Some b" for b
  proof -
    have "x \<in> owners b s" "y \<notin> owners b s" using p that by (simp_all add: owners_def)
    then show ?thesis using owners_finite[OF inv, of b]
      by (metis DiffD1 card_Suc_Diff1 card_insert_disjoint finite_Diff)
  qed
  have "mf_inv ?t"
  proof (rule mf_invI)
    show "finite (dom (handles ?t))" using mf_invD(1)[OF inv] by simp
  next
    fix b assume h: "heap ?t b = None"
    then have "owners b s = {}" using mf_invD(2)[OF inv] by simp
    with p o[of b] show "owners b ?t = {}" by (auto simp: owners_def)
  next
    fix b i assume h: "heap ?t b = Some i"
    with mf_invD(3)[OF inv, of b i] o[of b] c[of b]
    show "ref_count i = int (card (owners b ?t)) \<and> owners b ?t \<noteq> {}" by auto
  qed
  then show ?thesis using p by (simp add: mf_move_def)
qed

lemma mf_inv_set:
  assumes inv: "mf_inv s" and legal: "mf_legal (SetV h v) s"
  shows "\<exists>t. mf_exec d (SetV h v) s = Inr t \<and> mf_inv t"
proof -
  from legal obtain a where a: "handles s h = Some (Some a)" by auto
  from mf_live[OF inv a] obtain i where i: "heap s a = Some i" by blast
  let ?t = "s\<lparr>heap := (heap s)(a \<mapsto> i\<lparr>fvalue := v, value_set := True\<rparr>)\<rparr>"
  have o: "owners b ?t = owners b s" for b by (simp add: owners_def)
  have "mf_inv ?t" using mf_invD[OF inv] o i by (intro mf_invI) (auto split: if_splits)
  then show ?thesis using a i by (simp add: mf_set_def deref_def)
qed

lemma mf_inv_destroy:
  assumes inv: "mf_inv s" and legal: "mf_legal (Destroy h) s"
  shows "\<exists>t. mf_exec d (Destroy h) s = Inr t \<and> mf_inv t"
proof -
  from legal obtain p where p: "handles s h = Some p" by auto
  show ?thesis
  proof (cases p)
    case None
    let ?t = "s\<lparr>handles := (handles s)(h := None)\<rparr>"
    have "owners b ?t = owners b s" for b using p None by (auto simp: owners_def)
    then have "mf_inv ?t" using mf_invD[OF inv] by (intro mf_invI) auto
    then show ?thesis using p None by (simp add: mf_destroy_def)
  next
    case (Some a)
    with p have pa: "handles s h = Some (Some a)" by simp
    from mf_live[OF inv pa] obtain i where i: "heap s a = Some i"
      "ref_count i = int (card (owners a s))" "h \<in> owners a s" by blast
    let ?c = "ref_count i - 1"
    let ?t = "s\<lparr>heap := (heap s)(a := if ?c = 0 then None else Some (i\<lparr>ref_count := ?c\<rparr>)),
                handles := (handles s)(h := None)\<rparr>"
    have o: "owners b ?t = (if b = a then owners b s - {h} else owners b s)" for b
      using pa by (auto simp: owners_def)
    have c: "?c = int (card (owners a s - {h}))"
      using i owners_finite[OF inv, of a] by (auto simp: card_Diff_singleton int_ops card_gt_0_iff)
    then have z: "?c = 0 \<longleftrightarrow> owners a s - {h} = {}" using owners_finite[OF inv, of a] by simp
    have "mf_inv ?t"
    proof (rule mf_invI)
      show "finite (dom (handles ?t))" using mf_invD(1)[OF inv] by simp
    next
      fix b assume "heap ?t b = None"
      then show "owners b ?t = {}" using o[of b] z mf_invD(2)[OF inv, of b] by (auto split: if_splits)
    next
      fix b j assume j: "heap ?t b = Some j"
      show "ref_count j = int (card (owners b ?t)) \<and> owners b ?t \<noteq> {}"
      proof (cases "b = a")
        case True
        with j have "?c \<noteq> 0" "ref_count j = ?c" by (auto split: if_splits)
        moreover have "owners b ?t = owners a s - {h}" using o[of b] True by simp
        ultimately show ?thesis using c z by metis
      next
        case False
        with j o[of b] mf_invD(3)[OF inv, of b j] show ?thesis by simp
      qed
    qed
    moreover have "mf_exec d (Destroy h) s = Inr ?t"
      unfolding mf_exec.simps mf_destroy_def pa i(1) Let_def option.case ..
    ultimately show ?thesis by blast
  qed
qed

lemma mf_inv_exec:
  assumes "mf_inv s" and "mf_legal op s"
  shows "\<exists>t. mf_exec d op s = Inr t \<and> mf_inv t"
  using assms
  by (cases op) (simp_all only: mf_inv_new mf_inv_copy mf_inv_move mf_inv_set mf_inv_destroy)

text \<open>No operation of a legal run fails.\<close>

lemma mf_run:
  "mf_inv s \<Longrightarrow> mf_legal_run d ops s \<Longrightarrow> \<exists>t. foldE (mf_exec d) ops s = Inr t \<and> mf_inv t"
proof (induction ops arbitrary: s)
  case (Cons op ops)
  then obtain u where "mf_exec d op s = Inr u" "mf_inv u" using mf_inv_exec[of s op d] by auto
  with Cons show ?case by auto
qed simp

definition mf_empty :: "'a mf_state" where
  "mf_empty = \<lparr>heap = Map.empty, handles = Map.empty\<rparr>"

lemma mf_inv_empty: "mf_inv mf_empty"
  by (simp add: mf_inv_def mf_empty_def owners_def)

subsection \<open>\<open>set\<close> against \<open>get\<close>\<close>

text \<open>
  \<open>thread2_run\<close> sets the value, \<open>main\<close> gets it. Each critical section is one step; a getter in
  \<open>wait\<close> is \<open>GSleep\<close>, blocked while \<open>blocked\<close> is set. After \<open>wait\<close> the flag is not tested
  again.
\<close>

datatype gpc = GStart | GSleep | GReturned

record 'a handover =
  cell :: 'a
  is_set :: bool
  blocked :: bool
  gpc :: gpc
  setter_done :: bool
  result :: "'a option"

inductive future_step :: "'a \<Rightarrow> 'a handover \<Rightarrow> 'a handover \<Rightarrow> bool" for v :: 'a where
  fs_set: "\<not> setter_done s \<Longrightarrow>
     future_step v s (s\<lparr>cell := v, is_set := True, blocked := False, setter_done := True\<rparr>)"
| fs_get: "gpc s = GStart \<Longrightarrow> is_set s \<Longrightarrow>
     future_step v s (s\<lparr>result := Some (cell s), gpc := GReturned\<rparr>)"
| fs_wait: "gpc s = GStart \<Longrightarrow> \<not> is_set s \<Longrightarrow>
     future_step v s (s\<lparr>blocked := True, gpc := GSleep\<rparr>)"
| fs_wake: "gpc s = GSleep \<Longrightarrow> \<not> blocked s \<Longrightarrow>
     future_step v s (s\<lparr>result := Some (cell s), gpc := GReturned\<rparr>)"

definition future_init :: "'a \<Rightarrow> 'a handover \<Rightarrow> bool" where
  "future_init dflt s \<longleftrightarrow> s = \<lparr>cell = dflt, is_set = False, blocked = False, gpc = GStart,
     setter_done = False, result = None\<rparr>"

definition future_any :: "'a \<Rightarrow> 'a handover \<Rightarrow> 'a handover \<Rightarrow> bool" where
  "future_any v s t \<longleftrightarrow> future_step v s t \<or> blocked s \<and> t = s\<lparr>blocked := False\<rparr>"

definition future_inv :: "'a \<Rightarrow> 'a handover \<Rightarrow> bool" where
  "future_inv v s \<longleftrightarrow> (setter_done s \<longleftrightarrow> is_set s) \<and> (is_set s \<longrightarrow> cell s = v) \<and>
     (gpc s = GSleep \<longrightarrow> blocked s \<longleftrightarrow> \<not> is_set s) \<and> (blocked s \<longrightarrow> \<not> is_set s) \<and>
     (case result s of None \<Rightarrow> gpc s \<noteq> GReturned | Some r \<Rightarrow> r = v \<and> gpc s = GReturned)"

definition future_rank :: "'a handover \<Rightarrow> nat" where
  "future_rank s = (if setter_done s then 0 else 1) +
     (case gpc s of GStart \<Rightarrow> 2 | GSleep \<Rightarrow> 1 | GReturned \<Rightarrow> 0)"

definition future_final :: "'a \<Rightarrow> 'a handover \<Rightarrow> bool" where
  "future_final v s \<longleftrightarrow> setter_done s \<and> result s = Some v"

lemma future_inv_step: "future_inv v s \<Longrightarrow> future_step v s t \<Longrightarrow> future_inv v t"
  by (erule future_step.cases) (auto simp: future_inv_def split: option.splits)

lemma future_rank_step: "future_step v s t \<Longrightarrow> future_rank t < future_rank s"
  by (erule future_step.cases) (auto simp: future_rank_def)

lemma future_progress:
  assumes "future_inv v s" and "\<not> future_final v s"
  shows "\<exists>t. future_step v s t"
proof (cases "setter_done s")
  case True
  with assms have "gpc s \<noteq> GReturned" "is_set s" "\<not> blocked s"
    by (auto simp: future_inv_def future_final_def split: option.splits)
  then show ?thesis by (cases "gpc s") (blast intro: fs_get fs_wake)+
qed (blast intro: fs_set)

lemma future_inv_init: "future_init dflt s \<Longrightarrow> future_inv v s"
  by (simp add: future_init_def future_inv_def)

interpretation future: terminating_system "future_init dflt" "future_step v" "future_inv v" future_rank
    "future_final v"
  by unfold_locales
    (auto intro: future_inv_init future_inv_step future_rank_step future_progress)

subsection \<open>Properties\<close>

text \<open>
  C6. Reference counting is safe: any sequence of constructions, copies, moves, \<open>set\<close> calls and
  destructions in which a moved-from handle is not dereferenced by the client runs without
  touching freed or null memory, the destructors of moved-from handles included; afterwards every inner object is counted once per handle that
  points to it, an object without a handle has been deleted, and when no handle is left
  nothing is leaked.
\<close>

theorem future_refcount_safe:
  assumes "mf_legal_run d ops mf_empty"
  shows "\<exists>t. foldE (mf_exec d) ops mf_empty = Inr t \<and>
    (\<forall>a i. heap t a = Some i \<longrightarrow> ref_count i = int (card (owners a t)) \<and> owners a t \<noteq> {}) \<and>
    (\<forall>h a. handles t h = Some (Some a) \<longrightarrow> a \<in> dom (heap t)) \<and>
    (handles t = Map.empty \<longrightarrow> heap t = Map.empty)"
proof -
  obtain t where t: "foldE (mf_exec d) ops mf_empty = Inr t" "mf_inv t"
    using mf_run[OF mf_inv_empty assms] by blast
  have "heap t a = None" if "handles t = Map.empty" for a
    using mf_invD(3)[OF t(2), of a] that by (cases "heap t a") (auto simp: owners_def)
  then have "handles t = Map.empty \<longrightarrow> heap t = Map.empty" by auto
  with t mf_invD(3)[OF t(2)] mf_live[OF t(2)] show ?thesis by blast
qed

theorem future_refcount_safe_witness:
  "\<exists>t. foldE (mf_exec []) [New 0 8, Copy 0 1, Move 1 2, SetV 2 ''foo'', Destroy 2, Destroy 1, Destroy 0] mf_empty
      = Inr t \<and> heap t = Map.empty"
proof -
  let ?ops = "[New 0 8, Copy 0 1, Move 1 2, SetV 2 ''foo'', Destroy 2, Destroy 1, Destroy 0]"
  have l: "mf_legal_run [] ?ops mf_empty"
    by (simp add: mf_empty_def mf_new_def mf_copy_def mf_move_def mf_set_def mf_destroy_def deref_def Let_def)
  have "\<And>t. foldE (mf_exec []) ?ops mf_empty = Inr t \<Longrightarrow> handles t = Map.empty"
    by (auto simp: mf_empty_def mf_new_def mf_copy_def mf_move_def mf_set_def mf_destroy_def deref_def Let_def)
  with future_refcount_safe[OF l] show ?thesis by blast
qed

text \<open>
  C26. \<open>get\<close> returns what \<open>set\<close> stored: as long as \<open>wait\<close> returns only when notified, the hand-over of
  \<open>main\<close> ends. From every reachable state each run has at most three steps, and every run
  that cannot be continued has ended with \<open>get\<close> returning the value of \<open>thread2_run\<close>, whether \<open>get\<close> is
  called before or after \<open>set\<close>; no other value is ever returned.
\<close>

theorem future_get_value:
  assumes "reach (future_init dflt) (future_step v) s"
  shows "(\<forall>r. result s = Some r \<longrightarrow> r = v) \<and>
    (\<forall>n t. (future_step v ^^ n) s t \<longrightarrow> n \<le> 3) \<and>
    (\<forall>t. (future_step v)\<^sup>*\<^sup>* s t \<and> (\<forall>u. \<not> future_step v t u) \<longrightarrow> setter_done t \<and> result t = Some v) \<and>
    (\<exists>t. (future_step v)\<^sup>*\<^sup>* s t \<and> setter_done t \<and> result t = Some v)"
proof (intro conjI allI impI)
  fix r assume "result s = Some r"
  then show "r = v" using future.reach_holds[OF assms] by (simp add: future_inv_def)
next
  fix n t assume "(future_step v ^^ n) s t"
  with future.run_bounded[OF future.reach_holds[OF assms]] have "n \<le> future_rank s"
    by (meson add_leD1)
  also have "\<dots> \<le> 3" by (simp add: future_rank_def split: gpc.split)
  finally show "n \<le> 3" .
next
  fix t assume t: "(future_step v)\<^sup>*\<^sup>* s t \<and> (\<forall>u. \<not> future_step v t u)"
  with assms have "reach (future_init dflt) (future_step v) t" by (blast intro: reach_rtranclp)
  from future.stuck_is_final[OF this] t show "setter_done t" "result t = Some v"
    by (auto simp: future_final_def)
next
  show "\<exists>t. (future_step v)\<^sup>*\<^sup>* s t \<and> setter_done t \<and> result t = Some v"
    using future.can_finish[OF future.reach_holds[OF assms]] by (auto simp: future_final_def)
qed

theorem future_get_value_witness:
  "\<exists>s t. reach (future_init []) (future_step ''foo'') s \<and> gpc s = GSleep \<and>
     (future_step ''foo'')\<^sup>*\<^sup>* s t \<and> result t = Some ''foo''"
proof -
  let ?s0 = "\<lparr>cell = [], is_set = False, blocked = False, gpc = GStart, setter_done = False, result = None\<rparr>"
  let ?s1 = "?s0\<lparr>blocked := True, gpc := GSleep\<rparr>"
  have "reach (future_init []) (future_step ''foo'') ?s0" by (rule reach_ini) (simp add: future_init_def)
  moreover have "future_step ''foo'' ?s0 ?s1" by (rule fs_wait) simp_all
  ultimately have r: "reach (future_init []) (future_step ''foo'') ?s1" by (rule reach_nxt)
  moreover have "gpc ?s1 = GSleep" by simp
  ultimately show ?thesis using future_get_value[OF r] by blast
qed

text \<open>
  \<open>get\<close> may return before \<open>set\<close>: the flag is tested with \<open>if\<close>, not \<open>while\<close>, so one spurious wake-up
  makes \<open>get\<close> return the default value although nothing was set.
\<close>

theorem future_get_spurious:
  "\<exists>s. reach (future_init dflt) (future_any v) s \<and> result s = Some dflt \<and> \<not> setter_done s"
proof -
  let ?s0 = "\<lparr>cell = dflt, is_set = False, blocked = False, gpc = GStart, setter_done = False, result = None\<rparr>"
  let ?s1 = "?s0\<lparr>blocked := True, gpc := GSleep\<rparr>" let ?s2 = "?s1\<lparr>blocked := False\<rparr>"
  let ?s3 = "?s2\<lparr>result := Some (cell ?s2), gpc := GReturned\<rparr>"
  have "reach (future_init dflt) (future_any v) ?s0" by (rule reach_ini) (simp add: future_init_def)
  moreover have "future_any v ?s0 ?s1" unfolding future_any_def by (rule disjI1, rule fs_wait) simp_all
  moreover have "future_any v ?s1 ?s2" by (simp add: future_any_def)
  moreover have "future_any v ?s2 ?s3" unfolding future_any_def by (rule disjI1, rule fs_wake) simp_all
  ultimately have "reach (future_init dflt) (future_any v) ?s3" by (blast intro: reach_nxt)
  moreover have "result ?s3 = Some dflt" "\<not> setter_done ?s3" by simp_all
  ultimately show ?thesis by blast
qed

end
