(* ===== verification/Fizz_Buzz.thy ===== *)
theory Fizz_Buzz
  imports Sync
begin

text \<open>
  \<open>code/concurrent/order_print.cpp\<close>: the class \<open>FizzBuzz\<close>, four threads that take turns on a
  counter under one mutex and one condition variable. A thread is between iterations
  (\<open>FTop\<close>), holds \<open>protecter\<close> and evaluates its predicate (\<open>FTest\<close>), sleeps in \<open>cv.wait\<close>
  (\<open>FSleep\<close>) or has left the loop (\<open>FDone\<close>). \<open>print\<close>, \<open>++current\<close>, the test of \<open>n\<close> and
  \<open>notify_all\<close> happen under the mutex and are one step, which ends with the unlock by the
  destructor of \<open>locker\<close>.
\<close>

datatype fthread = Fizz | Buzz | Fizz_Buzz | Number

datatype out_item = OFizz | OBuzz | OFizzBuzz | ONumber nat

definition is_3x :: "nat \<Rightarrow> bool" where "is_3x x \<longleftrightarrow> x mod 3 = 0"
definition is_5x :: "nat \<Rightarrow> bool" where "is_5x x \<longleftrightarrow> x mod 5 = 0"
definition is_15x :: "nat \<Rightarrow> bool" where "is_15x x \<longleftrightarrow> x mod 15 = 0"
definition is_simple :: "nat \<Rightarrow> bool" where "is_simple x \<longleftrightarrow> \<not> (is_3x x \<or> is_5x x)"

text \<open>The predicate each member function waits for, and what it prints.\<close>

fun turn :: "fthread \<Rightarrow> nat \<Rightarrow> bool" where
  "turn Fizz current \<longleftrightarrow> \<not> is_15x current \<and> is_3x current"
| "turn Buzz current \<longleftrightarrow> \<not> is_15x current \<and> is_5x current"
| "turn Fizz_Buzz current \<longleftrightarrow> is_15x current"
| "turn Number current \<longleftrightarrow> is_simple current"

fun printed :: "fthread \<Rightarrow> nat \<Rightarrow> out_item" where
  "printed Fizz current = OFizz" | "printed Buzz current = OBuzz"
| "printed Fizz_Buzz current = OFizzBuzz" | "printed Number current = ONumber current"

datatype fpc = FTop | FTest | FSleep | FDone

record fb = "fthread monitor" +
  current :: nat
  pc :: "fthread \<Rightarrow> fpc"
  out :: "out_item list"

inductive fb_step :: "nat \<Rightarrow> fthread \<Rightarrow> fb \<Rightarrow> fb \<Rightarrow> bool" for n :: nat and t :: fthread where
  f_lock: "pc s t = FTop \<Longrightarrow> owner s = None \<Longrightarrow>
     fb_step n t s (s\<lparr>owner := Some t, pc := (pc s)(t := FTest)\<rparr>)"
| f_sleep: "pc s t = FTest \<Longrightarrow> \<not> turn t (current s) \<Longrightarrow>
     fb_step n t s (s\<lparr>owner := None, waiting := insert t (waiting s), pc := (pc s)(t := FSleep)\<rparr>)"
| f_wake: "pc s t = FSleep \<Longrightarrow> t \<notin> waiting s \<Longrightarrow> owner s = None \<Longrightarrow>
     fb_step n t s (s\<lparr>owner := Some t, pc := (pc s)(t := FTest)\<rparr>)"
| f_body: "pc s t = FTest \<Longrightarrow> turn t (current s) \<Longrightarrow>
     fb_step n t s (s\<lparr>out := out s @ [printed t (current s)], current := current s + 1,
       waiting := {}, owner := None,
       pc := (pc s)(t := if n < current s + 1 then FDone else FTop)\<rparr>)"

text \<open>\<open>main\<close>: the object for \<open>n\<close> and its four threads.\<close>

definition fb_init :: "fb \<Rightarrow> bool" where
  "fb_init s \<longleftrightarrow> s = \<lparr>owner = None, waiting = {}, current = 1, pc = (\<lambda>_. FTop), out = []\<rparr>"

definition fb_next :: "nat \<Rightarrow> fb \<Rightarrow> fb \<Rightarrow> bool" where
  "fb_next n s s' \<longleftrightarrow> (\<exists>t. fb_step n t s s')"

definition fb_any :: "nat \<Rightarrow> fb \<Rightarrow> fb \<Rightarrow> bool" where
  "fb_any n s s' \<longleftrightarrow> fb_next n s s' \<or> (\<exists>t \<in> waiting s. s' = s\<lparr>waiting := waiting s - {t}\<rparr>)"

inductive_cases fb_stepE: "fb_step n t s s'"

subsection \<open>Whose turn it is\<close>

text \<open>The sequence the class is meant to print.\<close>

definition word :: "nat \<Rightarrow> out_item" where
  "word k = (if k mod 3 = 0 \<and> k mod 5 = 0 then OFizzBuzz else if k mod 3 = 0 then OFizz
     else if k mod 5 = 0 then OBuzz else ONumber k)"

definition who :: "nat \<Rightarrow> fthread" where
  "who k = (if k mod 15 = 0 then Fizz_Buzz else if k mod 3 = 0 then Fizz
     else if k mod 5 = 0 then Buzz else Number)"

lemma mod15: "(k::nat) mod 15 = 0 \<longleftrightarrow> k mod 3 = 0 \<and> k mod 5 = 0"
  by presburger

lemma turn_iff: "turn t k \<longleftrightarrow> t = who k"
  by (cases t) (auto simp: who_def is_3x_def is_5x_def is_15x_def is_simple_def mod15)

lemma printed_who: "printed (who k) k = word k"
  by (auto simp: who_def word_def mod15)

subsection \<open>The invariant\<close>

definition out_inv :: "nat \<Rightarrow> fb \<Rightarrow> bool" where
  "out_inv n s \<longleftrightarrow> 1 \<le> current s \<and> out s = map word [1..<current s]"

definition done_inv :: "nat \<Rightarrow> fb \<Rightarrow> bool" where
  "done_inv n s \<longleftrightarrow> (\<forall>t. pc s t = FDone \<longleftrightarrow> (\<exists>u. n \<le> u \<and> u < current s \<and> who u = t))"

definition once_inv :: "nat \<Rightarrow> fb \<Rightarrow> bool" where
  "once_inv n s \<longleftrightarrow> (\<forall>u v. n \<le> u \<and> u < v \<and> v < current s \<longrightarrow> who u \<noteq> who v)"

definition mutex_inv :: "fb \<Rightarrow> bool" where
  "mutex_inv s \<longleftrightarrow> (\<forall>t. owner s = Some t \<longleftrightarrow> pc s t = FTest)"

definition sleep_inv :: "fb \<Rightarrow> bool" where
  "sleep_inv s \<longleftrightarrow> (\<forall>t \<in> waiting s. pc s t = FSleep \<and> t \<noteq> who (current s))"

definition fb_inv :: "nat \<Rightarrow> fb \<Rightarrow> bool" where
  "fb_inv n s \<longleftrightarrow> out_inv n s \<and> done_inv n s \<and> once_inv n s \<and> mutex_inv s \<and> sleep_inv s"

lemma mutex_other: "mutex_inv s \<Longrightarrow> pc s t = FTest \<Longrightarrow> t' \<noteq> t \<Longrightarrow> pc s t' \<noteq> FTest"
  unfolding mutex_inv_def by (metis option.inject)

lemma done_inv_keep:
  "done_inv n s \<Longrightarrow> current s' = current s \<Longrightarrow> (\<And>x. pc s' x = FDone \<longleftrightarrow> pc s x = FDone) \<Longrightarrow> done_inv n s'"
  by (simp add: done_inv_def)

lemma fb_inv_step:
  assumes inv: "fb_inv n s" and step: "fb_step n t s s'"
  shows "fb_inv n s'"
proof -
  from inv have parts: "out_inv n s" "done_inv n s" "once_inv n s" "mutex_inv s" "sleep_inv s"
    by (simp_all add: fb_inv_def)
  note other = mutex_other[OF parts(4)]
  from step show ?thesis
  proof (cases rule: fb_step.cases)
    case f_lock
    have "mutex_inv s'" using f_lock parts(4) unfolding mutex_inv_def by auto
    moreover have "sleep_inv s'" using f_lock parts(5) by (auto simp: sleep_inv_def)
    moreover have "done_inv n s'" using parts(2) by (rule done_inv_keep) (use f_lock in auto)
    ultimately show ?thesis using f_lock parts by (simp add: fb_inv_def out_inv_def once_inv_def)
  next
    case f_sleep
    have "mutex_inv s'" using f_sleep other[of t] by (simp add: mutex_inv_def)
    moreover have "sleep_inv s'" using f_sleep parts(5) by (auto simp: sleep_inv_def turn_iff)
    moreover have "done_inv n s'" using parts(2) by (rule done_inv_keep) (use f_sleep in auto)
    ultimately show ?thesis using f_sleep parts by (simp add: fb_inv_def out_inv_def once_inv_def)
  next
    case f_wake
    have "mutex_inv s'" using f_wake parts(4) unfolding mutex_inv_def by auto
    moreover have "sleep_inv s'" using f_wake parts(5) by (auto simp: sleep_inv_def)
    moreover have "done_inv n s'" using parts(2) by (rule done_inv_keep) (use f_wake in auto)
    ultimately show ?thesis using f_wake parts by (simp add: fb_inv_def out_inv_def once_inv_def)
  next
    case f_body
    then have t: "t = who (current s)" by (simp add: turn_iff)
    have fresh: "who u \<noteq> t" if "n \<le> u" "u < current s" for u
      using parts(2) f_body that unfolding done_inv_def by (metis fpc.distinct(9))
    have "mutex_inv s'" using f_body other[of t] by (simp add: mutex_inv_def)
    moreover have "sleep_inv s'" using f_body by (simp add: sleep_inv_def)
    moreover have "done_inv n s'"
    proof -
      have "(\<exists>u. n \<le> u \<and> u < Suc (current s) \<and> who u = x) \<longleftrightarrow>
          pc s x = FDone \<or> n \<le> current s \<and> x = t" for x
        using parts(2) t by (auto simp: done_inv_def less_Suc_eq)
      then show ?thesis using f_body by (auto simp: done_inv_def)
    qed
    moreover have "once_inv n s'"
      using f_body parts(3) fresh t by (auto simp: once_inv_def less_Suc_eq)
    moreover have "out_inv n s'"
      using f_body parts(1) t by (auto simp: out_inv_def printed_who)
    ultimately show ?thesis by (simp add: fb_inv_def)
  qed
qed

lemma fb_inv_any: "fb_inv n s \<Longrightarrow> fb_any n s s' \<Longrightarrow> fb_inv n s'"
  unfolding fb_any_def fb_next_def
proof (elim disjE exE bexE)
  fix t assume "fb_inv n s" "s' = s\<lparr>waiting := waiting s - {t}\<rparr>"
  then show "fb_inv n s'"
    by (simp add: fb_inv_def out_inv_def done_inv_def once_inv_def mutex_inv_def sleep_inv_def)
qed (rule fb_inv_step)

lemma fb_inv_init: "fb_init s \<Longrightarrow> 0 < n \<Longrightarrow> fb_inv n s"
  by (auto simp: fb_init_def fb_inv_def out_inv_def done_inv_def once_inv_def mutex_inv_def sleep_inv_def)

interpretation fb_safe: inductive_invariant "\<lambda>s. fb_init s \<and> 0 < n" "fb_any n" "fb_inv n"
  by unfold_locales (auto intro: fb_inv_init fb_inv_any)

subsection \<open>The runs end, and where\<close>

fun fprank :: "bool \<Rightarrow> fpc \<Rightarrow> nat" where
  "fprank _ FTop = 2" | "fprank _ FTest = 1" | "fprank blocked FSleep = (if blocked then 0 else 2)"
| "fprank _ FDone = 0"

definition threads_rank :: "fb \<Rightarrow> nat" where
  "threads_rank s = (let r = \<lambda>t. fprank (t \<in> waiting s) (pc s t) in r Fizz + r Buzz + r Fizz_Buzz + r Number)"

definition fb_rank :: "nat \<Rightarrow> fb \<Rightarrow> nat" where
  "fb_rank n s = 12 * (n + 5 - current s) + threads_rank s"

definition fb_stopped :: "fb \<Rightarrow> bool" where
  "fb_stopped s \<longleftrightarrow> pc s (who (current s)) = FDone"

text \<open>Five values from \<open>n\<close> on cannot belong to four threads once each.\<close>

lemma current_bound:
  assumes "once_inv n s"
  shows "current s \<le> n + 4"
proof (rule ccontr)
  assume big: "\<not> ?thesis"
  have "inj_on who {n..<n + 5}"
  proof (rule inj_onI)
    fix u v assume "u \<in> {n..<n + 5}" "v \<in> {n..<n + 5}" "who u = who v"
    then show "u = v" using assms big unfolding once_inv_def
      by (cases u v rule: linorder_cases) force+
  qed
  then have "card (who ` {n..<n + 5}) = 5" by (simp add: card_image)
  moreover have "who ` {n..<n + 5} \<subseteq> {Fizz, Buzz, Fizz_Buzz, Number}"
    by (auto simp: who_def)
  then have "card (who ` {n..<n + 5}) \<le> card {Fizz, Buzz, Fizz_Buzz, Number}" by (intro card_mono) simp_all
  ultimately show False by simp
qed

lemma fprank_le: "fprank b p \<le> 2"
  by (cases p) auto

lemma threads_rank_le: "threads_rank s \<le> 8"
  using fprank_le[of "Fizz \<in> waiting s" "pc s Fizz"] fprank_le[of "Buzz \<in> waiting s" "pc s Buzz"]
    fprank_le[of "Fizz_Buzz \<in> waiting s" "pc s Fizz_Buzz"] fprank_le[of "Number \<in> waiting s" "pc s Number"]
  by (simp add: threads_rank_def)

lemma fb_rank_step:
  assumes "fb_inv n s" and "fb_step n t s s'"
  shows "fb_rank n s' < fb_rank n s"
  using assms(2)
proof (cases rule: fb_step.cases)
  case f_body
  have "fb_inv n s'" using assms by (rule fb_inv_step)
  then have "current s' \<le> n + 4" by (simp add: fb_inv_def current_bound)
  then show ?thesis using f_body threads_rank_le[of s'] by (simp add: fb_rank_def)
qed (cases t; simp add: fb_rank_def threads_rank_def)+

lemma fb_progress:
  assumes "fb_inv n s" and "\<not> fb_stopped s"
  shows "\<exists>s'. fb_next n s s'"
proof (cases "owner s")
  case (Some t)
  then have "pc s t = FTest" using assms(1) by (auto simp: fb_inv_def mutex_inv_def)
  then show ?thesis unfolding fb_next_def
    by (cases "turn t (current s)") (blast intro: f_body f_sleep)+
next
  case None
  let ?t = "who (current s)"
  have "?t \<notin> waiting s" using assms(1) by (auto simp: fb_inv_def sleep_inv_def)
  moreover have "pc s ?t \<noteq> FTest" using None assms(1) by (auto simp: fb_inv_def mutex_inv_def)
  moreover have "pc s ?t \<noteq> FDone" using assms(2) by (simp add: fb_stopped_def)
  ultimately show ?thesis unfolding fb_next_def using None
    by (cases "pc s ?t") (blast intro: f_lock f_wake)+
qed

interpretation fb_live: terminating_system "\<lambda>s. fb_init s \<and> 0 < n" "fb_next n" "fb_inv n" "fb_rank n" fb_stopped
  by unfold_locales
    (auto intro: fb_inv_init fb_inv_step fb_rank_step fb_progress[unfolded fb_next_def] simp: fb_next_def)

lemma stopped_repeats:
  assumes "fb_inv n s" and "fb_stopped s"
  shows "\<exists>u. n \<le> u \<and> u < current s \<and> who u = who (current s)"
  using assms by (auto simp: fb_inv_def done_inv_def fb_stopped_def)

subsection \<open>Properties\<close>

text \<open>
  C8. The order is kept: whatever the interleaving and however often \<open>wait\<close> returns spuriously, what has
  been printed is the Fizz-Buzz sequence from 1 up to \<open>current - 1\<close>, every element once and
  in order, and at most three elements past \<open>n\<close> are printed.
\<close>

theorem fizzbuzz_sequence:
  assumes "reach (\<lambda>s. fb_init s \<and> 0 < n) (fb_any n) s"
  shows "out s = map word [1..<current s] \<and> current s \<le> n + 4"
  using fb_safe.reach_holds[OF assms] by (auto simp: fb_inv_def out_inv_def current_bound)

theorem fizzbuzz_sequence_witness:
  "\<exists>s. reach (\<lambda>s. fb_init s \<and> 0 < (23::nat)) (fb_any 23) s \<and> current s = 1 \<and> out s = []"
proof -
  obtain s where s: "fb_init s" by (simp add: fb_init_def)
  then have r: "reach (\<lambda>s. fb_init s \<and> 0 < (23::nat)) (fb_any 23) s" by (intro reach_ini) simp
  from s have "current s = 1" by (simp add: fb_init_def)
  with r fizzbuzz_sequence[OF r] show ?thesis by auto
qed

text \<open>
  \<open>main\<close> does not end: with \<open>n = 23\<close> every run of the four threads (without spurious wake-ups a run
  always gets there) stops after printing 25 elements, two more than asked for, with the
  thread of \<open>fizzbuzz\<close> still in its loop: it waits for a multiple of 15 that nobody will
  count up to, and the third \<open>join\<close> never returns.
\<close>

theorem fizzbuzz_main_hangs:
  assumes "reach (\<lambda>s. fb_init s \<and> 0 < (23::nat)) (fb_next 23) s" and "\<And>s'. \<not> fb_next 23 s s'"
  shows "out s = map word [1..<26] \<and> pc s Fizz_Buzz \<noteq> FDone \<and> pc s Fizz = FDone \<and> pc s Buzz = FDone \<and>
    pc s Number = FDone"
proof -
  have inv: "fb_inv 23 s" using assms(1) by (rule fb_live.reach_holds)
  have "fb_stopped s" using fb_live.stuck_is_final[OF assms] .
  then obtain u where u: "23 \<le> u" "u < current s" "who u = who (current s)"
    using stopped_repeats[OF inv] by blast
  have "once_inv 23 s" using inv by (simp add: fb_inv_def)
  then have le: "current s \<le> 27" using current_bound[of 23 s] by simp
  have ne: "current s \<noteq> 27"
  proof
    assume "current s = 27"
    then have "who 23 \<noteq> who 26" using inv by (simp add: fb_inv_def once_inv_def)
    then show False by (simp add: who_def)
  qed
  have "current s \<noteq> 24" "current s \<noteq> 25"
    using u by (auto simp: who_def le_less_Suc_eq split: if_splits)
  with u le ne have c: "current s = 26" by auto
  have d: "pc s t = FDone \<longleftrightarrow> t = who 23 \<or> t = who 24 \<or> t = who 25" for t
  proof -
    have "(\<exists>u. 23 \<le> u \<and> u < (26::nat) \<and> who u = t) \<longleftrightarrow> t = who 23 \<or> t = who 24 \<or> t = who 25"
    proof -
      have "23 \<le> u \<and> u < (26::nat) \<longleftrightarrow> u = 23 \<or> u = 24 \<or> u = 25" for u by auto
      then show ?thesis by (metis (no_types, lifting))
    qed
    with inv c show ?thesis by (simp add: fb_inv_def done_inv_def)
  qed
  have "out s = map word [1..<26]" using inv c by (simp add: fb_inv_def out_inv_def del: upt_Suc)
  then show ?thesis using d by (simp add: who_def del: upt_Suc)
qed

theorem fizzbuzz_main_hangs_witness:
  "\<exists>s. reach (\<lambda>s. fb_init s \<and> 0 < (23::nat)) (fb_next 23) s \<and> pc s Fizz_Buzz \<noteq> FDone \<and>
    (\<forall>s'. \<not> fb_next 23 s s')"
proof -
  obtain s0 where "fb_init s0 \<and> 0 < (23::nat)" by (simp add: fb_init_def)
  then obtain s where s: "reach (\<lambda>s. fb_init s \<and> 0 < (23::nat)) (fb_next 23) s" "\<forall>s'. \<not> fb_next 23 s s'"
    using fb_live.reach_end[where n = 23] by blast
  then show ?thesis using fizzbuzz_main_hangs[OF s(1)] by blast
qed

end
