(* ===== verification/Producer_Consumer.thy ===== *)
theory Producer_Consumer
  imports Sync
begin

text \<open>
  The three one-producer-one-consumer programs \<open>code/concurrent/1p1c.cpp\<close> (condition
  variable, \<open>wait\<close> without a predicate), \<open>1p1c_cv.cpp\<close> (with a predicate) and
  \<open>1p1c_mutex.cpp\<close> (polling).

  All accesses to the pool are inside critical sections of one mutex, each of which is one
  step, unless the consumer keeps the mutex from its test to the start of \<open>wait\<close>
  (\<open>CTested\<close>). \<open>end_flag\<close> is atomic and is written without the mutex: storing it and the
  notification after it are two steps of their own. The random data and the time limit of
  the producer are the list of batches it will produce, \<open>todo\<close>. The output is state:
  \<open>printed\<close> are the elements that the consumers of \<open>1p1c_cv.cpp\<close> and \<open>1p1c_mutex.cpp\<close> write to
  \<open>cout\<close>, line by line, and \<open>counts\<close> the two sizes that the consumer of \<open>1p1c.cpp\<close>, whose copy to
  \<open>cout\<close> is commented out, prints before and after each \<open>erase\<close>. \<open>CError\<close> is reached when
  \<open>next(begin, batch_size)\<close> runs past the end of the list.
\<close>

datatype ppc = PLoop | PFlag | PDone
datatype cpc = CTop | CLock | CTested | CSleep | CTail | CDone | CError

record 'a prodcons =
  data_pool :: "'a list"
  end_flag :: bool
  blocked :: bool
  todo :: "'a list list"
  ppc :: ppc
  cpc :: cpc
  printed :: "'a list list"
  counts :: "(nat \<times> nat) list"

definition batch_size :: nat where "batch_size = 100"

definition pc_init :: "'a list list \<Rightarrow> 'a prodcons \<Rightarrow> bool" where
  "pc_init bs s \<longleftrightarrow> s = \<lparr>data_pool = [], end_flag = False, blocked = False, todo = bs, ppc = PLoop, cpc = CTop,
     printed = [], counts = []\<rparr>"

text \<open>\<open>copy(begin, next(begin, n), ostream_iterator(cout))\<close> and \<open>erase(begin, next(begin, n))\<close>.\<close>

definition print_batch :: "nat \<Rightarrow> 'a prodcons \<Rightarrow> 'a prodcons" where
  "print_batch n s = s\<lparr>printed := printed s @ [take n (data_pool s)]\<rparr>"

definition take_batch :: "nat \<Rightarrow> 'a prodcons \<Rightarrow> 'a prodcons" where
  "take_batch n s = s\<lparr>data_pool := drop n (data_pool s)\<rparr>"

text \<open>The body of the loop of \<open>1p1c.cpp\<close> after \<open>wait\<close>: the size, \<open>erase\<close>, the size again.\<close>

definition take_counted :: "nat \<Rightarrow> 'a prodcons \<Rightarrow> 'a prodcons" where
  "take_counted n s = (let before = length (data_pool s); t = take_batch n s in
     t\<lparr>counts := counts t @ [(before, length (data_pool t))]\<rparr>)"

text \<open>The producer of \<open>1p1c.cpp\<close> and \<open>1p1c_cv.cpp\<close>.\<close>

inductive producer_step :: "'a prodcons \<Rightarrow> 'a prodcons \<Rightarrow> bool" where
  p_batch: "ppc s = PLoop \<Longrightarrow> todo s = b # bs \<Longrightarrow> cpc s \<noteq> CTested \<Longrightarrow>
     producer_step s (s\<lparr>data_pool := data_pool s @ b, todo := bs,
       blocked := blocked s \<and> length (data_pool s @ b) < 100\<rparr>)"
| p_end: "ppc s = PLoop \<Longrightarrow> todo s = [] \<Longrightarrow> producer_step s (s\<lparr>end_flag := True, ppc := PFlag\<rparr>)"
| p_notify: "ppc s = PFlag \<Longrightarrow> producer_step s (s\<lparr>blocked := False, ppc := PDone\<rparr>)"

text \<open>The consumer of \<open>1p1c.cpp\<close>.\<close>

inductive consumer_step :: "'a prodcons \<Rightarrow> 'a prodcons \<Rightarrow> bool" where
  c_wait: "cpc s = CTop \<Longrightarrow> consumer_step s (s\<lparr>blocked := True, cpc := CSleep\<rparr>)"
| c_end: "cpc s = CSleep \<Longrightarrow> \<not> blocked s \<Longrightarrow> end_flag s \<Longrightarrow> consumer_step s (s\<lparr>cpc := CTail\<rparr>)"
| c_take: "cpc s = CSleep \<Longrightarrow> \<not> blocked s \<Longrightarrow> \<not> end_flag s \<Longrightarrow> batch_size \<le> length (data_pool s) \<Longrightarrow>
     consumer_step s (take_counted batch_size s\<lparr>cpc := CTop\<rparr>)"
| c_overrun: "cpc s = CSleep \<Longrightarrow> \<not> blocked s \<Longrightarrow> \<not> end_flag s \<Longrightarrow> length (data_pool s) < batch_size \<Longrightarrow>
     consumer_step s (s\<lparr>cpc := CError\<rparr>)"
| c_tail: "cpc s = CTail \<Longrightarrow> consumer_step s (take_batch (length (data_pool s)) s\<lparr>cpc := CDone\<rparr>)"

definition pc_next :: "'a prodcons \<Rightarrow> 'a prodcons \<Rightarrow> bool" where
  "pc_next s t \<longleftrightarrow> producer_step s t \<or> consumer_step s t"

definition spurious :: "'a prodcons \<Rightarrow> 'a prodcons \<Rightarrow> bool" where
  "spurious s t \<longleftrightarrow> blocked s \<and> t = s\<lparr>blocked := False\<rparr>"

definition pc_any :: "'a prodcons \<Rightarrow> 'a prodcons \<Rightarrow> bool" where
  "pc_any s t \<longleftrightarrow> pc_next s t \<or> spurious s t"

text \<open>The consumer of \<open>1p1c_cv.cpp\<close>.\<close>

inductive cv_consumer_step :: "'a prodcons \<Rightarrow> 'a prodcons \<Rightarrow> bool" where
  v_loop: "cpc s = CTop \<Longrightarrow> \<not> end_flag s \<Longrightarrow> cv_consumer_step s (s\<lparr>cpc := CLock\<rparr>)"
| v_exit: "cpc s = CTop \<Longrightarrow> end_flag s \<Longrightarrow> cv_consumer_step s (s\<lparr>cpc := CDone\<rparr>)"
| v_test: "cpc s = CLock \<or> cpc s = CSleep \<and> \<not> blocked s \<Longrightarrow>
     \<not> (batch_size \<le> length (data_pool s) \<or> end_flag s) \<Longrightarrow> cv_consumer_step s (s\<lparr>cpc := CTested\<rparr>)"
| v_block: "cpc s = CTested \<Longrightarrow> cv_consumer_step s (s\<lparr>blocked := True, cpc := CSleep\<rparr>)"
| v_take: "cpc s = CLock \<or> cpc s = CSleep \<and> \<not> blocked s \<Longrightarrow>
     batch_size \<le> length (data_pool s) \<or> end_flag s \<Longrightarrow>
     n = (if end_flag s then length (data_pool s) else batch_size) \<Longrightarrow>
     cv_consumer_step s (if n \<le> length (data_pool s) then take_batch n (print_batch n s)\<lparr>cpc := CTop\<rparr>
        else s\<lparr>cpc := CError\<rparr>)"

definition cv_next :: "'a prodcons \<Rightarrow> 'a prodcons \<Rightarrow> bool" where
  "cv_next s t \<longleftrightarrow> producer_step s t \<or> cv_consumer_step s t"

definition cv_any :: "'a prodcons \<Rightarrow> 'a prodcons \<Rightarrow> bool" where
  "cv_any s t \<longleftrightarrow> cv_next s t \<or> spurious s t"

text \<open>\<open>1p1c_mutex.cpp\<close>: one element at a time, taken from the back.\<close>

inductive poll_step :: "'a prodcons \<Rightarrow> 'a prodcons \<Rightarrow> bool" where
  m_push: "ppc s = PLoop \<Longrightarrow> todo s = [x] # bs \<Longrightarrow>
     poll_step s (s\<lparr>data_pool := data_pool s @ [x], todo := bs\<rparr>)"
| m_end: "ppc s = PLoop \<Longrightarrow> todo s = [] \<Longrightarrow> poll_step s (s\<lparr>end_flag := True, ppc := PDone\<rparr>)"
| m_test: "cpc s = CTop \<Longrightarrow> poll_step s (s\<lparr>cpc := if end_flag s then CDone else CLock\<rparr>)"
| m_pop: "cpc s = CLock \<Longrightarrow> data_pool s \<noteq> [] \<Longrightarrow>
     poll_step s (s\<lparr>printed := printed s @ [[last (data_pool s)]], data_pool := butlast (data_pool s), cpc := CTop\<rparr>)"
| m_none: "cpc s = CLock \<Longrightarrow> data_pool s = [] \<Longrightarrow> poll_step s (s\<lparr>cpc := CTop\<rparr>)"

inductive_cases producer_stepE: "producer_step s t"
inductive_cases consumer_stepE: "consumer_step s t"
inductive_cases cv_consumer_stepE: "cv_consumer_step s t"
inductive_cases poll_stepE: "poll_step s t"

subsection \<open>What the pool of a producer-consumer program keeps\<close>

text \<open>The contract of a pool: nothing is lost or invented between the batches and the output.\<close>

locale bag_pool =
  fixes nxt :: "'a prodcons \<Rightarrow> 'a prodcons \<Rightarrow> bool"
  assumes bag_step: "nxt s t \<Longrightarrow>
    mset (concat (printed t)) + mset (data_pool t) + mset (concat (todo t)) =
    mset (concat (printed s)) + mset (data_pool s) + mset (concat (todo s))"
begin

lemma bag_reach:
  "reach (pc_init bs) nxt s \<Longrightarrow>
     mset (concat (printed s)) + mset (data_pool s) + mset (concat (todo s)) = mset (concat bs)"
proof (induction rule: reach.induct)
  case (reach_ini s)
  then show ?case by (simp add: pc_init_def)
next
  case (reach_nxt s t)
  then show ?case using bag_step[of s t] by simp
qed

end

text \<open>The stronger contract: first in, first out.\<close>

locale fifo_pool =
  fixes nxt :: "'a prodcons \<Rightarrow> 'a prodcons \<Rightarrow> bool"
  assumes fifo_step: "nxt s t \<Longrightarrow>
    concat (printed t) @ data_pool t @ concat (todo t) = concat (printed s) @ data_pool s @ concat (todo s)"
begin

lemma fifo_reach:
  "reach (pc_init bs) nxt s \<Longrightarrow> concat (printed s) @ data_pool s @ concat (todo s) = concat bs"
proof (induction rule: reach.induct)
  case (reach_nxt s t)
  then show ?case using fifo_step[of s t] by simp
qed (simp add: pc_init_def)

end

sublocale fifo_pool \<subseteq> bag_pool
proof
  fix s t assume "nxt s t"
  from arg_cong[OF fifo_step[OF this], of mset]
  show "mset (concat (printed t)) + mset (data_pool t) + mset (concat (todo t)) =
    mset (concat (printed s)) + mset (data_pool s) + mset (concat (todo s))" by (simp add: ac_simps)
qed

lemma producer_keeps:
  "producer_step s t \<Longrightarrow> printed t = printed s \<and> counts t = counts s \<and>
     data_pool t @ concat (todo t) = data_pool s @ concat (todo s)"
  by (erule producer_stepE) auto

interpretation cv_fifo: fifo_pool cv_any
  by unfold_locales
    (auto simp: cv_any_def cv_next_def spurious_def take_batch_def print_batch_def
      dest!: producer_keeps elim!: cv_consumer_stepE)

interpretation poll_bag: bag_pool poll_step
proof
  fix s t :: "'a prodcons" assume "poll_step s t"
  then show "mset (concat (printed t)) + mset (data_pool t) + mset (concat (todo t)) =
    mset (concat (printed s)) + mset (data_pool s) + mset (concat (todo s))"
  proof (cases rule: poll_step.cases)
    case m_pop
    then have "mset (data_pool s) = mset (butlast (data_pool s)) + {#last (data_pool s)#}"
      by (metis append_butlast_last_id mset_append mset_single_iff_right)
    with m_pop show ?thesis by simp
  qed simp_all
qed

subsection \<open>The batch is there\<close>

definition wake_inv :: "'a prodcons \<Rightarrow> bool" where
  "wake_inv s \<longleftrightarrow> cpc s \<noteq> CError \<and>
     (cpc s = CSleep \<and> \<not> blocked s \<longrightarrow> batch_size \<le> length (data_pool s) \<or> end_flag s) \<and>
     (ppc s \<noteq> PLoop \<longrightarrow> end_flag s)"

lemma pc_wake_inv_step: "wake_inv s \<Longrightarrow> pc_next s t \<Longrightarrow> wake_inv t"
  unfolding pc_next_def
  by (elim disjE producer_stepE consumer_stepE)
    (auto simp: wake_inv_def batch_size_def take_batch_def take_counted_def Let_def)

interpretation pc_wake: inductive_invariant "pc_init bs" pc_next wake_inv
  by unfold_locales (simp add: pc_init_def wake_inv_def, rule pc_wake_inv_step)

text \<open>The lines of \<open>1p1c_cv.cpp\<close>: full batches, and one last line once the flag is set.\<close>

definition cv_inv :: "'a prodcons \<Rightarrow> bool" where
  "cv_inv s \<longleftrightarrow> cpc s \<noteq> CError \<and> (end_flag s \<longrightarrow> todo s = []) \<and> (ppc s \<noteq> PLoop \<longrightarrow> end_flag s) \<and>
     (\<exists>rows rest. printed s = rows @ rest \<and> (\<forall>r \<in> set rows. length r = 100) \<and> length rest \<le> 1 \<and>
        (rest \<noteq> [] \<longrightarrow> end_flag s \<and> data_pool s = [] \<and> cpc s \<in> {CTop, CDone}))"

lemma cv_invI:
  assumes "cpc s \<noteq> CError" and "end_flag s \<longrightarrow> todo s = []" and "ppc s \<noteq> PLoop \<longrightarrow> end_flag s"
    and "printed s = rows @ rest" and "\<forall>r \<in> set rows. length r = 100" and "length rest \<le> 1"
    and "rest \<noteq> [] \<longrightarrow> end_flag s \<and> data_pool s = [] \<and> cpc s \<in> {CTop, CDone}"
  shows "cv_inv s"
  using assms unfolding cv_inv_def by blast

lemma cv_inv_producer: "cv_inv s \<Longrightarrow> producer_step s t \<Longrightarrow> cv_inv t"
  by (erule producer_stepE) (auto simp: cv_inv_def)

lemma cv_inv_take:
  assumes inv: "cv_inv s" and at: "cpc s = CLock \<or> cpc s = CSleep"
    and ready: "batch_size \<le> length (data_pool s) \<or> end_flag s"
    and n: "n = (if end_flag s then length (data_pool s) else batch_size)"
  shows "n \<le> length (data_pool s) \<and> cv_inv (take_batch n (print_batch n s)\<lparr>cpc := CTop\<rparr>)"
proof -
  from inv at obtain rows where rows: "printed s = rows" "\<forall>r \<in> set rows. length r = 100"
    unfolding cv_inv_def by force
  have le: "n \<le> length (data_pool s)" using ready n by auto
  let ?t = "take_batch n (print_batch n s)\<lparr>cpc := CTop\<rparr>"
  have keep: "end_flag s \<longrightarrow> todo s = []" "ppc s \<noteq> PLoop \<longrightarrow> end_flag s" using inv by (auto simp: cv_inv_def)
  show ?thesis
  proof (cases "end_flag s")
    case True
    with n keep rows have "cv_inv ?t"
      by (intro cv_invI[of _ rows "[data_pool s]"]) (auto simp: take_batch_def print_batch_def)
    with le show ?thesis by simp
  next
    case False
    with n le keep rows have "cv_inv ?t"
      by (intro cv_invI[of _ "rows @ [take n (data_pool s)]" "[]"])
        (auto simp: take_batch_def print_batch_def batch_size_def)
    with le show ?thesis by simp
  qed
qed

lemma cv_inv_consumer:
  assumes inv: "cv_inv s" and step: "cv_consumer_step s t"
  shows "cv_inv t"
  using step
proof (cases rule: cv_consumer_step.cases)
  case (v_take n)
  then have "n \<le> length (data_pool s) \<and> cv_inv (take_batch n (print_batch n s)\<lparr>cpc := CTop\<rparr>)"
    by (intro cv_inv_take[OF inv]) auto
  with v_take(1) show ?thesis by simp
next
  case v_test
  with inv show ?thesis by (auto simp: cv_inv_def)
qed (use inv in \<open>auto simp: cv_inv_def\<close>)

lemma cv_inv_step: "cv_inv s \<Longrightarrow> cv_any s t \<Longrightarrow> cv_inv t"
  unfolding cv_any_def cv_next_def spurious_def
  by (elim disjE conjE) (blast intro: cv_inv_producer cv_inv_consumer, blast intro: cv_inv_producer cv_inv_consumer, simp add: cv_inv_def)

interpretation cv_safe: inductive_invariant "pc_init bs" cv_any cv_inv
  by unfold_locales (simp add: pc_init_def cv_inv_def, rule cv_inv_step)

text \<open>The lines of \<open>1p1c.cpp\<close>: each pair of sizes is one batch of the input gone.\<close>

definition counted :: "'a list list \<Rightarrow> 'a prodcons \<Rightarrow> bool" where
  "counted bs s \<longleftrightarrow> (end_flag s \<longrightarrow> todo s = []) \<and> (\<forall>(b, a) \<in> set (counts s). b = a + 100) \<and>
     100 * length (counts s) \<le> length (concat bs) \<and> (cpc s = CTail \<longrightarrow> end_flag s) \<and>
     (if cpc s = CDone then data_pool s = [] \<and> todo s = []
      else data_pool s @ concat (todo s) = drop (100 * length (counts s)) (concat bs))"

lemma counted_take:
  assumes c: "counted bs s" and at: "cpc s = CSleep" and len: "batch_size \<le> length (data_pool s)"
  shows "counted bs (take_counted batch_size s\<lparr>cpc := CTop\<rparr>)"
proof -
  have d: "data_pool s @ concat (todo s) = drop (100 * length (counts s)) (concat bs)"
    using c at by (simp add: counted_def)
  have e: "drop 100 (data_pool s) @ concat (todo s) = drop 100 (data_pool s @ concat (todo s))"
    using len by (simp add: batch_size_def)
  have l: "100 + 100 * length (counts s) \<le> length (concat bs)"
    using arg_cong[OF d, of length] len by (simp add: batch_size_def del: length_concat)
  show ?thesis using c at len l e d
    by (auto simp: counted_def take_counted_def take_batch_def batch_size_def Let_def add.commute simp del: length_concat)
qed

lemma counted_consumer:
  assumes c: "counted bs s" and step: "consumer_step s t"
  shows "counted bs t"
  using step
proof (cases rule: consumer_step.cases)
  case c_take
  with counted_take[OF c] show ?thesis by simp
qed (use c in \<open>auto simp: counted_def take_batch_def\<close>)

lemma counted_producer: "counted bs s \<Longrightarrow> producer_step s t \<Longrightarrow> counted bs t"
  by (erule producer_stepE) (auto simp: counted_def split: if_splits)

lemma counted_step: "counted bs s \<Longrightarrow> pc_any s t \<Longrightarrow> counted bs t"
  unfolding pc_any_def pc_next_def spurious_def
  by (elim disjE conjE) (auto intro: counted_producer counted_consumer, simp add: counted_def)

interpretation pc_counted: inductive_invariant "pc_init bs" pc_any "counted bs"
  by unfold_locales (simp add: pc_init_def counted_def, rule counted_step)

subsection \<open>Runs in which the consumer is slow\<close>

lemma produce_all:
  assumes "ppc s = PLoop" and "cpc s \<noteq> CTested"
  shows "\<exists>t. producer_step\<^sup>*\<^sup>* s t \<and> todo t = [] \<and> ppc t = PLoop \<and> cpc t = cpc s \<and> end_flag t = end_flag s \<and>
    data_pool t = data_pool s @ concat (todo s) \<and> printed t = printed s \<and> counts t = counts s"
  using assms
proof (induction "todo s" arbitrary: s)
  case Nil
  then show ?case by (intro exI[of _ s]) simp
next
  case (Cons b bs)
  let ?u = "s\<lparr>data_pool := data_pool s @ b, todo := bs,
       blocked := blocked s \<and> length (data_pool s @ b) < 100\<rparr>"
  have step: "producer_step s ?u" using Cons.prems Cons.hyps(2) by (intro p_batch) simp_all
  obtain t where "producer_step\<^sup>*\<^sup>* ?u t" "todo t = []" "ppc t = PLoop" "cpc t = cpc s"
    "end_flag t = end_flag s" "data_pool t = data_pool s @ b @ concat bs" "printed t = printed s" "counts t = counts s"
    using Cons.hyps(1)[of ?u] Cons.prems by auto
  moreover from step this(1) have "producer_step\<^sup>*\<^sup>* s t" by (rule converse_rtranclp_into_rtranclp)
  ultimately show ?case using Cons.hyps(2)[symmetric] by auto
qed

lemma rtranclp_sub: "r\<^sup>*\<^sup>* s t \<Longrightarrow> (\<And>a b. r a b \<Longrightarrow> q a b) \<Longrightarrow> q\<^sup>*\<^sup>* s t"
  by (metis mono_rtranclp)

text \<open>The producer has produced everything before the consumer's first step.\<close>

lemma all_produced:
  assumes "\<And>a b. producer_step a b \<Longrightarrow> nxt a b"
  shows "\<exists>t. reach (pc_init bs) nxt t \<and> todo t = [] \<and> ppc t = PLoop \<and> cpc t = CTop \<and> \<not> end_flag t \<and>
    data_pool t = concat bs \<and> printed t = [] \<and> counts t = []"
proof -
  let ?s = "\<lparr>data_pool = [], end_flag = False, blocked = False, todo = bs, ppc = PLoop, cpc = CTop,
     printed = [], counts = []\<rparr>"
  have "reach (pc_init bs) nxt ?s" by (rule reach_ini) (simp add: pc_init_def)
  moreover obtain t where t: "producer_step\<^sup>*\<^sup>* ?s t" "todo t = []" "ppc t = PLoop" "cpc t = CTop"
    "\<not> end_flag t" "data_pool t = concat bs" "printed t = []" "counts t = []"
    using produce_all[of ?s] by auto
  moreover have "nxt\<^sup>*\<^sup>* ?s t" using rtranclp_sub[OF t(1)] assms by blast
  ultimately show ?thesis by (blast intro: reach_rtranclp)
qed

subsection \<open>Properties\<close>

text \<open>
  C9. What the three programs write, in every interleaving. (1) \<open>1p1c_cv.cpp\<close>, spurious wake-ups
  included: the consumer never erases past the end of the list, the elements it has
  written, then the pool, then what is still to be produced are the input in its order,
  every line has 100 elements but the last, and a last line of another length is written
  only after the producer has ended and leaves the pool empty. (2) \<open>1p1c.cpp\<close>: as long as \<open>wait\<close>
  returns only when notified, the consumer does not erase past the end; spurious wake-ups
  included, the two sizes of each of its lines differ by 100 and the pool is the input
  without 100 elements per line, until the consumer ends and has emptied it. (3)
  \<open>1p1c_mutex.cpp\<close>, which takes from the back: the same elements as multisets.
\<close>

theorem pools_conserve:
  "(reach (pc_init bs) cv_any s \<longrightarrow> cpc s \<noteq> CError \<and>
      concat (printed s) @ data_pool s @ concat (todo s) = concat bs \<and>
      (\<exists>rows rest. printed s = rows @ rest \<and> (\<forall>r \<in> set rows. length r = 100) \<and> length rest \<le> 1 \<and>
         (rest \<noteq> [] \<longrightarrow> end_flag s \<and> todo s = [] \<and> data_pool s = []))) \<and>
   (reach (pc_init bs) pc_next s \<longrightarrow> cpc s \<noteq> CError) \<and>
   (reach (pc_init bs) pc_any s \<longrightarrow> (\<forall>(before, after) \<in> set (counts s). before = after + 100) \<and>
      (if cpc s = CDone then data_pool s = [] \<and> todo s = []
       else data_pool s @ concat (todo s) = drop (100 * length (counts s)) (concat bs))) \<and>
   (reach (pc_init bs) poll_step s \<longrightarrow>
      mset (concat (printed s)) + mset (data_pool s) + mset (concat (todo s)) = mset (concat bs))"
proof (intro conjI impI)
  assume r: "reach (pc_init bs) cv_any s"
  then have i: "cv_inv s" by (rule cv_safe.reach_holds)
  then show "cpc s \<noteq> CError" by (simp add: cv_inv_def)
  show "concat (printed s) @ data_pool s @ concat (todo s) = concat bs" using r by (rule cv_fifo.fifo_reach)
  show "\<exists>rows rest. printed s = rows @ rest \<and> (\<forall>r \<in> set rows. length r = 100) \<and> length rest \<le> 1 \<and>
         (rest \<noteq> [] \<longrightarrow> end_flag s \<and> todo s = [] \<and> data_pool s = [])"
    using i unfolding cv_inv_def by metis
next
  assume "reach (pc_init bs) pc_next s"
  then show "cpc s \<noteq> CError" using pc_wake.reach_holds by (auto simp: wake_inv_def)
next
  assume "reach (pc_init bs) pc_any s"
  then have c: "counted bs s" by (rule pc_counted.reach_holds)
  then show "\<forall>(before, after) \<in> set (counts s). before = after + 100" by (simp add: counted_def)
  from c show "if cpc s = CDone then data_pool s = [] \<and> todo s = []
       else data_pool s @ concat (todo s) = drop (100 * length (counts s)) (concat bs)"
    by (auto simp: counted_def)
next
  assume "reach (pc_init bs) poll_step s"
  then show "mset (concat (printed s)) + mset (data_pool s) + mset (concat (todo s)) = mset (concat bs)"
    by (rule poll_bag.bag_reach)
qed

theorem pools_conserve_witness:
  "\<exists>s. reach (pc_init [replicate 60 (1::int), replicate 60 2]) cv_any s \<and>
    printed s = [replicate 60 1 @ replicate 40 2] \<and> data_pool s = replicate 20 2 \<and>
    concat (printed s) @ data_pool s @ concat (todo s) = replicate 60 1 @ replicate 60 2"
proof -
  let ?bs = "[replicate 60 (1::int), replicate 60 2]"
  obtain u where u: "reach (pc_init ?bs) cv_any u" "todo u = []" "cpc u = CTop" "\<not> end_flag u"
      "data_pool u = concat ?bs" "printed u = []"
    using all_produced[of cv_any ?bs] by (auto simp: cv_any_def cv_next_def)
  let ?v = "u\<lparr>cpc := CLock\<rparr>"
  let ?w = "take_batch 100 (print_batch 100 ?v)\<lparr>cpc := CTop\<rparr>"
  have v: "cv_consumer_step u ?v" using u by (intro v_loop)
  have "cv_consumer_step ?v (if 100 \<le> length (data_pool ?v) then ?w else ?v\<lparr>cpc := CError\<rparr>)"
    using u by (intro v_take) (auto simp: batch_size_def)
  then have w: "cv_consumer_step ?v ?w" using u by simp
  have r: "reach (pc_init ?bs) cv_any ?w"
    using u(1) v w unfolding cv_any_def cv_next_def by (blast intro: reach_nxt)
  have p: "printed ?w = [replicate 60 1 @ replicate 40 2]" "data_pool ?w = replicate 20 2"
    using u by (simp_all add: take_batch_def print_batch_def)
  with pools_conserve[of ?bs ?w] r show ?thesis by (intro exI[of _ ?w]) simp
qed

text \<open>
  \<open>wait\<close> without a predicate: as long as \<open>wait\<close> returns only when notified, the consumer of \<open>1p1c.cpp\<close>
  always finds the 100 elements it erases; but one spurious wake-up makes it advance
  past the end of the list.
\<close>

theorem plain_wait_overrun:
  "(\<forall>s. reach (pc_init bs) pc_next s \<longrightarrow> cpc s \<noteq> CError) \<and>
   (\<exists>s. reach (pc_init bs) pc_any s \<and> cpc s = CError)"
proof
  show "\<forall>s. reach (pc_init bs) pc_next s \<longrightarrow> cpc s \<noteq> CError"
    using pc_wake.reach_holds by (auto simp: wake_inv_def)
next
  let ?s0 = "\<lparr>data_pool = [], end_flag = False, blocked = False, todo = bs, ppc = PLoop, cpc = CTop,
     printed = [], counts = []\<rparr>"
  let ?s1 = "?s0\<lparr>blocked := True, cpc := CSleep\<rparr>" let ?s2 = "?s1\<lparr>blocked := False\<rparr>"
  have "reach (pc_init bs) pc_any ?s0" by (rule reach_ini) (simp add: pc_init_def)
  moreover have "consumer_step ?s0 ?s1" by (rule c_wait) simp
  moreover have "spurious ?s1 ?s2" by (simp add: spurious_def)
  moreover have "consumer_step ?s2 (?s2\<lparr>cpc := CError\<rparr>)" by (rule c_overrun) (simp_all add: batch_size_def)
  ultimately have "reach (pc_init bs) pc_any (?s2\<lparr>cpc := CError\<rparr>)"
    unfolding pc_any_def pc_next_def by (blast intro: reach_nxt)
  moreover have "cpc (?s2\<lparr>cpc := CError\<rparr>) = CError" by simp
  ultimately show "\<exists>s. reach (pc_init bs) pc_any s \<and> cpc s = CError" by blast
qed

theorem plain_wait_overrun_witness: "\<exists>s. reach (pc_init [[1::int]]) pc_any s \<and> cpc s = CError"
  using plain_wait_overrun[of "[[1::int]]"] by blast

text \<open>
  C27. The last notification can be lost in \<open>1p1c.cpp\<close>: whatever is produced, there is a run in which the
  producer ends before the consumer first waits; the consumer then waits for ever, no
  step is left, the data stays in the pool and \<open>main\<close> does not return from \<open>join\<close>.
\<close>

theorem plain_wait_hangs:
  "\<exists>s. reach (pc_init bs) pc_next s \<and> (\<forall>t. \<not> pc_next s t) \<and> cpc s = CSleep \<and> ppc s = PDone \<and>
    counts s = [] \<and> data_pool s = concat bs"
proof -
  obtain u where u: "reach (pc_init bs) pc_next u" "todo u = []" "ppc u = PLoop" "cpc u = CTop"
    "data_pool u = concat bs" "counts u = []"
    using all_produced[of pc_next bs] by (auto simp: pc_next_def)
  let ?a = "u\<lparr>end_flag := True, ppc := PFlag\<rparr>" let ?b = "?a\<lparr>blocked := False, ppc := PDone\<rparr>"
  let ?c = "?b\<lparr>blocked := True, cpc := CSleep\<rparr>"
  have "producer_step u ?a" using u by (intro p_end)
  moreover have "producer_step ?a ?b" by (rule p_notify) simp
  moreover have "consumer_step ?b ?c" using u by (intro c_wait) simp
  ultimately have "reach (pc_init bs) pc_next ?c" using u(1) unfolding pc_next_def by (blast intro: reach_nxt)
  moreover have "\<not> pc_next ?c t" for t
    unfolding pc_next_def by (auto elim: producer_stepE consumer_stepE)
  ultimately show ?thesis using u by (intro exI[of _ ?c]) simp
qed

end
