(* ===== verification/Commit_Pool.thy ===== *)
theory Commit_Pool
  imports Sync
begin

text \<open>
  The class \<open>threadpool\<close> of \<open>code/boost_doc/Function/threadpool.cpp\<close>: \<open>N\<close> workers, the thread
  that owns the pool, calls \<open>commit\<close> for each task of a list and then destroys it. Unlike
  \<open>fixed_thread_pool\<close>, the flag \<open>stoped\<close> is stored without the mutex, the loop head tests
  it, and the destructor joins.

  A critical section of \<open>m_lock\<close> is one step, except that a worker whose predicate is false
  keeps the mutex (\<open>holder\<close>) until \<open>wait\<close> has put it to sleep: the owner, which needs no
  mutex to store the flag and to notify, can run in between.
\<close>

datatype 'k cw =
    CWTop        \<comment> \<open>\<open>while (!stoped)\<close>\<close>
  | CWLock       \<comment> \<open>about to lock and evaluate the predicate\<close>
  | CWTested     \<comment> \<open>predicate false, still holding \<open>m_lock\<close>\<close>
  | CWSleep      \<comment> \<open>in \<open>wait\<close>\<close>
  | CWTaken 'k   \<comment> \<open>task popped, before \<open>idlThrNum--\<close>\<close>
  | CWRun 'k     \<comment> \<open>in \<open>task()\<close>\<close>
  | CWDone

datatype copc = COIdle | CONotify | CDStored | CDNotified | CDJoined

record 'k cpool =
  tasks :: "'k list"
  stoped :: bool
  idlThrNum :: int
  cwpc :: "nat \<Rightarrow> 'k cw"
  holder :: "nat option"
  asleep :: "nat set"
  copc :: copc
  todo :: "'k list"
  submitted :: "'k list"
  taken :: "'k list"
  finished :: "'k list"

definition can_test :: "nat \<Rightarrow> 'k cpool \<Rightarrow> bool" where
  "can_test i s \<longleftrightarrow> (cwpc s i = CWLock \<or> cwpc s i = CWSleep \<and> i \<notin> asleep s) \<and> holder s = None"

inductive cworker_step :: "nat \<Rightarrow> 'k cpool \<Rightarrow> 'k cpool \<Rightarrow> bool" for i :: nat where
  cw_go: "cwpc s i = CWTop \<Longrightarrow> \<not> stoped s \<Longrightarrow> cworker_step i s (s\<lparr>cwpc := (cwpc s)(i := CWLock)\<rparr>)"
| cw_leave: "cwpc s i = CWTop \<Longrightarrow> stoped s \<Longrightarrow> cworker_step i s (s\<lparr>cwpc := (cwpc s)(i := CWDone)\<rparr>)"
| cw_take: "can_test i s \<Longrightarrow> tasks s = k # ks \<Longrightarrow>
     cworker_step i s (s\<lparr>tasks := ks, taken := taken s @ [k], cwpc := (cwpc s)(i := CWTaken k)\<rparr>)"
| cw_return: "can_test i s \<Longrightarrow> tasks s = [] \<Longrightarrow> stoped s \<Longrightarrow>
     cworker_step i s (s\<lparr>cwpc := (cwpc s)(i := CWDone)\<rparr>)"
| cw_false: "can_test i s \<Longrightarrow> tasks s = [] \<Longrightarrow> \<not> stoped s \<Longrightarrow>
     cworker_step i s (s\<lparr>holder := Some i, cwpc := (cwpc s)(i := CWTested)\<rparr>)"
| cw_block: "cwpc s i = CWTested \<Longrightarrow>
     cworker_step i s (s\<lparr>holder := None, asleep := insert i (asleep s), cwpc := (cwpc s)(i := CWSleep)\<rparr>)"
| cw_begin: "cwpc s i = CWTaken k \<Longrightarrow>
     cworker_step i s (s\<lparr>idlThrNum := idlThrNum s - 1, cwpc := (cwpc s)(i := CWRun k)\<rparr>)"
| cw_finish: "cwpc s i = CWRun k \<Longrightarrow>
     cworker_step i s (s\<lparr>idlThrNum := idlThrNum s + 1, finished := finished s @ [k],
       cwpc := (cwpc s)(i := CWTop)\<rparr>)"

text \<open>\<open>commit\<close> (which throws when \<open>stoped\<close> is set) and the destructor.\<close>

inductive cowner_step :: "nat \<Rightarrow> 'k cpool \<Rightarrow> 'k cpool \<Rightarrow> bool" for N :: nat where
  co_commit: "copc s = COIdle \<Longrightarrow> todo s = k # ks \<Longrightarrow> \<not> stoped s \<Longrightarrow> holder s = None \<Longrightarrow>
     cowner_step N s (s\<lparr>tasks := tasks s @ [k], submitted := submitted s @ [k], todo := ks, copc := CONotify\<rparr>)"
| co_notify: "copc s = CONotify \<Longrightarrow> j \<in> asleep s \<Longrightarrow>
     cowner_step N s (s\<lparr>asleep := asleep s - {j}, copc := COIdle\<rparr>)"
| co_notify_none: "copc s = CONotify \<Longrightarrow> asleep s = {} \<Longrightarrow> cowner_step N s (s\<lparr>copc := COIdle\<rparr>)"
| cd_store: "copc s = COIdle \<Longrightarrow> todo s = [] \<Longrightarrow> cowner_step N s (s\<lparr>stoped := True, copc := CDStored\<rparr>)"
| cd_notify: "copc s = CDStored \<Longrightarrow> cowner_step N s (s\<lparr>asleep := {}, copc := CDNotified\<rparr>)"
| cd_join: "copc s = CDNotified \<Longrightarrow> \<forall>i<N. cwpc s i = CWDone \<Longrightarrow> cowner_step N s (s\<lparr>copc := CDJoined\<rparr>)"

text \<open>The constructor with \<open>size\<close>; fewer than one thread become one.\<close>

definition pool_size :: "nat \<Rightarrow> nat" where
  "pool_size sz = (if sz < 1 then 1 else sz)"

definition cp_init :: "nat \<Rightarrow> 'k list \<Rightarrow> 'k cpool \<Rightarrow> bool" where
  "cp_init N ts s \<longleftrightarrow> s = \<lparr>tasks = [], stoped = False, idlThrNum = int N, cwpc = (\<lambda>_. CWTop), holder = None,
     asleep = {}, copc = COIdle, todo = ts, submitted = [], taken = [], finished = []\<rparr>"

definition cp_next :: "nat \<Rightarrow> 'k cpool \<Rightarrow> 'k cpool \<Rightarrow> bool" where
  "cp_next N s t \<longleftrightarrow> (\<exists>i<N. cworker_step i s t) \<or> cowner_step N s t"

definition cp_any :: "nat \<Rightarrow> 'k cpool \<Rightarrow> 'k cpool \<Rightarrow> bool" where
  "cp_any N s t \<longleftrightarrow> cp_next N s t \<or> (\<exists>j \<in> asleep s. t = s\<lparr>asleep := asleep s - {j}\<rparr>)"

inductive_cases cworker_stepE: "cworker_step i s t"
inductive_cases cowner_stepE: "cowner_step N s t"

subsection \<open>The invariant\<close>

fun carried :: "'k cw \<Rightarrow> 'k multiset" where
  "carried (CWTaken k) = {#k#}" | "carried (CWRun k) = {#k#}" | "carried _ = {#}"

fun running :: "'k cw \<Rightarrow> int" where
  "running (CWRun k) = 1" | "running _ = 0"

definition cp_inv :: "nat \<Rightarrow> 'k list \<Rightarrow> 'k cpool \<Rightarrow> bool" where
  "cp_inv N ts s \<longleftrightarrow> submitted s = taken s @ tasks s \<and> submitted s @ todo s = ts \<and>
     mset (taken s) = mset (finished s) + (\<Sum>i<N. carried (cwpc s i)) \<and>
     int N = idlThrNum s + (\<Sum>i<N. running (cwpc s i))"

lemma cp_inv_worker:
  assumes inv: "cp_inv N ts s" and i: "i < N" and step: "cworker_step i s t"
  shows "cp_inv N ts t"
proof -
  have "(\<Sum>j<N. carried (cwpc t j)) + carried (cwpc s i) = (\<Sum>j<N. carried (cwpc s j)) + carried (cwpc t i)"
    using i step by (intro sum_moved) (auto elim!: cworker_stepE)
  moreover have "mset (taken t) + carried (cwpc s i) + mset (finished s) =
      mset (taken s) + carried (cwpc t i) + mset (finished t)"
    using step by (cases rule: cworker_step.cases) (auto simp: can_test_def)
  moreover have "mset (taken s) = mset (finished s) + (\<Sum>j<N. carried (cwpc s j))"
    using inv by (simp add: cp_inv_def)
  ultimately have ex: "mset (taken t) = mset (finished t) + (\<Sum>j<N. carried (cwpc t j))" by (rule balance_moved)
  have "(\<Sum>j<N. running (cwpc t j)) + running (cwpc s i) = (\<Sum>j<N. running (cwpc s j)) + running (cwpc t i)"
    using i step by (intro sum_moved) (auto elim!: cworker_stepE)
  moreover have "idlThrNum t + running (cwpc t i) = idlThrNum s + running (cwpc s i)"
    using step by (cases rule: cworker_step.cases) (auto simp: can_test_def)
  moreover have "int N = idlThrNum s + (\<Sum>j<N. running (cwpc s j))" using inv by (simp add: cp_inv_def)
  ultimately have idl: "int N = idlThrNum t + (\<Sum>j<N. running (cwpc t j))" by linarith
  have "submitted t = taken t @ tasks t \<and> submitted t @ todo t = ts"
    using step inv by (cases rule: cworker_step.cases) (auto simp: cp_inv_def)
  with ex idl show ?thesis by (auto simp: cp_inv_def)
qed

lemma cp_inv_owner: "cp_inv N ts s \<Longrightarrow> cowner_step N s t \<Longrightarrow> cp_inv N ts t"
  by (erule cowner_stepE) (auto simp: cp_inv_def)

interpretation cp_safe: inductive_invariant "cp_init N ts" "cp_any N" "cp_inv N ts"
proof
  show "cp_init N ts s \<Longrightarrow> cp_inv N ts s" for s by (simp add: cp_init_def cp_inv_def)
  show "cp_inv N ts s \<Longrightarrow> cp_any N s t \<Longrightarrow> cp_inv N ts t" for s t
    unfolding cp_any_def cp_next_def
    by (elim disjE exE bexE conjE) (auto intro: cp_inv_worker cp_inv_owner, auto simp: cp_inv_def)
qed

lemma reach_cworker:
  "reach ini (cp_next N) s \<Longrightarrow> i < N \<Longrightarrow> cworker_step i s t \<Longrightarrow> reach ini (cp_next N) t"
  by (erule reach_nxt) (auto simp: cp_next_def)

lemma reach_cowner: "reach ini (cp_next N) s \<Longrightarrow> cowner_step N s t \<Longrightarrow> reach ini (cp_next N) t"
  by (erule reach_nxt) (auto simp: cp_next_def)

subsection \<open>Properties\<close>

text \<open>
  C28. The commit pool hands out each task once: under any interleaving and spurious wake-ups, the tasks
  leave the queue in the order of \<open>commit\<close>, each is executed at most once and by one
  worker, and \<open>idlCount\<close> is the number of workers not executing a task, between 0 and \<open>N\<close>.
\<close>

theorem commit_pool_safety:
  assumes "reach (cp_init N ts) (cp_any N) s"
  shows "ts = taken s @ tasks s @ todo s \<and>
    mset (taken s) = mset (finished s) + (\<Sum>i<N. carried (cwpc s i)) \<and>
    idlThrNum s = int N - (\<Sum>i<N. running (cwpc s i)) \<and> 0 \<le> idlThrNum s \<and> idlThrNum s \<le> int N"
proof -
  have inv: "cp_inv N ts s" using assms by (rule cp_safe.reach_holds)
  have "running p \<in> {0, 1}" for p :: "'a cw" by (cases p) auto
  then have b: "0 \<le> running p" "running p \<le> 1" for p :: "'a cw" by (metis empty_iff insertE zero_le_one order_refl)+
  have "0 \<le> (\<Sum>i<N. running (cwpc s i))" by (intro sum_nonneg) (simp add: b)
  moreover have "(\<Sum>i<N. running (cwpc s i)) \<le> (\<Sum>i<N. 1)" by (intro sum_mono) (simp add: b)
  ultimately show ?thesis using inv by (auto simp: cp_inv_def)
qed

lemma cp_reach_init: "\<exists>s. reach (cp_init N ts) nxt s \<and> cp_init N ts s"
  by (auto simp: cp_init_def intro: reach_ini)

theorem commit_pool_safety_witness:
  "\<exists>s. reach (cp_init 2 [7::nat]) (cp_any 2) s \<and> [7] = taken s @ tasks s @ todo s \<and> idlThrNum s \<le> 2"
  using cp_reach_init[of 2 "[7::nat]" "cp_any 2"] commit_pool_safety[of 2 "[7::nat]"] by fastforce

text \<open>
  C29. The destructor of the commit pool can hang: \<open>stoped\<close> is stored and announced without the mutex, so a
  worker that has just found its predicate false goes to sleep after the announcement. A
  pool with one worker and no task reaches a state in which no thread can go on: the
  worker sleeps and \<open>join\<close> waits for it.
\<close>

theorem commit_pool_hangs:
  "\<exists>s. reach (cp_init 1 []) (cp_next 1) s \<and> (\<forall>t. \<not> cp_next 1 s t) \<and> stoped s \<and> copc s = CDNotified \<and>
    cwpc s 0 = CWSleep"
proof -
  let ?s0 = "\<lparr>tasks = [], stoped = False, idlThrNum = int 1, cwpc = (\<lambda>_. CWTop), holder = None,
     asleep = {}, copc = COIdle, todo = [], submitted = [], taken = [], finished = []\<rparr> :: 'a cpool"
  let ?s1 = "?s0\<lparr>cwpc := (cwpc ?s0)(0 := CWLock)\<rparr>"
  let ?s2 = "?s1\<lparr>holder := Some 0, cwpc := (cwpc ?s1)(0 := CWTested)\<rparr>"
  let ?s3 = "?s2\<lparr>stoped := True, copc := CDStored\<rparr>"
  let ?s4 = "?s3\<lparr>asleep := {}, copc := CDNotified\<rparr>"
  let ?s5 = "?s4\<lparr>holder := None, asleep := insert 0 (asleep ?s4), cwpc := (cwpc ?s4)(0 := CWSleep)\<rparr>"
  have "reach (cp_init 1 []) (cp_next 1) ?s0" by (rule reach_ini) (simp add: cp_init_def)
  then have "reach (cp_init 1 []) (cp_next 1) ?s1" by (rule reach_cworker[OF _ _ cw_go]) simp_all
  then have "reach (cp_init 1 []) (cp_next 1) ?s2"
    by (rule reach_cworker[OF _ _ cw_false]) (simp_all add: can_test_def)
  then have "reach (cp_init 1 []) (cp_next 1) ?s3" by (rule reach_cowner[OF _ cd_store]) simp_all
  then have "reach (cp_init 1 []) (cp_next 1) ?s4" by (rule reach_cowner[OF _ cd_notify]) simp
  then have "reach (cp_init 1 []) (cp_next 1) ?s5" by (rule reach_cworker[OF _ _ cw_block]) simp_all
  moreover have "\<not> cp_next 1 ?s5 t" for t
    by (auto simp: cp_next_def can_test_def elim!: cworker_stepE cowner_stepE)
  ultimately show ?thesis by (intro exI[of _ ?s5]) simp
qed

text \<open>
  The commit pool drops tasks: a worker tests \<open>stoped\<close> before it looks at the queue, so tasks committed
  before the destructor may never run. A pool with one worker reaches the end of its
  destructor with every committed task still queued and none executed, and their futures
  are never made ready.
\<close>

theorem commit_pool_drops:
  "\<exists>s. reach (cp_init 1 [k]) (cp_next 1) s \<and> copc s = CDJoined \<and> submitted s = [k] \<and> tasks s = [k] \<and> finished s = []"
proof -
  let ?s0 = "\<lparr>tasks = [], stoped = False, idlThrNum = int 1, cwpc = (\<lambda>_. CWTop), holder = None,
     asleep = {}, copc = COIdle, todo = [k], submitted = [], taken = [], finished = []\<rparr>"
  let ?s1 = "?s0\<lparr>tasks := tasks ?s0 @ [k], submitted := submitted ?s0 @ [k], todo := [], copc := CONotify\<rparr>"
  let ?s2 = "?s1\<lparr>copc := COIdle\<rparr>" let ?s3 = "?s2\<lparr>stoped := True, copc := CDStored\<rparr>"
  let ?s4 = "?s3\<lparr>asleep := {}, copc := CDNotified\<rparr>" let ?s5 = "?s4\<lparr>cwpc := (cwpc ?s4)(0 := CWDone)\<rparr>"
  let ?s6 = "?s5\<lparr>copc := CDJoined\<rparr>"
  have "reach (cp_init 1 [k]) (cp_next 1) ?s0" by (rule reach_ini) (simp add: cp_init_def)
  then have "reach (cp_init 1 [k]) (cp_next 1) ?s1" by (rule reach_cowner[OF _ co_commit]) simp_all
  then have "reach (cp_init 1 [k]) (cp_next 1) ?s2" by (rule reach_cowner[OF _ co_notify_none]) simp_all
  then have "reach (cp_init 1 [k]) (cp_next 1) ?s3" by (rule reach_cowner[OF _ cd_store]) simp_all
  then have "reach (cp_init 1 [k]) (cp_next 1) ?s4" by (rule reach_cowner[OF _ cd_notify]) simp
  then have "reach (cp_init 1 [k]) (cp_next 1) ?s5" by (rule reach_cworker[OF _ _ cw_leave]) simp_all
  then have "reach (cp_init 1 [k]) (cp_next 1) ?s6" by (rule reach_cowner[OF _ cd_join]) simp_all
  then show ?thesis by (intro exI[of _ ?s6]) simp
qed

end
