(* ===== verification/Time_Stamp.thy ===== *)
theory Time_Stamp
  imports Posix_IO
begin

text \<open>
  \<open>code/lang/time_stump.cpp\<close>: the wall-clock stamp of a millisecond count. \<open>gmtime\<close> of the C
  library is modelled by the rule of the Gregorian calendar (\<open>civil\<close>), \<open>sprintf\<close> by the
  string it produces; the 64-bit arithmetic of \<open>gettm\<close> is written out.
\<close>

subsection \<open>\<open>gmtime\<close>\<close>

definition leap :: "nat \<Rightarrow> bool" where
  "leap y \<longleftrightarrow> 4 dvd y \<and> \<not> 100 dvd y \<or> 400 dvd y"

definition year_days :: "nat \<Rightarrow> nat" where
  "year_days y = (if leap y then 366 else 365)"

function year_of :: "nat \<Rightarrow> nat \<Rightarrow> nat \<times> nat" where
  "year_of d y = (if d < year_days y then (y, d) else year_of (d - year_days y) (y + 1))"
  by pat_completeness auto
termination by (relation "measure fst") (auto simp: year_days_def split: if_splits)

declare year_of.simps [simp del]

definition month_days :: "nat \<Rightarrow> nat list" where
  "month_days y = [31, if leap y then 29 else 28, 31, 30, 31, 30, 31, 31, 30, 31, 30, 31]"

text \<open>The month (from 0) and the day of it (from 0), given the lengths of the months.\<close>

fun month_of :: "nat list \<Rightarrow> nat \<Rightarrow> nat \<times> nat" where
  "month_of [] d = (0, d)"
| "month_of (n # ns) d = (if d < n then (0, d) else let (m, r) = month_of ns (d - n) in (Suc m, r))"

record tm =
  tm_year :: nat       \<comment> \<open>years since 1900\<close>
  tm_mon :: nat
  tm_mday :: nat
  tm_hour :: nat
  tm_min :: nat
  tm_sec :: nat

definition gmtime :: "nat \<Rightarrow> tm" where
  "gmtime t =
     (let (y, d) = year_of (t div 86400) 1970; (m, r) = month_of (month_days y) d; s = t mod 86400 in
      \<lparr>tm_year = y - 1900, tm_mon = m, tm_mday = r + 1, tm_hour = s div 3600, tm_min = s div 60 mod 60,
       tm_sec = s mod 60\<rparr>)"

subsection \<open>The functions of the file\<close>

text \<open>
  \<open>gettm\<close>: the sum wraps at 64 bits; converting the milliseconds to the clock's nanoseconds must not
  overflow a signed 64-bit count.
\<close>

definition gettm :: "nat \<Rightarrow> c_error + tm" where
  "gettm timestamp =
     (let milli = (timestamp + 8 * 60 * 60 * 1000) mod 2 ^ 64 in
      if milli * 10 ^ 6 < 2 ^ 63 then Inr (gmtime (milli div 1000)) else Inl SignedOverflow)"

text \<open>\<open>%0wd\<close>.\<close>

fun dec :: "nat \<Rightarrow> string" where
  "dec n = (if n < 10 then [char_of (48 + n)] else dec (n div 10) @ [char_of (48 + n mod 10)])"

declare dec.simps [simp del]

definition pad0 :: "nat \<Rightarrow> nat \<Rightarrow> string" where
  "pad0 w n = replicate (w - length (dec n)) (CHR ''0'') @ dec n"

definition stamp :: "tm \<Rightarrow> nat \<Rightarrow> string" where
  "stamp info timep =
     ''['' @ pad0 4 (tm_year info + 1900) @ ''-'' @ pad0 2 (tm_mon info + 1) @ ''-'' @ pad0 2 (tm_mday info) @ '' '' @
     pad0 2 (tm_hour info) @ '':'' @ pad0 2 (tm_min info) @ '':'' @ pad0 2 (tm_sec info) @ ''.'' @
     pad0 6 (timep mod 1000000) @ '']''"

text \<open>\<open>sprintf\<close> into an array of \<open>n\<close> characters stores the string and its terminator.\<close>

definition sprintf_into :: "nat \<Rightarrow> string \<Rightarrow> c_error + string" where
  "sprintf_into n str = (if length str < n then Inr str else Inl (OverWrite (length str + 1) n))"

definition getTimeStr :: "nat \<Rightarrow> c_error + string" where
  "getTimeStr timep =
     (case gettm timep of
        Inl e \<Rightarrow> Inl e
      | Inr info \<Rightarrow> sprintf_into 27 (stamp info timep))"

subsection \<open>The calendar\<close>

definition days_before :: "nat \<Rightarrow> nat" where
  "days_before y = sum year_days {1970..<y}"

definition timegm :: "tm \<Rightarrow> nat" where
  "timegm tm =
     (let y = tm_year tm + 1900 in
      (days_before y + sum_list (take (tm_mon tm) (month_days y)) + (tm_mday tm - 1)) * 86400 +
      tm_hour tm * 3600 + tm_min tm * 60 + tm_sec tm)"

lemma year_of_spec:
  "year_of d y = (y', r) \<Longrightarrow> 1970 \<le> y \<Longrightarrow>
     y \<le> y' \<and> r < year_days y' \<and> days_before y + d = days_before y' + r"
proof (induction d y rule: year_of.induct)
  case (1 d y)
  show ?case
  proof (cases "d < year_days y")
    case True
    with 1(2) show ?thesis by (auto simp: year_of.simps[of d y])
  next
    case False
    with 1(2) have e: "year_of (d - year_days y) (y + 1) = (y', r)" by (simp add: year_of.simps[of d y])
    from 1(1)[OF False e] 1(3) have h: "y + 1 \<le> y'" "r < year_days y'"
      "days_before (y + 1) + (d - year_days y) = days_before y' + r" by simp_all
    have "days_before (y + 1) = days_before y + year_days y" using 1(3) by (simp add: days_before_def)
    with h False show ?thesis by simp
  qed
qed

lemma month_of_spec:
  "d < sum_list ns \<Longrightarrow> month_of ns d = (m, r) \<Longrightarrow>
     m < length ns \<and> r < ns ! m \<and> d = sum_list (take m ns) + r"
proof (induction ns arbitrary: d m)
  case (Cons n ns)
  show ?case
  proof (cases "d < n")
    case False
    with Cons.prems(2) obtain k where k: "month_of ns (d - n) = (k, r)" "m = Suc k" by (auto split: prod.splits)
    have "d - n < sum_list ns" using Cons.prems(1) False by simp
    from Cons.IH[OF this k(1)] False k(2) show ?thesis by auto
  qed (use Cons.prems in auto)
qed simp

lemma month_days_sum: "sum_list (month_days y) = year_days y"
  by (simp add: month_days_def year_days_def)

lemma month_days_le: "m < length (month_days y) \<Longrightarrow> month_days y ! m \<le> 31"
  by (auto simp: month_days_def nth_Cons split: nat.splits)

lemma seconds_split: "s div 3600 * 3600 + s div 60 mod 60 * 60 + s mod 60 = (s :: nat)"
proof -
  have regroup: "x * 3600 + y * 60 = (x * 60 + y) * 60" for x y :: nat by simp
  have "s div 3600 = s div 60 div 60" by (simp add: div_mult2_eq[symmetric])
  then have "s div 3600 * 3600 + s div 60 mod 60 * 60 = s div 60 * 60"
    unfolding regroup by (simp only: div_mult_mod_eq)
  then show ?thesis by simp
qed

lemma gmtime_fields:
  "tm_mon (gmtime t) < 12 \<and> 1 \<le> tm_mday (gmtime t) \<and> tm_mday (gmtime t) \<le> 31 \<and> tm_hour (gmtime t) < 24 \<and>
     tm_min (gmtime t) < 60 \<and> tm_sec (gmtime t) < 60 \<and> timegm (gmtime t) = t"
proof -
  obtain y d where y: "year_of (t div 86400) 1970 = (y, d)" by fastforce
  obtain m r where m: "month_of (month_days y) d = (m, r)" by fastforce
  from year_of_spec[OF y] have ys: "1970 \<le> y" "d < year_days y" "t div 86400 = days_before y + d"
    by (simp_all add: days_before_def)
  from month_of_spec[OF _ m] ys(2) have ms: "m < 12" "r < month_days y ! m" "d = sum_list (take m (month_days y)) + r"
    by (simp_all add: month_days_sum) (simp add: month_days_def)
  have r: "r < 31" using ms(1,2) month_days_le[of m y] by (simp add: month_days_def)
  have s: "(t mod 86400) div 3600 < 24" by (simp add: div_less_iff_less_mult)
  have "(t mod 86400) div 3600 * 3600 + (t mod 86400) div 60 mod 60 * 60 + (t mod 86400) mod 60 = t mod 86400"
    by (rule seconds_split)
  moreover have "(days_before y + sum_list (take m (month_days y)) + r) * 86400 + t mod 86400 = t"
    using ys(3) ms(3) by (metis add.assoc div_mult_mod_eq)
  ultimately have "timegm (gmtime t) = t" using ys(1) by (simp add: timegm_def gmtime_def y m add.assoc Let_def)
  moreover have "tm_mon (gmtime t) = m" "tm_mday (gmtime t) = r + 1" "tm_hour (gmtime t) = (t mod 86400) div 3600"
    "tm_min (gmtime t) = (t mod 86400) div 60 mod 60" "tm_sec (gmtime t) = t mod 86400 mod 60"
    by (simp_all add: gmtime_def y m Let_def)
  ultimately show ?thesis using ms(1) r s by simp
qed

lemma length_pad0: "w \<le> length (pad0 w n)"
  by (simp add: pad0_def)

lemma length_stamp: "28 \<le> length (stamp info timep)"
  using length_pad0[of 4 "tm_year info + 1900"] length_pad0[of 2 "tm_mon info + 1"] length_pad0[of 2 "tm_mday info"]
    length_pad0[of 2 "tm_hour info"] length_pad0[of 2 "tm_min info"] length_pad0[of 2 "tm_sec info"]
    length_pad0[of 6 "timep mod 1000000"]
  by (simp add: stamp_def)

subsection \<open>Properties\<close>

text \<open>
  C33. \<open>gettm\<close> breaks the time into calendar fields without loss: for every millisecond count in the range
  of the clock the fields are in range (month, day, hour, minute, second), and converting
  them back gives the second of the count in Beijing time.
\<close>

theorem gettm_round_trip:
  assumes "(timestamp + 28800000) * 10 ^ 6 < 2 ^ 63"
  shows "\<exists>info. gettm timestamp = Inr info \<and> timegm info = timestamp div 1000 + 28800 \<and> tm_mon info < 12 \<and>
    1 \<le> tm_mday info \<and> tm_mday info \<le> 31 \<and> tm_hour info < 24 \<and> tm_min info < 60 \<and> tm_sec info < 60"
proof -
  have "timestamp + 28800000 < 2 ^ 64" using assms by simp
  then have "gettm timestamp = Inr (gmtime ((timestamp + 28800000) div 1000))"
    using assms by (simp add: gettm_def Let_def)
  moreover have "(timestamp + 28800000) div 1000 = timestamp div 1000 + 28800"
    using div_mult_self2[of 1000 timestamp 28800] by simp
  ultimately show ?thesis using gmtime_fields[of "timestamp div 1000 + 28800"] by simp
qed

theorem gettm_round_trip_witness:
  "\<exists>info. gettm 1600000000123 = Inr info \<and> timegm info = 1600028800"
  using gettm_round_trip[of 1600000000123] by auto

text \<open>
  \<open>getTimeStr\<close> always overflows its array: the stamp has at least 28 characters and a terminator, the
  array has 27, so for every time in range the call stores past its end.
\<close>

theorem getTimeStr_overflows:
  assumes "(timestamp + 28800000) * 10 ^ 6 < 2 ^ 63"
  shows "\<exists>n. 29 \<le> n \<and> getTimeStr timestamp = Inl (OverWrite n 27)"
proof -
  have "timestamp + 28800000 < 2 ^ 64" using assms by simp
  then obtain info where "gettm timestamp = Inr info" using assms by (simp add: gettm_def Let_def)
  then show ?thesis using length_stamp[of info timestamp] by (simp add: getTimeStr_def sprintf_into_def)
qed

theorem getTimeStr_overflows_witness: "\<exists>n. 29 \<le> n \<and> getTimeStr 1600000000123 = Inl (OverWrite n 27)"
  using getTimeStr_overflows[of 1600000000123] by simp

end
