(* ===== verification/Stock_Quote.thy ===== *)
theory Stock_Quote
  imports Complex_Main Time_Stamp
begin

text \<open>
  The serialising connection \<open>code/boost_doc/IO/connection.hpp\<close> and the stock server and client
  on top of it (\<open>server.cpp\<close>, \<open>client.cpp\<close>).

  A message is a header of 8 characters, the length of the data in hexadecimal padded with
  blanks by \<open>std::setw\<close>, followed by the data. \<open>boost::archive\<close> is not part of the repository:
  serialising and deserialising are the arguments \<open>ser\<close> and \<open>deser\<close> (\<open>None\<close> is an
  exception). An asynchronous read of \<open>n\<close> bytes completes with the first \<open>n\<close> bytes of the
  stream or with an error; the byte stream is an argument. \<open>&inbound_data_[0]\<close> of an empty
  vector is the error value \<open>EmptyVector\<close>. \<open>stock.hpp\<close> is missing from the repository: the
  types of its members are type parameters, and what assigning a literal to a member and
  printing it give is the argument \<open>stock_hpp\<close>; the record has the members that the server
  assigns and the client prints.
\<close>

subsection \<open>Hexadecimal numbers as the streams write and read them\<close>

definition hex_digit :: "nat \<Rightarrow> char" where
  "hex_digit d = ''0123456789abcdef'' ! d"

function to_hex :: "nat \<Rightarrow> string" where
  "to_hex n = (if n < 16 then [hex_digit n] else to_hex (n div 16) @ [hex_digit (n mod 16)])"
  by pat_completeness auto
termination by (relation "measure id") auto

declare to_hex.simps [simp del]

definition hex_val :: "char \<Rightarrow> nat option" where
  "hex_val c = (let k = of_char c :: nat in
     if 48 \<le> k \<and> k \<le> 57 then Some (k - 48)
     else if 97 \<le> k \<and> k \<le> 102 then Some (k - 87)
     else if 65 \<le> k \<and> k \<le> 70 then Some (k - 55) else None)"

definition from_hex :: "string \<Rightarrow> nat" where
  "from_hex ds = foldl (\<lambda>a c. 16 * a + the (hex_val c)) 0 ds"

definition is_hex :: "char \<Rightarrow> bool" where "is_hex c \<longleftrightarrow> hex_val c \<noteq> None"

definition is_space :: "char \<Rightarrow> bool" where
  "is_space c \<longleftrightarrow> c \<in> {CHR '' '', CHR 0x09, CHR 0x0A, CHR 0x0B, CHR 0x0C, CHR 0x0D}"

text \<open>
  \<open>is >> std::hex >> inbound_data_size\<close>: blanks are skipped, a sign and \<open>0x\<close> are accepted,
  a negative number wraps around, and without a digit the extraction fails.
\<close>

definition read_hex :: "string \<Rightarrow> nat option" where
  "read_hex s =
     (let s = dropWhile is_space s;
          neg = (s \<noteq> [] \<and> hd s = CHR ''-'');
          s = (if s \<noteq> [] \<and> hd s \<in> {CHR ''-'', CHR ''+''} then tl s else s);
          s = (if take 2 s \<in> {''0x'', ''0X''} then drop 2 s else s);
          ds = takeWhile is_hex s in
      if ds = [] then None
      else Some (if neg then (2 ^ 64 - from_hex ds) mod 2 ^ 64 else from_hex ds))"

subsection \<open>The connection\<close>

datatype asio_error = Eof | Invalid_argument | Transport nat

datatype 't outcome =
    Received 't string       \<comment> \<open>the value, and what is left of the stream\<close>
  | Failed asio_error        \<comment> \<open>the handler is called with this error\<close>
  | EmptyVector              \<comment> \<open>undefined: \<open>inbound_data_[0]\<close> of an empty vector\<close>

definition header_length :: nat where "header_length = 8"

definition pad_left :: "nat \<Rightarrow> string \<Rightarrow> string" where
  "pad_left w s = replicate (w - length s) CHR '' '' @ s"

text \<open>\<open>async_write\<close>: the bytes handed to the socket.\<close>

definition async_write :: "('t \<Rightarrow> string) \<Rightarrow> 't \<Rightarrow> asio_error + string" where
  "async_write ser t =
     (let outbound_data = ser t;
          header = pad_left header_length (to_hex (length outbound_data)) in
      if length header \<noteq> header_length then Inl Invalid_argument
      else Inr (header @ outbound_data))"

text \<open>\<open>boost::asio::async_read\<close> into a buffer of \<open>n\<close> bytes.\<close>

definition read_exact :: "nat \<Rightarrow> string \<Rightarrow> asio_error + string \<times> string" where
  "read_exact n stream = (if length stream < n then Inl Eof else Inr (take n stream, drop n stream))"

definition handle_read_data :: "(string \<Rightarrow> 't option) \<Rightarrow> asio_error + string \<times> string \<Rightarrow> 't outcome" where
  "handle_read_data deser r =
     (case r of
        Inl e \<Rightarrow> Failed e
      | Inr (inbound_data, rest) \<Rightarrow>
          if inbound_data = [] then EmptyVector
          else (case deser inbound_data of None \<Rightarrow> Failed Invalid_argument | Some t \<Rightarrow> Received t rest))"

definition handle_read_header :: "(string \<Rightarrow> 't option) \<Rightarrow> asio_error + string \<times> string \<Rightarrow> 't outcome" where
  "handle_read_header deser r =
     (case r of
        Inl e \<Rightarrow> Failed e
      | Inr (inbound_header, rest) \<Rightarrow>
          (case read_hex inbound_header of
             None \<Rightarrow> Failed Invalid_argument
           | Some inbound_data_size \<Rightarrow> handle_read_data deser (read_exact inbound_data_size rest)))"

definition async_read :: "(string \<Rightarrow> 't option) \<Rightarrow> string \<Rightarrow> 't outcome" where
  "async_read deser stream = handle_read_header deser (read_exact header_length stream)"

subsection \<open>Server and client\<close>

record ('c, 'p, 'q) stock =
  code :: 'c
  name :: 'c
  open_price :: 'p
  high_price :: 'p
  low_price :: 'p
  last_price :: 'p
  buy_price :: 'p
  buy_quantity :: 'q
  sell_price :: 'p
  sell_quantity :: 'q

text \<open>Assigning a literal (a floating literal is given by its text in the source) and \<open>operator<<\<close>.\<close>

record ('c, 'p, 'q) stock_hpp =
  of_text :: "string \<Rightarrow> 'c"
  of_price :: "string \<Rightarrow> 'p"
  of_quantity :: "nat \<Rightarrow> 'q"
  put_text :: "'c \<Rightarrow> string"
  put_price :: "'p \<Rightarrow> string"
  put_quantity :: "'q \<Rightarrow> string"

definition stocks :: "('c, 'p, 'q) stock_hpp \<Rightarrow> ('c, 'p, 'q) stock list" where
  "stocks h =
     [\<lparr>code = of_text h ''ABC'', name = of_text h ''A Big Company'', open_price = of_price h ''4.56'',
       high_price = of_price h ''5.12'', low_price = of_price h ''4.33'', last_price = of_price h ''4.98'',
       buy_price = of_price h ''4.96'', buy_quantity = of_quantity h 1000,
       sell_price = of_price h ''4.99'', sell_quantity = of_quantity h 2000\<rparr>,
      \<lparr>code = of_text h ''DEF'', name = of_text h ''Developer Entertainment Firm'', open_price = of_price h ''20.24'',
       high_price = of_price h ''22.88'', low_price = of_price h ''19.50'', last_price = of_price h ''19.76'',
       buy_price = of_price h ''19.72'', buy_quantity = of_quantity h 34000,
       sell_price = of_price h ''19.85'', sell_quantity = of_quantity h 45000\<rparr>]"

text \<open>
  The server's \<open>handle_accept\<close> over the results of the successive accepts: what is written to
  each connection; the first error is logged and ends the chain of accepts.
\<close>

fun handle_accept :: "('t \<Rightarrow> string) \<Rightarrow> 't \<Rightarrow> asio_error option list \<Rightarrow> (asio_error + string) list \<times> asio_error option" where
  "handle_accept ser ss [] = ([], None)"
| "handle_accept ser ss (None # accepts) =
     (let (ws, e) = handle_accept ser ss accepts in (async_write ser ss # ws, e))"
| "handle_accept ser ss (Some e # accepts) = ([], Some e)"

definition main_server :: "('c, 'p, 'q) stock_hpp \<Rightarrow> (('c, 'p, 'q) stock list \<Rightarrow> string) \<Rightarrow> nat \<Rightarrow> asio_error option list \<Rightarrow>
    int \<times> (asio_error + string) list" where
  "main_server h ser argc accepts =
     (if argc \<noteq> 2 then (1, []) else (0, fst (handle_accept ser (stocks h) accepts)))"

text \<open>What the client prints: a line to \<open>cout\<close>, or the message of an error to \<open>cerr\<close>.\<close>

datatype line = Out string | ErrLine asio_error

definition stock_lines :: "('c, 'p, 'q) stock_hpp \<Rightarrow> nat \<Rightarrow> ('c, 'p, 'q) stock \<Rightarrow> line list" where
  "stock_lines h i s =
     [Out (''Stock number '' @ dec i),
      Out (''  code: '' @ put_text h (code s)),
      Out (''  name: '' @ put_text h (name s)),
      Out (''  open_price: '' @ put_price h (open_price s)),
      Out (''  high_price: '' @ put_price h (high_price s)),
      Out (''  low_price: '' @ put_price h (low_price s)),
      Out (''  last_price: '' @ put_price h (last_price s)),
      Out (''  buy_price: '' @ put_price h (buy_price s)),
      Out (''  buy_quantity: '' @ put_quantity h (buy_quantity s)),
      Out (''  sell_price: '' @ put_price h (sell_price s)),
      Out (''  sell_quantity: '' @ put_quantity h (sell_quantity s))]"

text \<open>The loop of \<open>handle_read\<close> from \<open>i\<close> on.\<close>

fun all_lines :: "('c, 'p, 'q) stock_hpp \<Rightarrow> nat \<Rightarrow> ('c, 'p, 'q) stock list \<Rightarrow> line list" where
  "all_lines h i [] = []"
| "all_lines h i (s # ss) = stock_lines h i s @ all_lines h (i + 1) ss"

definition handle_read :: "('c, 'p, 'q) stock_hpp \<Rightarrow> ('c, 'p, 'q) stock list outcome \<Rightarrow> line list option" where
  "handle_read h r = (case r of Received ss rest \<Rightarrow> Some (all_lines h 0 ss) | Failed e \<Rightarrow> Some [ErrLine e]
     | EmptyVector \<Rightarrow> None)"

text \<open>
  \<open>handle_connect\<close> over the endpoints the resolver gave: the error of each attempt, or the
  stream of the endpoint that accepted. An empty list of endpoints is dereferenced.
\<close>

fun handle_connect :: "('c, 'p, 'q) stock_hpp \<Rightarrow> (string \<Rightarrow> ('c, 'p, 'q) stock list option) \<Rightarrow>
    (asio_error + string) list \<Rightarrow> line list option" where
  "handle_connect h deser [] = None"
| "handle_connect h deser (Inr stream # eps) = handle_read h (async_read deser stream)"
| "handle_connect h deser [Inl e] = Some [ErrLine e]"
| "handle_connect h deser (Inl e # ep # eps) = handle_connect h deser (ep # eps)"

definition main_client :: "('c, 'p, 'q) stock_hpp \<Rightarrow> (string \<Rightarrow> ('c, 'p, 'q) stock list option) \<Rightarrow> nat \<Rightarrow>
    (asio_error + string) list \<Rightarrow> int \<times> line list option" where
  "main_client h deser argc eps = (if argc \<noteq> 3 then (1, Some []) else (0, handle_connect h deser eps))"

subsection \<open>Lemmas\<close>

lemma hex_digit_val: "d < 16 \<Longrightarrow> hex_val (hex_digit d) = Some d"
proof -
  have "\<forall>d \<in> {0..<16}. hex_val (''0123456789abcdef'' ! d) = Some d" by code_simp
  then show "d < 16 \<Longrightarrow> hex_val (hex_digit d) = Some d" by (simp add: hex_digit_def)
qed

lemma to_hex_digits: "c \<in> set (to_hex n) \<Longrightarrow> is_hex c"
proof (induction n rule: to_hex.induct)
  case (1 n)
  then show ?case
    by (cases "n < 16") (auto simp: to_hex.simps[of n] is_hex_def hex_digit_val)
qed

lemma to_hex_nonempty: "to_hex n \<noteq> []"
  by (subst to_hex.simps) simp

lemma from_to_hex: "from_hex (to_hex n) = n"
proof (induction n rule: to_hex.induct)
  case (1 n)
  then show ?case
    by (cases "n < 16") (simp_all add: to_hex.simps[of n] from_hex_def hex_digit_val)
qed

lemma length_to_hex: "length (to_hex n) \<le> Suc k \<longleftrightarrow> n < 16 ^ Suc k"
proof (induction n arbitrary: k rule: to_hex.induct)
  case (1 n)
  show ?case
  proof (cases "n < 16")
    case True
    moreover have "(16::nat) ^ 1 \<le> 16 ^ Suc k" by (rule power_increasing) simp_all
    ultimately have "n < 16 ^ Suc k" unfolding power_one_right by (rule less_le_trans)
    then show ?thesis using True by (simp add: to_hex.simps[of n])
  next
    case False
    show ?thesis
    proof (cases k)
      case 0
      with False to_hex_nonempty[of "n div 16"] show ?thesis
        by (simp add: to_hex.simps[of n])
    next
      case (Suc j)
      have "n < 16 ^ Suc k \<longleftrightarrow> n div 16 < 16 ^ Suc j" unfolding Suc by (simp add: div_less_iff_less_mult ac_simps)
      then show ?thesis using False 1[of j] Suc by (simp add: to_hex.simps[of n])
    qed
  qed
qed

lemma hex_not_special:
  "is_hex c \<Longrightarrow> \<not> is_space c \<and> c \<noteq> CHR ''-'' \<and> c \<noteq> CHR ''+'' \<and> c \<noteq> CHR ''x'' \<and> c \<noteq> CHR ''X''"
  by (auto simp: is_hex_def is_space_def hex_val_def Let_def split: if_splits)

lemma read_hex_padded: "read_hex (pad_left w (to_hex n)) = Some n"
proof -
  obtain c cs where h: "to_hex n = c # cs" using to_hex_nonempty by (cases "to_hex n") blast+
  have c: "\<And>x. x \<in> set (to_hex n) \<Longrightarrow> is_hex x" by (rule to_hex_digits)
  then have cc: "is_hex c" and all: "\<forall>x \<in> set cs. is_hex x" using h by auto
  have sp: "dropWhile is_space (pad_left w (to_hex n)) = to_hex n"
    unfolding pad_left_def using hex_not_special[OF cc]
    by (subst dropWhile_append2) (auto simp: is_space_def h)
  have pre: "take 2 (to_hex n) \<notin> {''0x'', ''0X''}"
    using all hex_not_special h by (cases cs) auto
  have tk: "takeWhile is_hex (to_hex n) = to_hex n" using c by (simp add: takeWhile_eq_all_conv)
  show ?thesis using hex_not_special[OF cc] pre tk from_to_hex[of n]
    unfolding read_hex_def sp Let_def by (auto simp: h)
qed

lemma length_pad_left: "length (pad_left w s) = max w (length s)"
  by (simp add: pad_left_def)

lemma async_write_ok:
  assumes "length (ser t) < 16 ^ 8"
  shows "async_write ser t = Inr (pad_left 8 (to_hex (length (ser t))) @ ser t)"
  using length_to_hex[of "length (ser t)" 7] assms
  by (simp add: async_write_def length_pad_left header_length_def Let_def)

lemma async_read_message:
  assumes "length d < 16 ^ 8" and "d \<noteq> []"
  shows "async_read deser (pad_left 8 (to_hex (length d)) @ d @ rest) =
    (case deser d of None \<Rightarrow> Failed Invalid_argument | Some t \<Rightarrow> Received t rest)"
proof -
  have len: "length (pad_left 8 (to_hex (length d))) = 8"
    using length_to_hex[of "length d" 7] assms(1) by (simp add: length_pad_left)
  then show ?thesis using assms(2)
    by (simp add: async_read_def handle_read_header_def handle_read_data_def read_exact_def header_length_def
        read_hex_padded)
qed

lemma handle_accept_writes:
  "fst (handle_accept ser ss accepts) = replicate (length (takeWhile (\<lambda>a. a = None) accepts)) (async_write ser ss)"
  by (induction ser ss accepts rule: handle_accept.induct) (auto split: prod.splits)

lemma handle_connect_first:
  "\<forall>x \<in> set es. \<exists>e. x = Inl e \<Longrightarrow> handle_connect h deser (es @ Inr stream # eps) = handle_read h (async_read deser stream)"
proof (induction es)
  case (Cons x es)
  then obtain e where "x = Inl e" by auto
  with Cons show ?case by (cases es) auto
qed simp

lemma decimal_digits:
  "char_of (48 :: nat) = CHR ''0''" "char_of (49 :: nat) = CHR ''1''" "char_of (50 :: nat) = CHR ''2''"
  "char_of (51 :: nat) = CHR ''3''" "char_of (52 :: nat) = CHR ''4''" "char_of (53 :: nat) = CHR ''5''"
  by code_simp+

subsection \<open>Properties\<close>

text \<open>
  C5. Framing round trip: for a value whose serialisation is not empty and shorter than \<open>16 ^ 8\<close> bytes,
  what \<open>async_write\<close> sends is read back by \<open>async_read\<close> as the same value, whatever follows
  it on the stream, and exactly the bytes of the message are consumed; a longer
  serialisation is refused with \<open>invalid_argument\<close> and nothing is sent.
\<close>

theorem connection_round_trip:
  assumes "deser (ser t) = Some t" and "ser t \<noteq> []"
  shows "(length (ser t) < 16 ^ 8 \<longrightarrow>
      (\<exists>msg. async_write ser t = Inr msg \<and> async_read deser (msg @ rest) = Received t rest)) \<and>
    (16 ^ 8 \<le> length (ser t) \<longrightarrow> async_write ser t = Inl Invalid_argument)"
proof
  show "length (ser t) < 16 ^ 8 \<longrightarrow>
      (\<exists>msg. async_write ser t = Inr msg \<and> async_read deser (msg @ rest) = Received t rest)"
    using async_write_ok[of ser t] async_read_message[of "ser t" deser rest] assms by auto
  show "16 ^ 8 \<le> length (ser t) \<longrightarrow> async_write ser t = Inl Invalid_argument"
    using length_to_hex[of "length (ser t)" 7]
    by (auto simp: async_write_def length_pad_left header_length_def Let_def)
qed

theorem connection_round_trip_witness:
  "\<exists>msg. async_write (\<lambda>t. t) ''22 serialization'' = Inr msg \<and>
    async_read Some (msg @ ''next'') = Received ''22 serialization'' ''next''"
  using connection_round_trip[of Some "\<lambda>t. t" "''22 serialization''" "''next''"] by simp

text \<open>
  C30. The stock service end to end: with an archive that reads back what it wrote, every connection the
  server accepts before its first error is sent the same message, and a client whose
  first reachable endpoint is such a connection prints the two stocks of the server,
  numbered from 0, the 22 lines below, whatever attempts failed before. \<open>T\<close>, \<open>P\<close> and \<open>Q\<close> are what
  the missing \<open>stock.hpp\<close> makes of a literal assigned to a text, a price or a quantity and printed.
\<close>

theorem stock_service:
  assumes "deser (ser (stocks h)) = Some (stocks h)" and "ser (stocks h) \<noteq> []" and "length (ser (stocks h)) < 16 ^ 8"
    and "i < length (takeWhile (\<lambda>a. a = None) accepts)" and "\<forall>x \<in> set failures. \<exists>e. x = Inl e"
  shows "\<exists>msg. snd (main_server h ser 2 accepts) ! i = Inr msg \<and>
    main_client h deser 3 (failures @ Inr msg # eps) = (0, Some (map Out
      (let T = (\<lambda>x. put_text h (of_text h x)); P = (\<lambda>x. put_price h (of_price h x));
           Q = (\<lambda>x. put_quantity h (of_quantity h x)) in
       [''Stock number 0'', ''  code: '' @ T ''ABC'', ''  name: '' @ T ''A Big Company'',
        ''  open_price: '' @ P ''4.56'', ''  high_price: '' @ P ''5.12'', ''  low_price: '' @ P ''4.33'',
        ''  last_price: '' @ P ''4.98'', ''  buy_price: '' @ P ''4.96'', ''  buy_quantity: '' @ Q 1000,
        ''  sell_price: '' @ P ''4.99'', ''  sell_quantity: '' @ Q 2000,
        ''Stock number 1'', ''  code: '' @ T ''DEF'', ''  name: '' @ T ''Developer Entertainment Firm'',
        ''  open_price: '' @ P ''20.24'', ''  high_price: '' @ P ''22.88'', ''  low_price: '' @ P ''19.50'',
        ''  last_price: '' @ P ''19.76'', ''  buy_price: '' @ P ''19.72'', ''  buy_quantity: '' @ Q 34000,
        ''  sell_price: '' @ P ''19.85'', ''  sell_quantity: '' @ Q 45000])))"
proof -
  let ?msg = "pad_left 8 (to_hex (length (ser (stocks h)))) @ ser (stocks h)"
  have "snd (main_server h ser 2 accepts) ! i = Inr ?msg"
    using assms(4) async_write_ok[of ser "stocks h", OF assms(3)] by (simp add: main_server_def handle_accept_writes)
  moreover have "async_read deser ?msg = Received (stocks h) []"
    using async_read_message[OF assms(3,2), of deser "[]"] assms(1) by simp
  then have "main_client h deser 3 (failures @ Inr ?msg # eps) = (0, Some (all_lines h 0 (stocks h)))"
    using handle_connect_first[OF assms(5), of h deser ?msg eps] by (simp add: main_client_def handle_read_def)
  moreover have "dec 0 = ''0''" "dec (0 + 1) = ''1''" by (simp_all add: dec.simps decimal_digits)
  ultimately show ?thesis
    by (intro exI[of _ ?msg] conjI) (simp_all only: all_lines.simps stock_lines_def stocks_def stock.simps Let_def
        list.map append.simps append_Nil2)
qed

text \<open>A text archive: every member on a line of its own.\<close>

definition text_hpp :: "(string, string, string) stock_hpp" where
  "text_hpp = \<lparr>of_text = (\<lambda>x. x), of_price = (\<lambda>x. x), of_quantity = dec, put_text = (\<lambda>x. x), put_price = (\<lambda>x. x),
     put_quantity = (\<lambda>x. x)\<rparr>"

definition text_ser :: "(string, string, string) stock list \<Rightarrow> string" where
  "text_ser ss = concat (map (\<lambda>l. l @ [CHR 0x0A]) (concat (map (\<lambda>s. [code s, name s, open_price s, high_price s, low_price s,
     last_price s, buy_price s, buy_quantity s, sell_price s, sell_quantity s]) ss)))"

fun split_lines :: "string \<Rightarrow> string \<Rightarrow> string list" where
  "split_lines acc [] = []"
| "split_lines acc (c # cs) = (if c = CHR 0x0A then rev acc # split_lines [] cs else split_lines (c # acc) cs)"

fun stocks_of :: "string list \<Rightarrow> (string, string, string) stock list option" where
  "stocks_of (a # b # c # d # e # f # g # i # j # k # ls) = map_option ((#) \<lparr>code = a, name = b, open_price = c, high_price = d,
     low_price = e, last_price = f, buy_price = g, buy_quantity = i, sell_price = j, sell_quantity = k\<rparr>) (stocks_of ls)"
| "stocks_of [] = Some []"
| "stocks_of _ = None"

definition text_deser :: "string \<Rightarrow> (string, string, string) stock list option" where
  "text_deser d = stocks_of (split_lines [] d)"

theorem stock_service_witness:
  "\<exists>msg ls. snd (main_server text_hpp text_ser 2 [None]) ! 0 = Inr msg \<and>
    main_client text_hpp text_deser 3 ([Inl Eof] @ Inr msg # []) = (0, Some ls) \<and> length ls = 22 \<and>
    ls ! 4 = Out ''  high_price: 5.12'' \<and> ls ! 11 = Out ''Stock number 1''"
proof -
  have d: "dec 1000 = ''1000''" "dec 2000 = ''2000''" "dec 34000 = ''34000''" "dec 45000 = ''45000''"
    by (simp_all add: dec.simps decimal_digits)
  have "text_deser (text_ser (stocks text_hpp)) = Some (stocks text_hpp)" "text_ser (stocks text_hpp) \<noteq> []"
    "length (text_ser (stocks text_hpp)) < 16 ^ 8"
    by (simp_all add: text_deser_def text_ser_def text_hpp_def stocks_def d)
  from stock_service[of text_deser text_ser text_hpp 0 "[None]" "[Inl Eof]" "[]", OF this] show ?thesis
    by (auto simp: text_hpp_def Let_def nth_Cons')
qed

end
