(* ===== verification/Shm_Shell.thy ===== *)
theory Shm_Shell
  imports Posix_IO
begin

text \<open>
  The shared-memory shell \<open>code/IPC/SHM/SystemV/placement.cpp\<close>: a command loop over an object
  constructed by placement \<open>new\<close> in a System V segment.

  The state has the three static variables, the counter in the segment (with whether an
  object was ever constructed there and whether the segment is mapped) and the command
  buffer. The results of \<open>shmget\<close>, \<open>shmat\<close>, \<open>shmdt\<close> and \<open>shmctl\<close> are arguments. \<open>shmat\<close>
  reports failure as the address -1, which the code does not test for. Dereferencing memory
  that is not mapped, an eleventh token and signed overflow of the counter are error values.
  \<open>attach\<close> after its last \<open>printf\<close> and \<open>increase\<close>, \<open>decrease\<close> and \<open>print\<close> on both branches reach the end of a
  function that returns \<open>int\<close> without a \<open>return\<close>, which is undefined behaviour in C++: the
  error value \<open>NoReturn\<close>, with the state that had been reached. \<open>printf\<close> output is a list of lines.
\<close>

datatype addr = Null | MinusOne | Addr nat

record shell =
  shm_id :: int
  shm_addr :: addr
  shm_object :: addr
  mapped :: bool
  counter :: "int option"
  cmdbuffer :: string
  lines :: "string list"
  shown :: "int list"

datatype shell_error = Unmapped | TooManyTokens | SignedOverflow | Uninitialised | NoReturn shell

record shm_ans =
  shmget_ret :: int
  shmat_ret :: addr
  shmdt_ret :: int
  shmctl_ret :: int

definition say :: "string \<Rightarrow> shell \<Rightarrow> shell" where
  "say l s = s\<lparr>lines := lines s @ [l]\<rparr>"

text \<open>Reaching the end of a function with a result type.\<close>

definition flow_off :: "shell \<Rightarrow> shell_error + shell" where
  "flow_off s = Inl (NoReturn s)"

text \<open>
  \<open>attach\<close>. In a client a segment that exists already holds the counter \<open>c\<close> of the server;
  for the server \<open>shmget\<close> creates it, with no object in it.
\<close>

definition attach :: "bool \<Rightarrow> shm_ans \<Rightarrow> int option \<Rightarrow> shell \<Rightarrow> shell_error + shell" where
  "attach server ans c s =
     (let s = s\<lparr>shm_id := shmget_ret ans\<rparr> in
      if shm_id s < 0 then Inr (say ''ERROR: attach'' s)
      else
        let s = s\<lparr>shm_addr := shmat_ret ans\<rparr> in
        if shm_addr s = Null then Inr (say ''ERROR: attach'' s)
        else flow_off (say ''SUCC: attach''
          (if shm_addr s = MinusOne then s else s\<lparr>mapped := True, counter := c\<rparr>)))"

definition dettach :: "shm_ans \<Rightarrow> shell \<Rightarrow> shell_error + shell" where
  "dettach ans s =
     (if shmdt_ret ans \<noteq> 0 then Inr (say ''ERROR: dettach'' s)
      else
        let s = s\<lparr>mapped := False\<rparr> in
        if shmctl_ret ans < 0 then Inr (say ''ERROR: dettach'' s) else Inr s)"

text \<open>
  \<open>create\<close>: the placement \<open>new\<close> stores the counter 100 through \<open>shm_addr\<close>. A placement \<open>new\<close> at a null pointer is
  undefined, so the test of its result for \<open>NULL\<close> is never true.
\<close>

definition create :: "bool \<Rightarrow> shell \<Rightarrow> shell_error + shell" where
  "create server s =
     (if server then
        (case shm_addr s of
           Null \<Rightarrow> Inl Unmapped
         | MinusOne \<Rightarrow> Inl Unmapped
         | Addr a \<Rightarrow> if mapped s
             then Inr (say ''SUCC: create'' (say ''SHMObj'' (s\<lparr>shm_object := shm_addr s, counter := Some 100\<rparr>)))
             else Inl Unmapped)
      else Inr (say ''SUCC: create'' (s\<lparr>shm_object := shm_addr s\<rparr>)))"

text \<open>A method of \<open>SHMObj\<close> that changes the counter by \<open>d\<close> and prints it.\<close>

definition obj_add :: "int \<Rightarrow> shell \<Rightarrow> shell_error + shell" where
  "obj_add d s =
     (if shm_object s = MinusOne \<or> \<not> mapped s then Inl Unmapped
      else case counter s of
        None \<Rightarrow> Inl Uninitialised
      | Some c \<Rightarrow>
          if c + d < - (2 ^ 31) \<or> 2 ^ 31 - 1 < c + d then Inl SignedOverflow
          else Inr (s\<lparr>counter := Some (c + d), shown := shown s @ [c + d]\<rparr>))"

definition call_obj :: "int \<Rightarrow> shell \<Rightarrow> shell_error + shell" where
  "call_obj d s = (case obj_add d s of Inl e \<Rightarrow> Inl e | Inr t \<Rightarrow> flow_off t)"

definition increase :: "shell \<Rightarrow> shell_error + shell" where
  "increase s = (if shm_object s \<noteq> Null then call_obj 1 s else flow_off (say ''ERROR: increase'' s))"

definition decrease :: "shell \<Rightarrow> shell_error + shell" where
  "decrease s = (if shm_object s \<noteq> Null then call_obj (-1) s else flow_off (say ''ERROR: increase'' s))"

definition print :: "shell \<Rightarrow> shell_error + shell" where
  "print s = (if shm_object s \<noteq> Null then call_obj 0 s else flow_off (say ''ERROR: print'' s))"

definition show_help :: "shell \<Rightarrow> shell" where
  "show_help s = fold say [''attach'', ''dettach'', ''create'', ''increase'', ''decrease'', ''print'', ''quit''] s"

subsection \<open>\<open>parseCommand\<close>\<close>

definition is_sep :: "char \<Rightarrow> bool" where
  "is_sep c \<longleftrightarrow> c = CHR '' '' \<or> c = CHR 0x0A"

text \<open>The calls of \<open>strtok\<close>: the tokens, that is the maximal runs without separators.\<close>

function tokens :: "string \<Rightarrow> string list" where
  "tokens s = (let s = dropWhile is_sep s in
     if s = [] then [] else takeWhile (\<lambda>c. \<not> is_sep c) s # tokens (dropWhile (\<lambda>c. \<not> is_sep c) s))"
  by pat_completeness auto
termination
proof (relation "measure length")
  fix s x assume x: "x = dropWhile is_sep s" "x \<noteq> []"
  then have "\<not> is_sep (hd x)" using hd_dropWhile[of is_sep s] by auto
  then have "length (dropWhile (\<lambda>c. \<not> is_sep c) x) < length x"
    using x(2) by (cases x) (auto simp: le_imp_less_Suc length_dropWhile_le)
  also have "\<dots> \<le> length s" unfolding x by (rule length_dropWhile_le)
  finally show "(dropWhile (\<lambda>c. \<not> is_sep c) x, s) \<in> measure length" by simp
qed simp

declare tokens.simps [simp del]

text \<open>
  \<open>strtok\<close> writes a terminator after each token, so afterwards the buffer, as a C string,
  ends behind the first one.
\<close>

definition after_parse :: "string \<Rightarrow> string" where
  "after_parse cmd = takeWhile is_sep cmd @ takeWhile (\<lambda>c. \<not> is_sep c) (dropWhile is_sep cmd)"

definition parseCommand :: "shell \<Rightarrow> shell_error + shell \<times> string list" where
  "parseCommand s =
     (let argv = tokens (cmdbuffer s) in
      if 10 < length argv then Inl TooManyTokens
      else Inr (s\<lparr>cmdbuffer := after_parse (cmdbuffer s)\<rparr>, argv))"

subsection \<open>\<open>main\<close>\<close>

text \<open>One turn of the loop; \<open>fgets\<close> leaves the buffer alone at end of file. \<open>None\<close> is \<open>quit\<close>.\<close>

record turn_in =
  line :: "string option"
  ans :: shm_ans
  found :: "int option"

definition fgets :: "string option \<Rightarrow> shell \<Rightarrow> shell" where
  "fgets l s = (case l of None \<Rightarrow> s | Some x \<Rightarrow> s\<lparr>cmdbuffer := takeWhile (\<lambda>c. c \<noteq> NUL) x\<rparr>)"

definition dispatch :: "bool \<Rightarrow> turn_in \<Rightarrow> string \<Rightarrow> shell \<Rightarrow> shell_error + shell option" where
  "dispatch server t c s =
     (let k = map_sum id Some in
      if c = ''quit'' then Inr None
      else if c = ''attach'' then k (attach server (ans t) (found t) s)
      else if c = ''dettach'' then k (dettach (ans t) s)
      else if c = ''create'' then k (create server s)
      else if c = ''increase'' then k (increase s)
      else if c = ''decrease'' then k (decrease s)
      else if c = ''print'' then k (print s)
      else if c = ''help'' then Inr (Some (show_help s))
      else Inr (Some (say (''unknown command: '' @ c) s)))"

definition turn :: "bool \<Rightarrow> turn_in \<Rightarrow> shell \<Rightarrow> shell_error + shell option" where
  "turn server t s =
     (case parseCommand (fgets (line t) s) of
        Inl e \<Rightarrow> Inl e
      | Inr (s', []) \<Rightarrow> Inr (Some s')
      | Inr (s', c # args) \<Rightarrow> dispatch server t c s')"

fun main_loop :: "bool \<Rightarrow> turn_in list \<Rightarrow> shell \<Rightarrow> shell_error + shell option" where
  "main_loop server [] s = Inr (Some s)"
| "main_loop server (t # ts) s = (case turn server t s of
     Inl e \<Rightarrow> Inl e | Inr None \<Rightarrow> Inr None | Inr (Some s') \<Rightarrow> main_loop server ts s')"

subsection \<open>Lemmas\<close>

lemma tokens_Nil [simp]: "tokens [] = []"
  by (subst tokens.simps) simp


lemma after_parse_blank: "dropWhile is_sep x = [] \<Longrightarrow> after_parse x = x"
  using takeWhile_dropWhile_id[of is_sep x] by (simp add: after_parse_def del: dropWhile_eq_Nil_conv)

lemma tokens_after_parse: "tokens (after_parse x) = take 1 (tokens x)"
proof (cases "dropWhile is_sep x = []")
  case True
  then show ?thesis by (simp add: after_parse_blank tokens.simps[of x] del: dropWhile_eq_Nil_conv)
next
  case False
  let ?w = "takeWhile (\<lambda>c. \<not> is_sep c) (dropWhile is_sep x)"
  have "\<not> is_sep (hd (dropWhile is_sep x))" using hd_dropWhile[OF False] .
  then have w: "?w \<noteq> []" "\<not> is_sep (hd ?w)" using False by (cases "dropWhile is_sep x"; simp)+
  have all: "\<forall>c \<in> set ?w. \<not> is_sep c" by (auto dest: set_takeWhileD)
  have "dropWhile is_sep (after_parse x) = dropWhile is_sep ?w"
    unfolding after_parse_def by (rule dropWhile_append2) (auto dest: set_takeWhileD)
  also have "\<dots> = ?w" using w by (cases ?w) auto
  finally have d: "dropWhile is_sep (after_parse x) = ?w" .
  have t: "takeWhile (\<lambda>c. \<not> is_sep c) ?w = ?w" "dropWhile (\<lambda>c. \<not> is_sep c) ?w = []"
    using all by (simp_all only: takeWhile_eq_all_conv dropWhile_eq_Nil_conv)
  have "tokens (after_parse x) = [?w]"
    by (subst tokens.simps) (simp only: d t Let_def w if_False tokens_Nil)
  moreover have "take 1 (tokens x) = [?w]" using False by (subst tokens.simps) (simp add: Let_def)
  ultimately show ?thesis by simp
qed









text \<open>At end of file \<open>fgets\<close> leaves the first word of the last line in the buffer.\<close>

lemma after_parse_idem: "after_parse (after_parse l) = after_parse l"
proof (cases "dropWhile is_sep l")
  case Nil
  then show ?thesis by (simp only: after_parse_blank)
next
  case (Cons x xs)
  then have x: "\<not> is_sep x" using hd_dropWhile[of is_sep l] by simp
  have 1: "takeWhile is_sep (takeWhile is_sep l @ x # ys) = takeWhile is_sep l" for ys
    using x by (subst takeWhile_append2) (auto dest: set_takeWhileD)
  have 2: "dropWhile is_sep (takeWhile is_sep l @ x # ys) = x # ys" for ys
    using x by (subst dropWhile_append2) (auto dest: set_takeWhileD)
  show ?thesis using x by (simp add: after_parse_def Cons 1 2)
qed

lemma turn_eof:
  assumes "line t = None" and "cmdbuffer s = after_parse l" and "tokens l = w # ws"
  shows "turn server t s = dispatch server t w s"
proof -
  have "tokens (cmdbuffer s) = [w]" using assms(2,3) tokens_after_parse[of l] by simp
  moreover have "s\<lparr>cmdbuffer := after_parse (cmdbuffer s)\<rparr> = s" using assms(2) by (simp add: after_parse_idem)
  ultimately show ?thesis using assms(1) by (simp add: turn_def fgets_def parseCommand_def)
qed

subsection \<open>Properties\<close>






text \<open>
  What the counter functions do before they reach their end: the count in the segment is changed by one,
  or not at all, and printed.
\<close>

lemma counter_commands:
  assumes "mapped s" and "shm_object s = Addr a" and "counter s = Some c" and "\<bar>c\<bar> + 1 < 2 ^ 31"
  shows "increase s = Inl (NoReturn (s\<lparr>counter := Some (c + 1), shown := shown s @ [c + 1]\<rparr>)) \<and>
    decrease s = Inl (NoReturn (s\<lparr>counter := Some (c - 1), shown := shown s @ [c - 1]\<rparr>)) \<and>
    print s = Inl (NoReturn (s\<lparr>counter := Some c, shown := shown s @ [c]\<rparr>))"
proof -
  have "obj_add d s = Inr (s\<lparr>counter := Some (c + d), shown := shown s @ [c + d]\<rparr>)" if "\<bar>d\<bar> \<le> 1" for d
  proof -
    have "\<not> c + d < - (2 ^ 31) \<and> \<not> 2 ^ 31 - 1 < c + d" using that assms(4) by linarith
    with assms show ?thesis by (simp add: obj_add_def)
  qed
  with assms(2) show ?thesis
    by (simp add: increase_def decrease_def print_def call_obj_def flow_off_def)
qed

text \<open>
  End of input repeats the last command: the result of \<open>fgets\<close> is not tested and \<open>strtok\<close> leaves the
  first word in the buffer, so after a line with \<open>help\<close> every further turn at end of file
  prints the help again; the loop does not end.
\<close>

theorem shell_eof_repeats:
  assumes "cmdbuffer s = after_parse l" and "tokens l = ''help'' # ws" and "line e = None"
  shows "main_loop server (replicate n e) s = Inr (Some (s\<lparr>lines := lines s @
    concat (replicate n [''attach'', ''dettach'', ''create'', ''increase'', ''decrease'', ''print'', ''quit''])\<rparr>))"
  using assms(1)
proof (induction n arbitrary: s)
  case (Suc n)
  let ?u = "s\<lparr>lines := lines s @ [''attach'', ''dettach'', ''create'', ''increase'', ''decrease'', ''print'', ''quit'']\<rparr>"
  have "turn server e s = Inr (Some ?u)"
    using turn_eof[OF assms(3) Suc.prems assms(2), of server] by (simp add: dispatch_def show_help_def say_def)
  with Suc.IH[of ?u] Suc.prems show ?case by simp
qed simp

end
