(* ===== verification/Stream_Copy.thy ===== *)
theory Stream_Copy
  imports Posix_IO
begin

text \<open>
  The programs that copy a file through a byte stream: \<open>code/IPC/PIPE/dpipe.cpp\<close> (a pipe),
  \<open>code/IPC/PIPE/fifo_pipe.cpp\<close> (a FIFO), \<open>code/IPC/Socket/UNIX_socket.cpp\<close> (a local socket) and
  \<open>code/network/TCP/REUSE_PORT/server.cpp\<close> with its \<open>client.cpp\<close>.

  A sender is the list of its \<open>write\<close> calls. A stream does not keep their boundaries: the
  receiver sees the same bytes in chunks of any size up to its buffer, which are its
  argument, ended by end of file. What a receiver does with one chunk is its step; reading
  past an array without a terminator (\<open>cout << buffer\<close>, \<open>string(buffer)\<close>) is the error value
  \<open>UnterminatedString\<close>, and a failed \<open>read\<close> an error where its -1 is used as a length.
\<close>

abbreviation (input) NL :: char where "NL \<equiv> CHR 0x0A"

text \<open>\<open>getline\<close> until the end of the file.\<close>

function getlines :: "string \<Rightarrow> string list" where
  "getlines s = (if s = [] then []
     else takeWhile (\<lambda>c. c \<noteq> NL) s # getlines (drop 1 (dropWhile (\<lambda>c. c \<noteq> NL) s)))"
  by pat_completeness auto
termination
proof (relation "measure length")
  fix s :: string assume "s \<noteq> []"
  then have "length (drop 1 (dropWhile (\<lambda>c. c \<noteq> NL) s)) < length s"
    using length_dropWhile_le[of "\<lambda>c. c \<noteq> NL" s] by (cases s) (auto simp: le_imp_less_Suc less_Suc_eq_le)
  then show "(drop 1 (dropWhile (\<lambda>c. c \<noteq> NL) s), s) \<in> measure length" by simp
qed simp

declare getlines.simps [simp del]

subsection \<open>\<open>dpipe.cpp\<close>\<close>

text \<open>The child: every line with its newline put back.\<close>

definition dpipe_child :: "string \<Rightarrow> string list" where
  "dpipe_child input = map (\<lambda>line. line @ [NL]) (getlines input)"

text \<open>
  The parent: \<open>cout << buffer\<close> and \<open>output << buffer\<close>, then \<open>memset\<close>. The array is not initialised
  (line 42): before the first \<open>read\<close> it holds arbitrary bytes, \<open>junk\<close>.
\<close>

record dpipe =
  dbuffer :: string
  doutput :: string

definition dpipe_start :: "string \<Rightarrow> dpipe" where
  "dpipe_start junk = \<lparr>dbuffer = junk, doutput = []\<rparr>"

definition dpipe_parent :: "string \<Rightarrow> dpipe \<Rightarrow> c_error + dpipe" where
  "dpipe_parent chunk s =
     (let b = blit chunk (dbuffer s) in
      case strlen b of
        None \<Rightarrow> Inl UnterminatedString
      | Some k \<Rightarrow> Inr (s\<lparr>doutput := doutput s @ take k b, dbuffer := zeros 1024\<rparr>))"

subsection \<open>\<open>fifo_pipe.cpp\<close>\<close>

text \<open>The parent: \<open>readsome\<close> gives what the stream buffer has, \<open>avail\<close>; nothing ends the loop.\<close>

fun fifo_parent :: "nat list \<Rightarrow> string \<Rightarrow> string list" where
  "fifo_parent [] file = []"
| "fifo_parent (avail # avs) file =
     (let chunk = take (min avail 4096) file in
      if chunk = [] then [] else chunk # fifo_parent avs (drop (length chunk) file))"

record fifo =
  fbuffer :: string
  ffile :: string

definition fifo_child :: "string \<Rightarrow> fifo \<Rightarrow> c_error + fifo" where
  "fifo_child chunk s =
     (let b = blit chunk (fbuffer s) in
      Inr (s\<lparr>ffile := ffile s @ take (length chunk) b, fbuffer := zeros 4096\<rparr>))"

subsection \<open>\<open>UNIX_socket.cpp\<close>\<close>

text \<open>The child sends like \<open>dpipe_child\<close>; the parent's buffer is cleared once per connection.\<close>

definition unix_child :: "string \<Rightarrow> string list" where
  "unix_child input = map (\<lambda>line. line @ [NL]) (getlines input)"

record unix =
  ubuffer :: string
  udata :: string

definition unix_start :: unix where
  "unix_start = \<lparr>ubuffer = zeros 16, udata = []\<rparr>"

definition unix_parent :: "string \<Rightarrow> unix \<Rightarrow> c_error + unix" where
  "unix_parent chunk s =
     (let b = blit chunk (ubuffer s) in
      case strlen b of
        None \<Rightarrow> Inl UnterminatedString
      | Some k \<Rightarrow> Inr (s\<lparr>ubuffer := b, udata := udata s @ take k b\<rparr>))"

subsection \<open>\<open>REUSE_PORT\<close>\<close>

text \<open>
  What one worker of the client sends from the file it reads: the lines without their newlines. The
  twelve workers of \<open>main\<close> redirect the same \<open>cin\<close>; the model is of a worker whose reading is
  not disturbed by the others.
\<close>

definition reuse_client :: "string \<Rightarrow> string list" where
  "reuse_client file = getlines file"

record reuse =
  rbuffer :: string
  all_count :: nat
  read_content :: string

definition reuse_start :: "string \<Rightarrow> reuse" where
  "reuse_start junk = \<lparr>rbuffer = junk, all_count = 0, read_content = []\<rparr>"

definition reuse_server :: "string \<Rightarrow> reuse \<Rightarrow> c_error + reuse" where
  "reuse_server chunk s =
     (let b = blit chunk (rbuffer s) in
      Inr (s\<lparr>all_count := all_count s + length chunk, read_content := read_content s @ take (length chunk) b,
             rbuffer := zeros 1024\<rparr>))"

subsection \<open>The contract of a receiver\<close>

locale chunk_receiver =
  fixes recv :: "string \<Rightarrow> 's \<Rightarrow> c_error + 's" and copied :: "'s \<Rightarrow> string"
    and chunk_ok :: "string \<Rightarrow> bool" and ready :: "'s \<Rightarrow> bool"
  assumes recv_appends: "ready s \<Longrightarrow> chunk_ok c \<Longrightarrow> \<exists>t. recv c s = Inr t \<and> ready t \<and> copied t = copied s @ c"
begin

lemma recv_all:
  "ready s \<Longrightarrow> \<forall>c \<in> set cs. chunk_ok c \<Longrightarrow> \<exists>t. foldE recv cs s = Inr t \<and> ready t \<and> copied t = copied s @ concat cs"
proof (induction cs arbitrary: s)
  case (Cons c cs)
  then obtain u where u: "recv c s = Inr u" "ready u" "copied u = copied s @ c"
    using recv_appends[of s c] by auto
  from Cons.IH[OF u(2)] Cons.prems obtain t where "foldE recv cs u = Inr t" "ready t" "copied t = copied u @ concat cs"
    by auto
  with u show ?case by auto
qed simp

end

interpretation dpipe: chunk_receiver dpipe_parent doutput "\<lambda>c. NUL \<notin> set c \<and> length c < 1024"
    "\<lambda>s. dbuffer s = zeros 1024"
proof
  fix s :: dpipe and c :: string
  assume "dbuffer s = zeros 1024" "NUL \<notin> set c \<and> length c < 1024"
  then show "\<exists>t. dpipe_parent c s = Inr t \<and> dbuffer t = zeros 1024 \<and> doutput t = doutput s @ c"
    using strlen_blit_zeros[of c 1024] take_blit[of c] by (simp add: dpipe_parent_def)
qed

interpretation fifo: chunk_receiver fifo_child ffile "\<lambda>c. length c \<le> 4096" "\<lambda>s. True"
  by unfold_locales (simp add: fifo_child_def take_blit)

interpretation reuse: chunk_receiver reuse_server read_content "\<lambda>c. length c \<le> 1024" "\<lambda>s. True"
  by unfold_locales (simp add: reuse_server_def take_blit)

subsection \<open>The senders\<close>

lemma getlines_Nil [simp]: "getlines [] = []"
  by (subst getlines.simps) simp

text \<open>Lines with newlines are the file, with a newline at its end if there was none.\<close>

lemma lines_newlines:
  "concat (map (\<lambda>l. l @ [NL]) (getlines s)) = (if s = [] \<or> last s = NL then s else s @ [NL])"
proof (induction s rule: getlines.induct)
  case (1 s)
  show ?case
  proof (cases "s = []")
    case False
    let ?r = "drop 1 (dropWhile (\<lambda>c. c \<noteq> NL) s)"
    have s: "s = takeWhile (\<lambda>c. c \<noteq> NL) s @ dropWhile (\<lambda>c. c \<noteq> NL) s" by simp
    have g: "concat (map (\<lambda>l. l @ [NL]) (getlines s)) = takeWhile (\<lambda>c. c \<noteq> NL) s @ [NL] @ concat (map (\<lambda>l. l @ [NL]) (getlines ?r))"
      using False by (subst getlines.simps) simp
    show ?thesis
    proof (cases "dropWhile (\<lambda>c. c \<noteq> NL) s")
      case Nil
      then have "NL \<notin> set s" by (auto simp: dropWhile_eq_Nil_conv)
      then have "last s \<noteq> NL" "takeWhile (\<lambda>c. c \<noteq> NL) s = s"
        using last_in_set[OF False] by (auto simp: takeWhile_eq_all_conv)
      then show ?thesis using g Nil False by simp
    next
      case (Cons x xs)
      then have "x = NL" using hd_dropWhile[of "\<lambda>c. c \<noteq> NL" s] by auto
      then have s': "s = takeWhile (\<lambda>c. c \<noteq> NL) s @ NL # xs" using s Cons by simp
      have ih: "concat (map (\<lambda>l. l @ [NL]) (getlines xs)) = (if xs = [] \<or> last xs = NL then xs else xs @ [NL])"
        using 1[OF False] Cons by simp
      have l: "last s = (if xs = [] then NL else last xs)" by (subst s') simp
      have "concat (map (\<lambda>l. l @ [NL]) (getlines s)) = (takeWhile (\<lambda>c. c \<noteq> NL) s @ NL # xs) @ (if xs = [] \<or> last xs = NL then [] else [NL])"
        using g ih Cons by simp
      then show ?thesis using l s' False by (auto split: if_splits)
    qed
  qed simp
qed

lemma concat_getlines: "concat (getlines s) = filter (\<lambda>c. c \<noteq> NL) s"
proof (induction s rule: getlines.induct)
  case (1 s)
  show ?case
  proof (cases "s = []")
    case False
    let ?r = "drop 1 (dropWhile (\<lambda>c. c \<noteq> NL) s)"
    have "filter (\<lambda>c. c \<noteq> NL) s = filter (\<lambda>c. c \<noteq> NL) (takeWhile (\<lambda>c. c \<noteq> NL) s @ dropWhile (\<lambda>c. c \<noteq> NL) s)" by simp
    also have "\<dots> = takeWhile (\<lambda>c. c \<noteq> NL) s @ filter (\<lambda>c. c \<noteq> NL) (dropWhile (\<lambda>c. c \<noteq> NL) s)"
    proof -
      have "filter (\<lambda>c. c \<noteq> NL) (takeWhile (\<lambda>c. c \<noteq> NL) s) = takeWhile (\<lambda>c. c \<noteq> NL) s"
        unfolding filter_id_conv by (auto dest: set_takeWhileD)
      then show ?thesis unfolding filter_append by simp
    qed
    also have "filter (\<lambda>c. c \<noteq> NL) (dropWhile (\<lambda>c. c \<noteq> NL) s) = filter (\<lambda>c. c \<noteq> NL) ?r"
    proof (cases "dropWhile (\<lambda>c. c \<noteq> NL) s")
      case (Cons x xs)
      then have "x = NL" using hd_dropWhile[of "\<lambda>c. c \<noteq> NL" s] by auto
      with Cons show ?thesis by simp
    next
      case Nil
      show ?thesis unfolding Nil by simp
    qed
    finally have f: "filter (\<lambda>c. c \<noteq> NL) s = takeWhile (\<lambda>c. c \<noteq> NL) s @ filter (\<lambda>c. c \<noteq> NL) ?r" .
    have "concat (getlines s) = takeWhile (\<lambda>c. c \<noteq> NL) s @ concat (getlines ?r)"
      using False by (subst getlines.simps) simp
    also have "concat (getlines ?r) = filter (\<lambda>c. c \<noteq> NL) ?r" by (rule 1[OF False])
    finally show ?thesis unfolding f .
  qed simp
qed

text \<open>What the parent sends: the file up to the first \<open>readsome\<close> that finds nothing buffered.\<close>

definition fifo_sent :: "nat list \<Rightarrow> nat" where
  "fifo_sent avs = sum_list (map (\<lambda>a. min a 4096) (takeWhile (\<lambda>a. 0 < a) avs))"

lemma fifo_parent_sends: "concat (fifo_parent avs bs) = take (fifo_sent avs) bs"
proof (induction avs bs rule: fifo_parent.induct)
  case (2 avail avs bs)
  let ?n = "min avail 4096"
  show ?case
  proof (cases "take ?n bs = []")
    case True
    then have "avail = 0 \<or> bs = []" by auto
    with True show ?thesis by (auto simp: fifo_sent_def)
  next
    case False
    have d: "drop (length (take ?n bs)) bs = drop ?n bs" by (metis append_take_drop_id append_eq_conv_conj)
    have "concat (fifo_parent (avail # avs) bs) = take ?n bs @ take (fifo_sent avs) (drop ?n bs)"
      using False 2[OF refl False] d by (simp only: fifo_parent.simps Let_def if_False concat.simps)
    also have "\<dots> = take (fifo_sent (avail # avs)) bs" using False by (simp add: fifo_sent_def take_add)
    finally show ?thesis .
  qed
qed (simp add: fifo_sent_def)

text \<open>The first read of \<open>dpipe\<close> finds the uninitialised buffer.\<close>

lemma strlen_blit_stale:
  assumes "NUL \<notin> set c" and "length c \<le> length junk"
  shows "strlen (blit c junk) = (if NUL \<in> set (drop (length c) junk)
    then Some (length c + length (takeWhile (\<lambda>x. x \<noteq> NUL) (drop (length c) junk))) else None)"
proof -
  have "takeWhile (\<lambda>x. x \<noteq> NUL) (c @ ys) = c @ takeWhile (\<lambda>x. x \<noteq> NUL) ys" for ys
    using assms(1) by (intro takeWhile_append2) metis
  then show ?thesis using assms(1) by (simp add: strlen_def blit_def)
qed

lemma dpipe_first:
  assumes "NUL \<notin> set c" and "length c \<le> length junk"
  shows "dpipe_parent c (dpipe_start junk) = (if NUL \<in> set (drop (length c) junk)
    then Inr \<lparr>dbuffer = zeros 1024, doutput = c @ takeWhile (\<lambda>x. x \<noteq> NUL) (drop (length c) junk)\<rparr>
    else Inl UnterminatedString)"
proof -
  show ?thesis
    unfolding dpipe_parent_def dpipe_start_def Let_def dpipe.simps strlen_blit_stale[OF assms]
    unfolding blit_def using takeWhile_eq_take[of "\<lambda>x. x \<noteq> NUL" "drop (length c) junk"] by simp
qed

lemma dpipe_full:
  "\<forall>c \<in> set cs. NUL \<notin> set c \<and> length c \<le> 1024 \<Longrightarrow> x \<in> set cs \<Longrightarrow> length x = 1024 \<Longrightarrow>
     dbuffer s = zeros 1024 \<Longrightarrow> foldE dpipe_parent cs s = Inl UnterminatedString"
proof (induction cs arbitrary: s)
  case (Cons c cs)
  show ?case
  proof (cases "length c = 1024")
    case True
    then have "blit c (zeros 1024) = c" by (simp add: blit_def zeros_def)
    then show ?thesis using Cons.prems by (simp add: dpipe_parent_def strlen_None)
  next
    case False
    with Cons.prems have "NUL \<notin> set c \<and> length c < 1024" by (simp add: le_neq_implies_less)
    from dpipe.recv_appends[OF Cons.prems(4) this] False Cons show ?thesis by auto
  qed
qed simp

subsection \<open>Properties\<close>

text \<open>
  C11. What the two pipe programs write, exactly. \<open>dpipe\<close>, for a file without NUL bytes whose lines,
  each with a newline, arrive as the reads \<open>c\<close> and \<open>cs\<close> of at most 1024 bytes, with \<open>junk\<close> in the
  uninitialised buffer: when a later read fills the buffer, or nothing terminates the junk
  behind the first read, an array without a terminator is printed (undefined behaviour);
  otherwise the output is the file, with a newline added at its end if it had none, and
  with the junk up to its first NUL inserted behind the first read, so that the copy is
  exact when the byte behind the first read happens to be NUL. \<open>fifo_pipe\<close>: the child's file
  is exactly the beginning of the input of as many bytes as \<open>readsome\<close> found buffered before
  it first found nothing, at most 4096 at a time, however the FIFO cuts them into reads.
\<close>

theorem stream_copies:
  "(NUL \<notin> set f \<and> length junk = 1024 \<and> c @ concat cs = concat (dpipe_child f) \<and>
      (\<forall>x \<in> set (c # cs). length x \<le> 1024) \<longrightarrow>
      (let copy = (if f = [] \<or> last f = NL then f else f @ [NL]);
           stale = takeWhile (\<lambda>x. x \<noteq> NUL) (drop (length c) junk) in
       foldE dpipe_parent (c # cs) (dpipe_start junk) =
         (if NUL \<notin> set (drop (length c) junk) \<or> (\<exists>x \<in> set cs. length x = 1024) then Inl UnterminatedString
          else Inr \<lparr>dbuffer = zeros 1024,
                    doutput = take (length c) copy @ stale @ drop (length c) copy\<rparr>))) \<and>
   (concat cs = concat (fifo_parent avs f) \<and> (\<forall>x \<in> set cs. length x \<le> 4096) \<longrightarrow>
      (\<exists>t. foldE fifo_child cs \<lparr>fbuffer = zeros 4096, ffile = []\<rparr> = Inr t \<and>
        ffile t = take (sum_list (map (\<lambda>a. min a 4096) (takeWhile (\<lambda>a. 0 < a) avs))) f))"
proof (intro conjI impI)
  assume h: "NUL \<notin> set f \<and> length junk = 1024 \<and> c @ concat cs = concat (dpipe_child f) \<and>
      (\<forall>x \<in> set (c # cs). length x \<le> 1024)"
  let ?copy = "if f = [] \<or> last f = NL then f else f @ [NL]"
  have sent: "c @ concat cs = ?copy" using h lines_newlines[of f] by (simp add: dpipe_child_def)
  have "NUL \<notin> set (c @ concat cs)" unfolding sent using h by auto
  then have n: "NUL \<notin> set c" "\<forall>x \<in> set cs. NUL \<notin> set x \<and> length x \<le> 1024"
    using h unfolding set_append set_concat by auto
  have parts: "take (length c) ?copy = c" "drop (length c) ?copy = concat cs"
    unfolding sent[symmetric] by simp_all
  let ?s = "\<lparr>dbuffer = zeros 1024, doutput = c @ takeWhile (\<lambda>x. x \<noteq> NUL) (drop (length c) junk)\<rparr>"
  have first: "dpipe_parent c (dpipe_start junk) =
      (if NUL \<in> set (drop (length c) junk) then Inr ?s else Inl UnterminatedString)"
    using dpipe_first[OF n(1)] h by simp
  have later: "foldE dpipe_parent cs ?s = (if \<exists>x \<in> set cs. length x = 1024 then Inl UnterminatedString
      else Inr \<lparr>dbuffer = zeros 1024, doutput = doutput ?s @ concat cs\<rparr>)"
  proof (cases "\<exists>x \<in> set cs. length x = 1024")
    case True
    with dpipe_full[OF n(2)] show ?thesis by auto
  next
    case False
    then have "\<forall>x \<in> set cs. NUL \<notin> set x \<and> length x < 1024" using n(2) by (metis le_neq_implies_less)
    then obtain t where "foldE dpipe_parent cs ?s = Inr t" "doutput t = doutput ?s @ concat cs"
        "dbuffer t = zeros 1024"
      using dpipe.recv_all[of ?s cs] by auto
    with False show ?thesis by (cases t) simp
  qed
  show "let copy = ?copy; stale = takeWhile (\<lambda>x. x \<noteq> NUL) (drop (length c) junk) in
       foldE dpipe_parent (c # cs) (dpipe_start junk) =
         (if NUL \<notin> set (drop (length c) junk) \<or> (\<exists>x \<in> set cs. length x = 1024) then Inl UnterminatedString
          else Inr \<lparr>dbuffer = zeros 1024, doutput = take (length c) copy @ stale @ drop (length c) copy\<rparr>)"
    unfolding Let_def parts using first later by auto
next
  assume h: "concat cs = concat (fifo_parent avs f) \<and> (\<forall>x \<in> set cs. length x \<le> 4096)"
  then show "\<exists>t. foldE fifo_child cs \<lparr>fbuffer = zeros 4096, ffile = []\<rparr> = Inr t \<and>
      ffile t = take (sum_list (map (\<lambda>a. min a 4096) (takeWhile (\<lambda>a. 0 < a) avs))) f"
    using fifo.recv_all[of cs "\<lparr>fbuffer = zeros 4096, ffile = []\<rparr>"] fifo_parent_sends[of avs f]
    by (auto simp: fifo_sent_def)
qed

theorem stream_copies_witness:
  "foldE dpipe_parent [''h'', ''i'' @ [NL]] (dpipe_start (''xyz'' @ zeros 1021)) =
     Inr \<lparr>dbuffer = zeros 1024, doutput = ''hyzi'' @ [NL]\<rparr>"
proof -
  let ?j = "''xyz'' @ zeros 1021"
  have g: "getlines ''hi'' = [''hi'']" by (simp add: getlines.simps)
  have j: "length ?j = 1024" "NUL \<in> set (drop (length ''h'') ?j)"
      "takeWhile (\<lambda>x. x \<noteq> NUL) (drop (length ''h'') ?j) = ''yz''"
    by (simp_all add: zeros_def)
  show ?thesis
    using stream_copies[of "''hi''" ?j "''h''" "[''i'' @ [NL]]" "[]"] g j
    by (simp add: dpipe_child_def Let_def)
qed

text \<open>
  C31. The local-socket server repeats old bytes: its buffer of 16 is cleared once per connection and never
  terminated, so a read shorter than the one before it appends the new bytes followed by
  the tail of the old ones, and a read that fills the buffer makes \<open>string(buffer)\<close> run
  past its end.
\<close>

theorem unix_stale_bytes:
  assumes "NUL \<notin> set c1" and "NUL \<notin> set c2" and "length c2 < length c1" and "length c1 \<le> 16"
  shows "foldE unix_parent [c1, c2] unix_start =
    (if length c1 = 16 then Inl UnterminatedString
     else Inr \<lparr>ubuffer = blit (c2 @ drop (length c2) c1) (zeros 16), udata = c1 @ c2 @ drop (length c2) c1\<rparr>)"
proof (cases "length c1 = 16")
  case True
  then have "blit c1 (zeros 16) = c1" by (simp add: blit_def zeros_def)
  with True assms(1) show ?thesis by (simp add: unix_parent_def unix_start_def strlen_None)
next
  case False
  let ?z = "c2 @ drop (length c2) c1"
  have b: "blit c2 (blit c1 (zeros 16)) = blit ?z (zeros 16)" using assms(3,4) by (simp add: blit_def zeros_def)
  have z: "NUL \<notin> set ?z" "length ?z < 16" using assms False by (auto dest: in_set_dropD)
  have 1: "unix_parent c1 unix_start = Inr \<lparr>ubuffer = blit c1 (zeros 16), udata = c1\<rparr>"
    using strlen_blit_zeros[OF assms(1), of 16] assms(4) False take_blit[of c1 "zeros 16"]
    by (simp add: unix_parent_def unix_start_def)
  have 2: "unix_parent c2 \<lparr>ubuffer = blit c1 (zeros 16), udata = c1\<rparr> =
      Inr \<lparr>ubuffer = blit ?z (zeros 16), udata = c1 @ ?z\<rparr>"
    using strlen_blit_zeros[OF z] take_blit[of ?z "zeros 16"] unfolding unix_parent_def Let_def
    by (simp add: b)
  show ?thesis using False by (simp add: 1 2)
qed

theorem unix_stale_bytes_witness:
  "foldE unix_parent [''hello'', ''ab''] unix_start =
     Inr \<lparr>ubuffer = blit ''abllo'' (zeros 16), udata = ''helloabllo''\<rparr>"
  using unix_stale_bytes[of "''hello''" "''ab''"] by simp

end
