(* ===== verification/Readers_Writers.thy ===== *)
theory Readers_Writers
  imports Sync "HOL-Library.Word"
begin

text \<open>
  The readers-and-writers programs: \<open>code/concurrent/rw.cpp\<close> (a counter behind a
  \<open>shared_mutex\<close>), \<open>tiny_rwc.cpp\<close> (one writer and five readers over a growing vector) and
  \<open>1w_nr.cpp\<close> (one writer, \<open>n\<close> readers and a thread that removes what all have read).

  Every access to the shared data is inside a critical section of the \<open>shared_mutex\<close>; a
  critical section is one step. The lines of the input file are an argument.
\<close>

subsection \<open>\<open>rw.cpp\<close>\<close>

text \<open>\<open>value_\<close> is an \<open>unsigned int\<close>; \<open>mtx\<close> makes a call and the line it prints one step.\<close>

datatype rw_line = GetLine nat "32 word" | IncLine nat "32 word"

record rw =
  counter :: "32 word"
  rw_out :: "rw_line list"

definition get :: "rw \<Rightarrow> 32 word" where
  "get s = counter s"

definition increment :: "rw \<Rightarrow> 32 word \<times> rw" where
  "increment s = (counter s + 1, s\<lparr>counter := counter s + 1\<rparr>)"

definition reset :: "rw \<Rightarrow> rw" where
  "reset s = s\<lparr>counter := 0\<rparr>"

inductive rw_step :: "rw \<Rightarrow> rw \<Rightarrow> bool" where
  rw_reader: "1 \<le> i \<Longrightarrow> i \<le> 10 \<Longrightarrow> rw_step s (s\<lparr>rw_out := rw_out s @ [GetLine i (get s)]\<rparr>)"
| rw_writer: "1 \<le> i \<Longrightarrow> i \<le> 10 \<Longrightarrow> increment s = (v, s') \<Longrightarrow>
     rw_step s (s'\<lparr>rw_out := rw_out s' @ [IncLine i v]\<rparr>)"

definition rw_init :: "rw \<Rightarrow> bool" where
  "rw_init s \<longleftrightarrow> s = \<lparr>counter = 0, rw_out = []\<rparr>"

text \<open>What the output must look like: increments count up, reads show the latest count.\<close>

fun rw_log_ok :: "nat \<Rightarrow> rw_line list \<Rightarrow> bool" where
  "rw_log_ok n [] = True"
| "rw_log_ok n (GetLine i v # ls) = (v = of_nat n \<and> rw_log_ok n ls)"
| "rw_log_ok n (IncLine i v # ls) = (v = of_nat (n + 1) \<and> rw_log_ok (n + 1) ls)"

definition increments :: "rw_line list \<Rightarrow> nat" where
  "increments ls = length (filter (\<lambda>l. \<exists>i v. l = IncLine i v) ls)"

lemma rw_log_append:
  "rw_log_ok n (ls @ [l]) \<longleftrightarrow> rw_log_ok n ls \<and> rw_log_ok (n + increments ls) [l]"
proof (induction ls arbitrary: n)
  case (Cons x ls)
  then show ?case by (cases x; cases l) (simp_all add: increments_def add.assoc)
qed (simp add: increments_def)

lemma increments_append: "increments (ls @ [l]) = increments ls + increments [l]"
  by (simp add: increments_def)

definition rw_inv :: "rw \<Rightarrow> bool" where
  "rw_inv s \<longleftrightarrow> rw_log_ok 0 (rw_out s) \<and> counter s = of_nat (increments (rw_out s))"

lemma rw_inv_step: "rw_inv s \<Longrightarrow> rw_step s t \<Longrightarrow> rw_inv t"
  by (erule rw_step.cases)
    (auto simp: rw_inv_def rw_log_append get_def increment_def increments_append, simp_all add: increments_def)

interpretation rw: inductive_invariant rw_init rw_step rw_inv
  by unfold_locales (simp add: rw_init_def rw_inv_def increments_def, rule rw_inv_step)

text \<open>Reads and increments are linearised: the log is that of one counter.\<close>

lemma rw_linear:
  "reach rw_init rw_step s \<Longrightarrow> rw_log_ok 0 (rw_out s) \<and> counter s = of_nat (increments (rw_out s))"
  using rw.reach_holds by (simp add: rw_inv_def)

subsection \<open>\<open>tiny_rwc.cpp\<close>\<close>

definition threshold :: nat where "threshold = 10"
definition max_size :: nat where "max_size = 20"

record tiny =
  pool :: "string list"
  unwritten :: "string list"
  idx :: "nat \<Rightarrow> nat"
  shown :: "nat \<Rightarrow> string list"

text \<open>The writer passes its two waiting loops only while the vector is below both limits.\<close>

inductive tiny_step :: "tiny \<Rightarrow> tiny \<Rightarrow> bool" where
  t_push: "unwritten s = l # ls \<Longrightarrow> \<not> max_size \<le> length (pool s) \<Longrightarrow> \<not> threshold \<le> length (pool s) \<Longrightarrow>
     tiny_step s (s\<lparr>pool := pool s @ [l], unwritten := ls\<rparr>)"
| t_read: "i < 5 \<Longrightarrow> idx s i < length (pool s) \<Longrightarrow>
     tiny_step s (s\<lparr>shown := (shown s)(i := shown s i @ [pool s ! idx s i]), idx := (idx s)(i := idx s i + 1)\<rparr>)"

definition tiny_init :: "string list \<Rightarrow> tiny \<Rightarrow> bool" where
  "tiny_init lines s \<longleftrightarrow> s = \<lparr>pool = [], unwritten = lines, idx = (\<lambda>_. 0), shown = (\<lambda>_. [])\<rparr>"

definition tiny_inv :: "string list \<Rightarrow> tiny \<Rightarrow> bool" where
  "tiny_inv lines s \<longleftrightarrow> pool s @ unwritten s = lines \<and> length (pool s) \<le> 10 \<and>
     (\<forall>i. idx s i \<le> length (pool s) \<and> shown s i = take (idx s i) (pool s))"

lemma tiny_inv_step: "tiny_inv lines s \<Longrightarrow> tiny_step s t \<Longrightarrow> tiny_inv lines t"
  by (erule tiny_step.cases)
    (auto simp: tiny_inv_def threshold_def take_Suc_conv_app_nth le_SucI)

interpretation tiny: inductive_invariant "tiny_init lines" tiny_step "tiny_inv lines"
  by unfold_locales (simp add: tiny_init_def tiny_inv_def, rule tiny_inv_step)

subsection \<open>\<open>1w_nr.cpp\<close>\<close>

datatype wstate = WTop | WUnlocked | WEnd
datatype rstate = RTop | RSleep | RNotify | RDone | RCrash
datatype kstate = KTop | KSleep | KDone | KCrash

record nr =
  data_list :: "string list"
  unread_file :: "string list"
  write_end_flag :: bool
  clear_end_flag :: bool
  aready_read :: nat
  wstate :: wstate
  rstate :: "nat \<Rightarrow> rstate"
  rblocked :: "nat set"
  kstate :: kstate
  kblocked :: bool
  popped :: "string list"
  readlog :: "nat \<Rightarrow> string list"

text \<open>
  \<open>writer\<close>: at 70 elements or more it gives up the lock, sleeps, and appends without the lock;
  the branch for 90 is never taken.
\<close>

inductive nr_writer :: "nr \<Rightarrow> nr \<Rightarrow> bool" where
  nw_push: "wstate s = WTop \<Longrightarrow> unread_file s = l # ls \<Longrightarrow> length (data_list s) < 70 \<Longrightarrow>
     nr_writer s (s\<lparr>data_list := data_list s @ [l], unread_file := ls, rblocked := {}\<rparr>)"
| nw_warn: "wstate s = WTop \<Longrightarrow> unread_file s \<noteq> [] \<Longrightarrow> 70 \<le> length (data_list s) \<Longrightarrow>
     nr_writer s (s\<lparr>rblocked := {}, wstate := WUnlocked\<rparr>)"
| nw_late: "wstate s = WUnlocked \<Longrightarrow> unread_file s = l # ls \<Longrightarrow>
     nr_writer s (s\<lparr>data_list := data_list s @ [l], unread_file := ls, rblocked := {}, wstate := WTop\<rparr>)"
| nw_end: "wstate s = WTop \<Longrightarrow> unread_file s = [] \<Longrightarrow>
     nr_writer s (s\<lparr>write_end_flag := True, wstate := WEnd\<rparr>)"

text \<open>\<open>reader\<close>: \<open>wait\<close> without a predicate, then the front element; empty is undefined.\<close>

inductive nr_reader :: "nat \<Rightarrow> nr \<Rightarrow> nr \<Rightarrow> bool" for i :: nat where
  nr_sleep: "rstate s i = RTop \<Longrightarrow> \<not> clear_end_flag s \<Longrightarrow>
     nr_reader i s (s\<lparr>rblocked := insert i (rblocked s), rstate := (rstate s)(i := RSleep)\<rparr>)"
| nr_exit: "rstate s i = RTop \<Longrightarrow> clear_end_flag s \<Longrightarrow> nr_reader i s (s\<lparr>rstate := (rstate s)(i := RDone)\<rparr>)"
| nr_read: "rstate s i = RSleep \<Longrightarrow> i \<notin> rblocked s \<Longrightarrow> data_list s = d # ds \<Longrightarrow>
     nr_reader i s (s\<lparr>aready_read := aready_read s + 1, readlog := (readlog s)(i := readlog s i @ [d]),
       rstate := (rstate s)(i := RNotify)\<rparr>)"
| nr_crash: "rstate s i = RSleep \<Longrightarrow> i \<notin> rblocked s \<Longrightarrow> data_list s = [] \<Longrightarrow>
     nr_reader i s (s\<lparr>rstate := (rstate s)(i := RCrash)\<rparr>)"
| nr_notify: "rstate s i = RNotify \<Longrightarrow>
     nr_reader i s (s\<lparr>kblocked := False, rstate := (rstate s)(i := RTop)\<rparr>)"

text \<open>\<open>clear\<close> (through \<open>once_clear\<close>).\<close>

inductive nr_clear :: "nat \<Rightarrow> nr \<Rightarrow> nr \<Rightarrow> bool" for n :: nat where
  nk_wait: "kstate s = KTop \<or> kstate s = KSleep \<and> \<not> kblocked s \<Longrightarrow> aready_read s \<noteq> n \<Longrightarrow>
     nr_clear n s (s\<lparr>kblocked := True, kstate := KSleep\<rparr>)"
| nk_last: "kstate s = KTop \<or> kstate s = KSleep \<and> \<not> kblocked s \<Longrightarrow> aready_read s = n \<Longrightarrow> data_list s = [d] \<Longrightarrow>
     nr_clear n s (s\<lparr>aready_read := 0, data_list := [], popped := popped s @ [d], clear_end_flag := True,
       kstate := KDone\<rparr>)"
| nk_pop: "kstate s = KTop \<or> kstate s = KSleep \<and> \<not> kblocked s \<Longrightarrow> aready_read s = n \<Longrightarrow>
     data_list s = d # ds \<Longrightarrow> ds \<noteq> [] \<Longrightarrow>
     nr_clear n s (s\<lparr>aready_read := 0, data_list := ds, popped := popped s @ [d],
       rblocked := if write_end_flag s then {} else rblocked s, kstate := KTop\<rparr>)"
| nk_crash: "kstate s = KTop \<or> kstate s = KSleep \<and> \<not> kblocked s \<Longrightarrow> aready_read s = n \<Longrightarrow> data_list s = [] \<Longrightarrow>
     nr_clear n s (s\<lparr>kstate := KCrash\<rparr>)"

definition nr_init :: "string list \<Rightarrow> nr \<Rightarrow> bool" where
  "nr_init lines s \<longleftrightarrow> s = \<lparr>data_list = [], unread_file = lines, write_end_flag = False, clear_end_flag = False,
     aready_read = 0, wstate = WTop, rstate = (\<lambda>_. RTop), rblocked = {}, kstate = KTop, kblocked = False,
     popped = [], readlog = (\<lambda>_. [])\<rparr>"

definition nr_next :: "nat \<Rightarrow> nr \<Rightarrow> nr \<Rightarrow> bool" where
  "nr_next n s t \<longleftrightarrow> nr_writer s t \<or> (\<exists>i<n. nr_reader i s t) \<or> nr_clear n s t"

definition nr_any :: "nat \<Rightarrow> nr \<Rightarrow> nr \<Rightarrow> bool" where
  "nr_any n s t \<longleftrightarrow> nr_next n s t \<or> (\<exists>i \<in> rblocked s. t = s\<lparr>rblocked := rblocked s - {i}\<rparr>)
     \<or> t = s\<lparr>kblocked := False\<rparr>"

definition nr_inv :: "string list \<Rightarrow> nr \<Rightarrow> bool" where
  "nr_inv lines s \<longleftrightarrow> popped s @ data_list s @ unread_file s = lines \<and> (\<forall>i. set (readlog s i) \<subseteq> set lines)"

inductive_cases nr_writerE: "nr_writer s t"
inductive_cases nr_readerE: "nr_reader i s t"
inductive_cases nr_clearE: "nr_clear n s t"

lemma nr_inv_step: "nr_inv lines s \<Longrightarrow> nr_any n s t \<Longrightarrow> nr_inv lines t"
  unfolding nr_any_def nr_next_def
  by (elim disjE exE conjE bexE nr_writerE nr_readerE nr_clearE) (auto simp: nr_inv_def)

interpretation nr: inductive_invariant "nr_init lines" "nr_any n" "nr_inv lines"
  by unfold_locales (simp add: nr_init_def nr_inv_def, rule nr_inv_step)

lemma reach_nr_writer: "reach ini (nr_next n) s \<Longrightarrow> nr_writer s t \<Longrightarrow> reach ini (nr_next n) t"
  by (erule reach_nxt) (auto simp: nr_next_def)

lemma reach_nr_reader: "reach ini (nr_next n) s \<Longrightarrow> i < n \<Longrightarrow> nr_reader i s t \<Longrightarrow> reach ini (nr_next n) t"
  by (erule reach_nxt) (auto simp: nr_next_def)

lemma reach_nr_clear: "reach ini (nr_next n) s \<Longrightarrow> nr_clear n s t \<Longrightarrow> reach ini (nr_next n) t"
  by (erule reach_nxt) (auto simp: nr_next_def)

subsection \<open>Properties\<close>

text \<open>
  \<open>tiny_rwc\<close>: in every reachable state what a reader has printed is a beginning of the file, each line
  once and in order, and nobody removes lines, so the writer stops for ever at 10 of them:
  no reader ever prints more than the first ten lines.
\<close>

theorem tiny_readers_prefix:
  assumes "reach (tiny_init lines) tiny_step s"
  shows "(\<exists>rest. lines = shown s i @ rest) \<and> length (shown s i) \<le> 10 \<and>
    (length (pool s) = 10 \<longrightarrow> (\<forall>t. tiny_step s t \<longrightarrow> pool t = pool s \<and> unwritten t = unwritten s))"
proof -
  have inv: "tiny_inv lines s" using assms by (rule tiny.reach_holds)
  then have "lines = take (idx s i) (pool s) @ drop (idx s i) (pool s) @ unwritten s"
    "shown s i = take (idx s i) (pool s)" "length (pool s) \<le> 10" by (auto simp: tiny_inv_def)
  moreover have "pool t = pool s \<and> unwritten t = unwritten s"
    if "length (pool s) = 10" "tiny_step s t" for t
    using that(2,1) by (cases rule: tiny_step.cases) (auto simp: threshold_def)
  ultimately show ?thesis by auto
qed

theorem tiny_readers_prefix_witness:
  "\<exists>s. reach (tiny_init [''a'', ''b'']) tiny_step s \<and> pool s = [''a''] \<and> length (shown s 0) \<le> 10"
proof -
  let ?s0 = "\<lparr>pool = [], unwritten = [''a'', ''b''], idx = (\<lambda>_. 0), shown = (\<lambda>_. [])\<rparr>"
  let ?s1 = "?s0\<lparr>pool := pool ?s0 @ [''a''], unwritten := [''b'']\<rparr>"
  have "reach (tiny_init [''a'', ''b'']) tiny_step ?s0" by (rule reach_ini) (simp add: tiny_init_def)
  moreover have "tiny_step ?s0 ?s1" by (rule t_push) (simp_all add: max_size_def threshold_def)
  ultimately have r: "reach (tiny_init [''a'', ''b'']) tiny_step ?s1" by (rule reach_nxt)
  with tiny_readers_prefix[OF r, of 0] show ?thesis by (intro exI[of _ ?s1]) simp
qed

text \<open>
  \<open>1w_nr\<close>: the lines removed, those in the list and those not yet read from the file are always the
  file, in order, and readers see only lines of the file; but the cleaner ends the
  program as soon as it empties the list: for any file of at least two lines there is a
  run with one reader in which only the first line is ever read.
\<close>

theorem nr_list_order:
  "(\<forall>s. reach (nr_init lines) (nr_any n) s \<longrightarrow>
      popped s @ data_list s @ unread_file s = lines \<and> (\<forall>i. set (readlog s i) \<subseteq> set lines)) \<and>
   (\<forall>x ls. lines = x # ls \<longrightarrow> (\<exists>s. reach (nr_init lines) (nr_next 1) s \<and> clear_end_flag s \<and>
      popped s = [x] \<and> unread_file s = ls \<and> readlog s 0 = [x]))"
proof (intro conjI allI impI)
  fix s assume "reach (nr_init lines) (nr_any n) s"
  then have "nr_inv lines s" by (rule nr.reach_holds)
  then show "popped s @ data_list s @ unread_file s = lines" "set (readlog s i) \<subseteq> set lines" for i
    by (auto simp: nr_inv_def)
next
  fix x ls assume lines: "lines = x # ls"
  let ?s0 = "\<lparr>data_list = [], unread_file = x # ls, write_end_flag = False, clear_end_flag = False,
     aready_read = 0, wstate = WTop, rstate = (\<lambda>_. RTop), rblocked = {}, kstate = KTop, kblocked = False,
     popped = [], readlog = (\<lambda>_. [])\<rparr>"
  let ?s1 = "?s0\<lparr>rblocked := insert 0 (rblocked ?s0), rstate := (rstate ?s0)(0 := RSleep)\<rparr>"
  let ?s2 = "?s1\<lparr>data_list := data_list ?s1 @ [x], unread_file := ls, rblocked := {}\<rparr>"
  let ?s3 = "?s2\<lparr>aready_read := aready_read ?s2 + 1, readlog := (readlog ?s2)(0 := readlog ?s2 0 @ [x]),
       rstate := (rstate ?s2)(0 := RNotify)\<rparr>"
  let ?s4 = "?s3\<lparr>aready_read := 0, data_list := [], popped := popped ?s3 @ [x], clear_end_flag := True, kstate := KDone\<rparr>"
  have "reach (nr_init lines) (nr_next 1) ?s0" by (rule reach_ini) (simp add: nr_init_def lines)
  then have "reach (nr_init lines) (nr_next 1) ?s1" by (rule reach_nr_reader[OF _ _ nr_sleep]) simp_all
  then have "reach (nr_init lines) (nr_next 1) ?s2" by (rule reach_nr_writer[OF _ nw_push]) simp_all
  then have "reach (nr_init lines) (nr_next 1) ?s3" by (rule reach_nr_reader[OF _ _ nr_read]) simp_all
  then have "reach (nr_init lines) (nr_next 1) ?s4" by (rule reach_nr_clear[OF _ nk_last]) simp_all
  then show "\<exists>s. reach (nr_init lines) (nr_next 1) s \<and> clear_end_flag s \<and> popped s = [x] \<and>
      unread_file s = ls \<and> readlog s 0 = [x]"
    by (intro exI[of _ ?s4]) simp
qed

theorem nr_list_order_witness:
  "\<exists>s. reach (nr_init [''a'', ''b'', ''c'']) (nr_next 1) s \<and> clear_end_flag s \<and> unread_file s = [''b'', ''c'']"
  using nr_list_order[of "[''a'', ''b'', ''c'']"] by blast

end
