(* ===== verification/Turn_Taking.thy ===== *)
theory Turn_Taking
  imports Sync
begin

text \<open>
  Small programs that take turns: the two timers of \<open>code/boost_doc/DS/time.cpp\<close>, the printers of
  \<open>code/concurrent/print.cpp\<close> and of \<open>code/concurrent/alternate_print.cpp\<close>.
\<close>

subsection \<open>\<open>time.cpp\<close>\<close>

text \<open>
  \<open>Print1\<close> and \<open>Print2\<close> run on one strand, so a completion handler is one step, in whatever
  order the timers expire. \<open>armed\<close> are the timers with an asynchronous wait pending; when
  there is none \<open>run\<close> returns.
\<close>

datatype timer = Timer1 | Timer2

datatype timer_line = Count timer nat | ErrorIs timer

record timers =
  cnt :: nat
  armed :: "timer set"
  expires :: "timer \<Rightarrow> nat"
  tout :: "timer_line list"

definition handler :: "timer \<Rightarrow> timers \<Rightarrow> timers" where
  "handler k s =
     (if cnt s < 5
      then s\<lparr>tout := tout s @ [Count k (cnt s)], cnt := cnt s + 1, expires := (expires s)(k := expires s k + 1)\<rparr>
      else s\<lparr>tout := tout s @ [ErrorIs k], armed := armed s - {k}\<rparr>)"

definition timers_step :: "timers \<Rightarrow> timers \<Rightarrow> bool" where
  "timers_step s t \<longleftrightarrow> (\<exists>k \<in> armed s. t = handler k s)"

definition timers_init :: "timers \<Rightarrow> bool" where
  "timers_init s \<longleftrightarrow> s = \<lparr>cnt = 0, armed = {Timer1, Timer2}, expires = (\<lambda>_. 3), tout = []\<rparr>"

fun counts :: "timer_line list \<Rightarrow> nat list" where
  "counts [] = []" | "counts (Count k n # ls) = n # counts ls" | "counts (ErrorIs k # ls) = counts ls"

lemma counts_append: "counts (xs @ ys) = counts xs @ counts ys"
  by (induction xs rule: counts.induct) auto

definition timers_inv :: "timers \<Rightarrow> bool" where
  "timers_inv s \<longleftrightarrow> counts (tout s) = [0..<cnt s] \<and> cnt s \<le> 5 \<and> (cnt s < 5 \<longrightarrow> armed s = {Timer1, Timer2}) \<and>
     finite (armed s) \<and> expires s Timer1 + expires s Timer2 = 6 + cnt s"

lemma timers_inv_step: "timers_inv s \<Longrightarrow> timers_step s t \<Longrightarrow> timers_inv t"
proof -
  assume inv: "timers_inv s" and "timers_step s t"
  then obtain k where k: "k \<in> armed s" "t = handler k s" by (auto simp: timers_step_def)
  show "timers_inv t"
  proof (cases "cnt s < 5")
    case True
    with inv k show ?thesis
      by (cases k) (auto simp: timers_inv_def handler_def counts_append)
  next
    case False
    with inv k show ?thesis by (auto simp: timers_inv_def handler_def counts_append)
  qed
qed

definition timers_rank :: "timers \<Rightarrow> nat" where
  "timers_rank s = (5 - cnt s) + card (armed s)"

lemma timers_rank_step: "timers_inv s \<Longrightarrow> timers_step s t \<Longrightarrow> timers_rank t < timers_rank s"
proof -
  assume inv: "timers_inv s" and "timers_step s t"
  then obtain k where k: "k \<in> armed s" "t = handler k s" by (auto simp: timers_step_def)
  have "finite (armed s)" using inv by (simp add: timers_inv_def)
  then have "card (armed s - {k}) < card (armed s)" using k(1) by (rule card_Diff1_less)
  then show ?thesis using k(2) by (cases "cnt s < 5") (auto simp: handler_def timers_rank_def)
qed

interpretation timers: terminating_system timers_init timers_step timers_inv timers_rank "\<lambda>s. armed s = {}"
proof
  show "timers_init s \<Longrightarrow> timers_inv s" for s by (simp add: timers_init_def timers_inv_def)
  show "timers_inv s \<Longrightarrow> timers_step s t \<Longrightarrow> timers_inv t" for s t by (rule timers_inv_step)
  show "timers_inv s \<Longrightarrow> timers_step s t \<Longrightarrow> timers_rank t < timers_rank s" for s t by (rule timers_rank_step)
  show "timers_inv s \<Longrightarrow> armed s \<noteq> {} \<Longrightarrow> \<exists>t. timers_step s t" for s by (auto simp: timers_step_def)
qed

text \<open>\<open>run\<close> returns after the counts 0 to 4, each printed once and in order by one of the timers.\<close>

lemma timers_end:
  assumes "reach timers_init timers_step s" and "\<And>t. \<not> timers_step s t"
  shows "counts (tout s) = [0, 1, 2, 3, 4]"
proof -
  have inv: "timers_inv s" using assms(1) by (rule timers.reach_holds)
  have "armed s = {}" using assms by (rule timers.stuck_is_final)
  with inv have "cnt s = 5" by (auto simp: timers_inv_def)
  with inv show ?thesis by (simp add: timers_inv_def upt_rec)
qed

subsection \<open>\<open>print.cpp\<close>\<close>

text \<open>
  \<open>print_even\<close> (which prints the odd numbers, two at a time) and \<open>print_odd\<close> alternate through
  the flag \<open>odd\<close>; a passage between two \<open>wait\<close> calls is one step. Who owns the mutex comes
  after that: \<open>print_even\<close> adopts a lock that \<open>main\<close> took once.
\<close>

definition PRINT_MAX :: nat where "PRINT_MAX = 100"

record printers =
  odd_flag :: bool
  odd_end :: bool
  estart :: nat
  ostart :: nat
  pout :: "nat list"

inductive printers_step :: "printers \<Rightarrow> printers \<Rightarrow> bool" where
  print_even: "estart s < PRINT_MAX \<Longrightarrow> odd_flag s \<Longrightarrow>
     printers_step s (s\<lparr>pout := pout s @ [estart s] @ (if estart s + 2 < PRINT_MAX then [estart s + 2] else []),
       estart := estart s + 4, odd_flag := False\<rparr>)"
| even_end: "\<not> estart s < PRINT_MAX \<Longrightarrow> \<not> odd_end s \<Longrightarrow> printers_step s (s\<lparr>odd_end := True\<rparr>)"
| print_odd: "ostart s \<le> PRINT_MAX \<Longrightarrow> \<not> odd_flag s \<Longrightarrow>
     printers_step s (s\<lparr>pout := pout s @ [ostart s], ostart := ostart s + 2,
       odd_flag := (if \<not> odd_end s then True else odd_flag s)\<rparr>)"

definition printers_init :: "printers \<Rightarrow> bool" where
  "printers_init s \<longleftrightarrow> s = \<lparr>odd_flag = True, odd_end = False, estart = 1, ostart = 2, pout = []\<rparr>"

definition printers_inv :: "printers \<Rightarrow> bool" where
  "printers_inv s \<longleftrightarrow> estart s mod 4 = 1 \<and> even (ostart s) \<and> 2 \<le> ostart s \<and> estart s \<le> 101 \<and>
     filter odd (pout s) = filter odd [0..<estart s] \<and> filter even (pout s) = map (\<lambda>k. 2 * k) [1..<ostart s div 2]"

lemma filter_odd_four:
  assumes "n mod 4 = (1::nat)"
  shows "filter odd [0..<n + 4] = filter odd [0..<n] @ [n, n + 2]"
proof -
  have "odd n" using assms by presburger
  moreover have "[0..<n + 4] = [0..<n] @ [n, n + 1, n + 2, n + 3]"
    using upt_add_eq_append[of 0 n 4] by (simp add: numeral_eq_Suc)
  ultimately show ?thesis by simp
qed

lemma printers_inv_step: "printers_inv s \<Longrightarrow> printers_step s t \<Longrightarrow> printers_inv t"
proof (erule printers_step.cases)
  fix u assume "printers_inv s" "s = u" "estart u < PRINT_MAX" "odd_flag u"
    "t = u\<lparr>pout := pout u @ [estart u] @ (if estart u + 2 < PRINT_MAX then [estart u + 2] else []),
       estart := estart u + 4, odd_flag := False\<rparr>"
  note h = this
  have m: "estart u mod 4 = 1" "estart u < 100" using h by (simp_all add: printers_inv_def PRINT_MAX_def)
  have "odd (estart u)" using m(1) by presburger
  moreover have "estart u + 2 < PRINT_MAX" "estart u + 4 \<le> 101"
    unfolding PRINT_MAX_def using m by presburger+
  ultimately show "printers_inv t" using h by (auto simp: printers_inv_def filter_odd_four simp del: upt_Suc)
next
  fix u assume "printers_inv s" "s = u" "t = u\<lparr>odd_end := True\<rparr>"
  then show "printers_inv t" by (simp add: printers_inv_def)
next
  fix u assume "printers_inv s" "s = u" "t = u\<lparr>pout := pout u @ [ostart u], ostart := ostart u + 2,
       odd_flag := (if \<not> odd_end u then True else odd_flag u)\<rparr>"
  then show "printers_inv t" by (auto simp: printers_inv_def)
qed

interpretation printers: inductive_invariant printers_init printers_step printers_inv
  by unfold_locales (simp add: printers_init_def printers_inv_def, rule printers_inv_step)

text \<open>
  The ownership of the mutex \<open>print\<close>. \<open>main\<close> locks it before it starts the threads. A pass of \<open>print_even\<close> adopts it without
  locking (its \<open>wait\<close> touches it only when it has to block, which is not modelled here) and unlocks it at the end of
  the pass; a pass of \<open>print_odd\<close> locks it first. Unlocking a mutex that another thread holds is
  undefined, noted in \<open>undefined_unlock\<close>; the owner after it is \<open>None\<close>, as on Linux.
\<close>

datatype holder = MainThread | EvenThread | OddThread

record owned_printers = printers +
  held_by :: "holder option"
  undefined_unlock :: bool

definition unlock_by :: "holder \<Rightarrow> owned_printers \<Rightarrow> owned_printers" where
  "unlock_by h s = s\<lparr>held_by := None, undefined_unlock := (undefined_unlock s \<or> held_by s \<noteq> Some h)\<rparr>"

inductive owned_step :: "owned_printers \<Rightarrow> owned_printers \<Rightarrow> bool" where
  even_pass: "estart s < PRINT_MAX \<Longrightarrow> odd_flag s \<Longrightarrow>
     owned_step s (unlock_by EvenThread (s\<lparr>pout := pout s @ [estart s] @ (if estart s + 2 < PRINT_MAX then [estart s + 2] else []),
       estart := estart s + 4, odd_flag := False\<rparr>))"
| even_last: "\<not> estart s < PRINT_MAX \<Longrightarrow> \<not> odd_end s \<Longrightarrow> owned_step s (s\<lparr>odd_end := True\<rparr>)"
| odd_pass: "ostart s \<le> PRINT_MAX \<Longrightarrow> held_by s = None \<Longrightarrow> \<not> odd_flag s \<Longrightarrow>
     owned_step s (unlock_by OddThread (s\<lparr>held_by := Some OddThread, pout := pout s @ [ostart s], ostart := ostart s + 2,
       odd_flag := (if \<not> odd_end s then True else odd_flag s)\<rparr>))"

definition owned_init :: owned_printers where
  "owned_init = \<lparr>odd_flag = True, odd_end = False, estart = 1, ostart = 2, pout = [], held_by = Some MainThread, undefined_unlock = False\<rparr>"

text \<open>There is no run without the undefined unlock: it is the first thing that can happen, and one that can.\<close>

lemma first_unlock_undefined: "owned_step owned_init t \<longleftrightarrow> t = unlock_by EvenThread
    (owned_init\<lparr>pout := [1, 3], estart := 5, odd_flag := False\<rparr>)"
  and "undefined_unlock (unlock_by EvenThread (owned_init\<lparr>pout := [1, 3], estart := 5, odd_flag := False\<rparr>))"
  by (auto simp: owned_init_def unlock_by_def PRINT_MAX_def owned_step.simps)

subsection \<open>\<open>alternate_print.cpp\<close>\<close>

text \<open>The result of \<open>try_lock\<close> is ignored, so nothing orders the two threads.\<close>

record alternate =
  even_num :: nat
  odd_num :: nat
  aout :: "nat list"

inductive alternate_step :: "alternate \<Rightarrow> alternate \<Rightarrow> bool" where
  alt_even: "even_num s \<noteq> 102 \<Longrightarrow> alternate_step s (s\<lparr>aout := aout s @ [even_num s], even_num := even_num s + 2\<rparr>)"
| alt_odd: "odd_num s \<noteq> 101 \<Longrightarrow> alternate_step s (s\<lparr>aout := aout s @ [odd_num s], odd_num := odd_num s + 2\<rparr>)"

definition alternate_init :: "alternate \<Rightarrow> bool" where
  "alternate_init s \<longleftrightarrow> s = \<lparr>even_num = 0, odd_num = 1, aout = []\<rparr>"

definition alternate_inv :: "alternate \<Rightarrow> bool" where
  "alternate_inv s \<longleftrightarrow> even (even_num s) \<and> odd (odd_num s) \<and>
     filter even (aout s) = filter even [0..<even_num s] \<and> filter odd (aout s) = filter odd [0..<odd_num s]"

lemma alternate_inv_step: "alternate_inv s \<Longrightarrow> alternate_step s t \<Longrightarrow> alternate_inv t"
  by (erule alternate_step.cases) (auto simp: alternate_inv_def)

interpretation alternate: inductive_invariant alternate_init alternate_step alternate_inv
  by unfold_locales (simp add: alternate_init_def alternate_inv_def, rule alternate_inv_step)

text \<open>Each thread's numbers appear in order, but all of one thread's may come before the other's.\<close>

lemma alternate_orders:
  "reach alternate_init alternate_step s \<Longrightarrow>
     filter even (aout s) = filter even [0..<even_num s] \<and> filter odd (aout s) = filter odd [0..<odd_num s]"
  using alternate.reach_holds by (simp add: alternate_inv_def)

end
