(* ===== verification/Asio_Echo.thy ===== *)
theory Asio_Echo
  imports Posix_IO
begin

text \<open>
  Two servers on \<open>boost::asio\<close>, which is not part of the repository: the UDP echo server
  \<open>code/boost_doc/IO/demo.cpp\<close> and the TCP server \<open>code/boost_doc/IO/aServer.cpp\<close>. What they
  rely on is the completion contract of an asynchronous operation: its handler runs once, when
  the operation has completed, with the error code and the count of the operation. So the state
  has the operations that are outstanding, and an event is the completion of one of them;
  \<open>io_context::run\<close> returns when none is left.
\<close>

subsection \<open>The UDP server\<close>

datatype udp_op = ReceiveFrom | SendTo

text \<open>A completion: an error, or the datagram and its sender; the result of a send is ignored.\<close>

datatype 'ep udp_event = Received "int + string \<times> 'ep" | SendDone "int option"

record 'ep udp_server =
  op_pending :: "udp_op option"
  data_array :: string
  sender_endpoint :: "'ep option"
  datagrams :: "('ep option \<times> string) list"

definition max_length :: nat where "max_length = 1024"

definition do_receive :: "'ep udp_server \<Rightarrow> 'ep udp_server" where
  "do_receive s = s\<lparr>op_pending := Some ReceiveFrom\<rparr>"

definition do_send :: "nat \<Rightarrow> 'ep udp_server \<Rightarrow> 'ep udp_server" where
  "do_send n s = s\<lparr>op_pending := Some SendTo, datagrams := datagrams s @ [(sender_endpoint s, take n (data_array s))]\<rparr>"

fun on_receive :: "int + string \<times> 'ep \<Rightarrow> 'ep udp_server \<Rightarrow> 'ep udp_server" where
  "on_receive (Inl ec) s = do_receive s"
| "on_receive (Inr (d, ep)) s =
     (let got = take max_length d; bytes_recvd = length got;
          s = s\<lparr>data_array := blit got (data_array s), sender_endpoint := Some ep\<rparr> in
      if 0 < bytes_recvd then do_send bytes_recvd s else do_receive s)"

definition on_send :: "int option \<Rightarrow> 'ep udp_server \<Rightarrow> 'ep udp_server" where
  "on_send ec s = do_receive s"

text \<open>
  A completion ends the operation before its handler runs: nothing is outstanding then unless the handler
  starts another operation, and \<open>io_context::run\<close> returns. \<open>None\<close>: the event is no completion of the
  operation outstanding.
\<close>

fun udp_complete :: "'ep udp_event \<Rightarrow> 'ep udp_server \<Rightarrow> 'ep udp_server option" where
  "udp_complete (Received r) s = (if op_pending s = Some ReceiveFrom
     then Some (on_receive r (s\<lparr>op_pending := None\<rparr>)) else None)"
| "udp_complete (SendDone ec) s = (if op_pending s = Some SendTo
     then Some (on_send ec (s\<lparr>op_pending := None\<rparr>)) else None)"

fun udp_run :: "'ep udp_event list \<Rightarrow> 'ep udp_server \<Rightarrow> 'ep udp_server option" where
  "udp_run [] s = Some s"
| "udp_run (e # es) s = (case udp_complete e s of None \<Rightarrow> None | Some t \<Rightarrow> udp_run es t)"

text \<open>The constructor; \<open>data_\<close> is not initialised.\<close>

definition udp_server_new :: "string \<Rightarrow> 'ep udp_server" where
  "udp_server_new junk = do_receive \<lparr>op_pending = None, data_array = junk, sender_endpoint = None, datagrams = []\<rparr>"

text \<open>
  \<open>main\<close>: the port is converted to \<open>short\<close>; constructing the server throws when the port cannot be
  bound. The result is the exit code and what is printed, or the run of the server.
\<close>

definition udp_main :: "string list \<Rightarrow> (int \<Rightarrow> string option) \<Rightarrow> string \<Rightarrow> 'ep udp_event list \<Rightarrow>
    (int \<times> string) + 'ep udp_server option" where
  "udp_main argv bind_error junk evs =
     (if length argv \<noteq> 2 then Inl (1, ''Usage: async_udp_echo_server <port>'')
      else let port = (atoi (argv ! 1) + 32768) mod 65536 - 32768 in
        case bind_error port of
          Some what \<Rightarrow> Inl (0, ''Exception: '' @ what)
        | None \<Rightarrow> Inr (udp_run evs (udp_server_new junk)))"

text \<open>What the server owes: every datagram that is not empty, up to 1024 bytes of it, to its sender.\<close>

fun owed :: "'ep udp_event list \<Rightarrow> ('ep option \<times> string) list" where
  "owed [] = []"
| "owed (Received (Inr (d, ep)) # es) = (if d = [] then [] else [(Some ep, take max_length d)]) @ owed es"
| "owed (_ # es) = owed es"

lemma udp_run_owed:
  assumes "udp_run es s = Some t"
  shows "datagrams t = datagrams s @ owed es"
  using assms
proof (induction es arbitrary: s rule: owed.induct)
  case (2 d ep es)
  then obtain u where u: "udp_complete (Received (Inr (d, ep))) s = Some u" "udp_run es u = Some t"
    by (auto split: option.splits)
  have "datagrams u = datagrams s @ (if d = [] then [] else [(Some ep, take max_length d)])"
    using u(1) take_blit[of "take max_length d" "data_array s"]
    by (auto simp: Let_def do_send_def do_receive_def max_length_def split: if_splits)
  with 2(1)[OF u(2)] show ?case by simp
qed (auto simp: do_receive_def on_send_def split: option.splits if_splits)

text \<open>The operations alternate, so a datagram is never overwritten before it has been sent back.\<close>

fun alternates :: "udp_op \<Rightarrow> 'ep udp_event list \<Rightarrow> bool" where
  "alternates op [] = True"
| "alternates ReceiveFrom (Received (Inr (d, ep)) # es) = alternates (if d = [] then ReceiveFrom else SendTo) es"
| "alternates ReceiveFrom (Received (Inl ec) # es) = alternates ReceiveFrom es"
| "alternates SendTo (SendDone ec # es) = alternates ReceiveFrom es"
| "alternates _ _ = False"

lemma udp_run_alternates:
  "op_pending s = Some op \<Longrightarrow>
     (if alternates op es then \<exists>t. udp_run es s = Some t \<and> op_pending t \<noteq> None else udp_run es s = None)"
proof (induction op es arbitrary: s rule: alternates.induct)
  case (2 d ep es)
  let ?op = "if d = [] then ReceiveFrom else SendTo"
  let ?u = "on_receive (Inr (d, ep)) (s\<lparr>op_pending := None\<rparr>)"
  have p: "op_pending ?u = Some ?op" by (simp add: Let_def do_send_def do_receive_def max_length_def)
  have "udp_run (Received (Inr (d, ep)) # es) s = udp_run es ?u" using 2(2) by (simp del: on_receive.simps)
  with 2(1)[OF p] show ?case by (simp only: alternates.simps)
qed (auto simp: do_receive_def on_send_def)

subsection \<open>The TCP server\<close>

text \<open>
  \<open>aServer.cpp\<close>: at most one accept is outstanding; an accepted connection starts a read into
  the one \<open>buffer_in\<close> and a write, both completed by \<open>write_handler\<close>. The socket is owned by
  the handler of the accept alone, so it is destroyed, and its operations aborted, when
  \<open>accept_handler\<close> returns: a completion of a read may carry data or an error, and the
  handler does not look.
\<close>

datatype tcp_event = Accepted "int + string" | ReadSome "int + string" | WriteSome "int option"

record tcp_server =
  accepting :: bool
  reads_out :: nat
  writes_out :: nat
  buffer_in :: string
  tcp_log :: "string list"

definition start :: "tcp_server \<Rightarrow> tcp_server" where
  "start s = s\<lparr>accepting := True\<rparr>"

text \<open>\<open>cout << buffer_in\<close> prints the array as a C string; \<open>None\<close> is a missing terminator.\<close>

definition write_handler :: "tcp_server \<Rightarrow> tcp_server option" where
  "write_handler s = map_option
     (\<lambda>k. s\<lparr>tcp_log := tcp_log s @ [''server: send message complete.'' @ take k (buffer_in s)]\<rparr>) (strlen (buffer_in s))"

fun accept_handler :: "int + string \<Rightarrow> tcp_server \<Rightarrow> tcp_server" where
  "accept_handler (Inl ec) s = s"
| "accept_handler (Inr address) s =
     start (s\<lparr>tcp_log := tcp_log s @ [''client: '' @ address], reads_out := reads_out s + 1,
       writes_out := writes_out s + 1\<rparr>)"

text \<open>A completion; the outer \<open>None\<close> is an event nothing waits for, the inner an over-read.\<close>

fun tcp_complete :: "tcp_event \<Rightarrow> tcp_server \<Rightarrow> tcp_server option option" where
  "tcp_complete (Accepted r) s =
     (if accepting s then Some (Some (accept_handler r (s\<lparr>accepting := False\<rparr>))) else None)"
| "tcp_complete (ReadSome r) s =
     (if reads_out s = 0 then None
      else Some (write_handler (s\<lparr>reads_out := reads_out s - 1,
        buffer_in := (case r of Inl _ \<Rightarrow> buffer_in s | Inr d \<Rightarrow> blit (take 512 d) (buffer_in s))\<rparr>)))"
| "tcp_complete (WriteSome ec) s =
     (if writes_out s = 0 then None else Some (write_handler (s\<lparr>writes_out := writes_out s - 1\<rparr>)))"

fun tcp_run :: "tcp_event list \<Rightarrow> tcp_server \<Rightarrow> tcp_server option option" where
  "tcp_run [] s = Some (Some s)"
| "tcp_run (e # es) s = (case tcp_complete e s of
     None \<Rightarrow> None | Some None \<Rightarrow> Some None | Some (Some t) \<Rightarrow> tcp_run es t)"

definition tcp_server_new :: tcp_server where
  "tcp_server_new = start \<lparr>accepting = False, reads_out = 0, writes_out = 0, buffer_in = zeros 512, tcp_log = [''server start.'']\<rparr>"

definition short_read :: "tcp_event \<Rightarrow> bool" where
  "short_read e = (case e of ReadSome (Inr d) \<Rightarrow> length d < 512 | _ \<Rightarrow> True)"

fun accepted :: "tcp_event list \<Rightarrow> nat" where
  "accepted [] = 0"
| "accepted (Accepted (Inr a) # es) = Suc (accepted es)"
| "accepted (_ # es) = accepted es"

definition tcp_inv :: "tcp_server \<Rightarrow> nat \<Rightarrow> bool" where
  "tcp_inv s n \<longleftrightarrow> length (buffer_in s) = 512 \<and> buffer_in s ! 511 = NUL \<and>
     length (tcp_log s) + reads_out s + writes_out s = 1 + 3 * n"

lemma nul_in_buffer: "length b = 512 \<Longrightarrow> b ! 511 = NUL \<Longrightarrow> \<exists>k. strlen b = Some k"
  using nth_mem[of 511 b] by (simp add: strlen_def)

lemma tcp_inv_complete:
  assumes "tcp_inv s n" and "short_read e" and "tcp_complete e s = Some r"
  shows "\<exists>t. r = Some t \<and> tcp_inv t (n + accepted [e])"
proof (cases e)
  case (Accepted x)
  with assms show ?thesis by (cases x) (auto simp: tcp_inv_def start_def split: if_splits)
next
  case (ReadSome x)
  define b where "b = (case x of Inl _ \<Rightarrow> buffer_in s | Inr d \<Rightarrow> blit (take 512 d) (buffer_in s))"
  have b: "length b = 512" "b ! 511 = NUL"
    using assms(1,2) ReadSome by (auto simp: b_def tcp_inv_def short_read_def blit_def nth_append split: sum.splits)
  from nul_in_buffer[OF b] obtain k where "strlen b = Some k" by blast
  with assms(1,3) ReadSome b show ?thesis
    by (auto simp: tcp_inv_def write_handler_def b_def[symmetric] split: if_splits)
next
  case (WriteSome x)
  with assms nul_in_buffer[of "buffer_in s"] show ?thesis
    by (auto simp: tcp_inv_def write_handler_def split: if_splits)
qed

lemma accepted_Cons: "accepted (e # es) = accepted [e] + accepted es"
proof (cases e)
  case (Accepted x)
  then show ?thesis by (cases x) simp_all
qed simp_all

lemma tcp_inv_run:
  "tcp_inv s n \<Longrightarrow> list_all short_read es \<Longrightarrow> tcp_run es s = Some r \<Longrightarrow>
     \<exists>t. r = Some t \<and> tcp_inv t (n + accepted es)"
proof (induction es arbitrary: s n)
  case (Cons e es)
  then obtain q where q: "tcp_complete e s = Some q" by (auto split: option.splits)
  with tcp_inv_complete[OF Cons.prems(1)] Cons.prems(2) obtain t where
    t: "q = Some t" "tcp_inv t (n + accepted [e])" by auto
  with Cons.IH[OF t(2)] Cons.prems(2,3) q accepted_Cons[of e es] show ?case by (simp add: add.assoc)
qed auto

subsection \<open>Properties\<close>

text \<open>
  C32. The UDP server echoes and goes on serving: once the port is bound, the sequences of completions that
  can happen are those that alternate between receiving and sending, with another receive
  after an error or an empty datagram, and after each of them an operation is outstanding, so
  that \<open>io_context::run\<close> does not return; the server has sent back every datagram that is not
  empty, cut at 1024 bytes, to the endpoint it came from, once and in order. An empty datagram
  is not echoed; receive errors and failed sends are skipped.
\<close>

theorem udp_echoes:
  assumes "length argv = 2" and "bind_error ((atoi (argv ! 1) + 32768) mod 65536 - 32768) = None"
  shows "if alternates ReceiveFrom evs
    then \<exists>t. udp_main argv bind_error junk evs = Inr (Some t) \<and> datagrams t = owed evs \<and> op_pending t \<noteq> None
    else udp_main argv bind_error junk evs = Inr None"
proof -
  have m: "udp_main argv bind_error junk evs = Inr (udp_run evs (udp_server_new junk))"
    using assms by (simp add: udp_main_def)
  have n: "op_pending (udp_server_new junk) = Some ReceiveFrom" "datagrams (udp_server_new junk) = []"
    by (simp_all add: udp_server_new_def do_receive_def)
  show ?thesis unfolding m
    using udp_run_alternates[OF n(1), of evs] udp_run_owed[of evs "udp_server_new junk"] n(2) by auto
qed

theorem udp_echoes_witness:
  "\<exists>t. udp_main [''demo'', ''7000''] (\<lambda>_. None) []
      [Received (Inr (''hi'', 1)), SendDone None, Received (Inl 9), Received (Inr (''you'', 2 :: nat))] = Inr (Some t) \<and>
    op_pending t \<noteq> None \<and> datagrams t = [(Some 1, ''hi''), (Some 2, ''you'')]"
  using udp_echoes[of "[''demo'', ''7000'']" "\<lambda>_. None"
      "[Received (Inr (''hi'', 1)), SendDone None, Received (Inl 9), Received (Inr (''you'', 2 :: nat))]" "[]"]
  by (auto simp: max_length_def)

text \<open>
  The TCP server prints one line for every client and one for each of the two operations started for
  it, as long as no read fills the 512 bytes of \<open>buffer_in\<close>, which would leave it without a
  terminator.
\<close>

lemma tcp_lines:
  assumes "list_all short_read es" and "tcp_run es tcp_server_new = Some r"
  shows "\<exists>t. r = Some t \<and> length (tcp_log t) + reads_out t + writes_out t = 1 + 3 * accepted es"
  using tcp_inv_run[OF _ assms, of 0] by (force simp: tcp_inv_def tcp_server_new_def start_def zeros_def)

end
