(* ===== verification/Stream_Setup.thy ===== *)
theory Stream_Setup
  imports Stream_Copy
begin

text \<open>
  The programs around the copy loops of \<open>Stream_Copy\<close>: \<open>main\<close> of
  \<open>code/IPC/Socket/UNIX_socket.cpp\<close>, \<open>worker\<close> and \<open>main\<close> of
  \<open>code/network/TCP/REUSE_PORT/server.cpp\<close> and \<open>client.cpp\<close>, and the port probe
  \<open>code/boost_doc/IO/port.cpp\<close>. Every failing system call is a branch; the results of the calls
  are arguments. A thread that is left waiting in a system call has the outcome \<open>Blocked\<close>, one that
  spins \<open>Loops\<close>.
\<close>

datatype outcome = Returned int | Exited int | Uncaught string | Blocked | Loops | Undefined c_error

datatype out_line = Cout string | Cerr string | Sends string

subsection \<open>Reading a connection to its end\<close>

text \<open>
  The answers of \<open>read\<close> on one connection: an empty \<open>ReadOk\<close> is end of file. A failed
  \<open>read\<close> is what \<open>failed\<close> says the program makes of the count -1.
\<close>

fun read_all :: "outcome \<Rightarrow> nat \<Rightarrow> (string \<Rightarrow> 's \<Rightarrow> c_error + 's) \<Rightarrow> read_result list \<Rightarrow> 's \<Rightarrow> outcome + 's" where
  "read_all failed n recv [] s = Inl Blocked"
| "read_all failed n recv (ReadErr e # rs) s = Inl failed"
| "read_all failed n recv (ReadOk d # rs) s =
     (if d = [] then Inr s
      else case recv (take n d) s of
        Inl e \<Rightarrow> Inl (Undefined e)
      | Inr t \<Rightarrow> read_all failed n recv rs t)"

lemma read_all_chunks:
  assumes "\<forall>c \<in> set cs. c \<noteq> [] \<and> length c \<le> n" and "foldE recv cs s = Inr t"
  shows "read_all failed n recv (map ReadOk cs @ [ReadOk []]) s = Inr t"
  using assms
proof (induction cs arbitrary: s)
  case (Cons c cs)
  then obtain u where "recv c s = Inr u" "foldE recv cs u = Inr t" by (auto split: sum.splits)
  with Cons show ?case by simp
qed simp

subsection \<open>\<open>UNIX_socket.cpp\<close>\<close>

record un_env =
  fork_ret :: int
  un_connect :: int
  un_bind :: int
  un_listen :: int
  un_errno :: int
  strerror :: "int \<Rightarrow> string"

definition un_child :: "un_env \<Rightarrow> string \<Rightarrow> out_line list \<times> outcome" where
  "un_child env file =
     (if un_connect env < 0
      then ([Cout ''child:'', Cerr (strerror env (un_errno env))], Exited (un_errno env))
      else (Cout ''child:'' # map Sends (unix_child file) @ [Cout ''child process end''], Returned 0))"

text \<open>
  The parent's loop \<open>while((client_fd = accept(...)))\<close>: it ends when the descriptor is 0; a failed
  \<open>read\<close> returns -1, which is not 0, and the old buffer is appended again for ever.
\<close>

fun un_accepts :: "(int \<times> read_result list) list \<Rightarrow> out_line list \<times> outcome" where
  "un_accepts [] = ([], Blocked)"
| "un_accepts ((client_fd, reads) # conns) =
     (if client_fd = 0 then ([], Returned 0)
      else case read_all Loops 16 unix_parent reads unix_start of
        Inl x \<Rightarrow> ([], x)
      | Inr s \<Rightarrow> let (out, x) = un_accepts conns in (Cout (udata s) # out, x))"

definition un_parent :: "un_env \<Rightarrow> (int \<times> read_result list) list \<Rightarrow> out_line list \<times> outcome" where
  "un_parent env conns =
     (let what = strerror env (un_errno env) in
      if un_bind env < 0 then ([Cout ''parent'', Cerr what], Uncaught what)
      else if un_listen env < 0 then ([Cout ''parent'', Cerr what], Uncaught what)
      else let (out, x) = un_accepts conns in (Cout ''parent'' # out, x))"

definition un_main :: "un_env \<Rightarrow> string \<Rightarrow> (int \<times> read_result list) list \<Rightarrow> out_line list \<times> outcome" where
  "un_main env file conns =
     (if fork_ret env = 0 then un_child env file
      else if fork_ret env > 0 then un_parent env conns
      else ([Cerr (strerror env (un_errno env))], Returned 0))"

subsection \<open>\<open>REUSE_PORT\<close>\<close>

datatype family = AF_INET | AF_INET6

record ru_env =
  ru_socket :: int
  ru_bind :: int
  ru_listen :: int
  ru_getsockname :: int
  ru_family :: family
  inet_ntoa :: string
  ntop_in_8 :: string       \<comment> \<open>what \<open>inet_ntop\<close> leaves in \<open>ip\<close> when told it has 8 bytes\<close>
  ru_errno :: string

definition announce :: "ru_env \<Rightarrow> out_line list" where
  "announce env =
     (if 0 > ru_getsockname env then [Cerr (ru_errno env)] else []) @
     [Cout (case ru_family env of AF_INET \<Rightarrow> inet_ntoa env | AF_INET6 \<Rightarrow> ntop_in_8 env)]"

text \<open>The endless accept loop: \<open>junk\<close> is the uninitialised buffer of each connection.\<close>

fun ru_accepts :: "string \<Rightarrow> read_result list list \<Rightarrow> out_line list \<times> outcome" where
  "ru_accepts junk [] = ([], Blocked)"
| "ru_accepts junk (reads # conns) =
     (case read_all (Undefined (IndexOutOfRange 0)) 1024 reuse_server reads (reuse_start junk) of
        Inl x \<Rightarrow> ([], x)
      | Inr s \<Rightarrow> let (out, x) = ru_accepts junk conns in (Cout (read_content s) # out, x))"

definition ru_worker :: "ru_env \<Rightarrow> string \<Rightarrow> read_result list list \<Rightarrow> out_line list \<times> outcome" where
  "ru_worker env junk conns =
     (if ru_socket env = -1 then ([Cerr (ru_errno env)], Returned 0)
      else if ru_bind env = -1 then ([Cerr (ru_errno env)], Returned 0)
      else if ru_listen env = 0
      then let (out, x) = ru_accepts junk conns in (announce env @ out, x)
      else ([], Returned 0))"

text \<open>\<open>main\<close>: four workers on the same address.\<close>

definition ru_main :: "(nat \<Rightarrow> ru_env) \<Rightarrow> string \<Rightarrow> (nat \<Rightarrow> read_result list list) \<Rightarrow> (out_line list \<times> outcome) list" where
  "ru_main env junk conns = map (\<lambda>i. ru_worker (env i) junk (conns i)) [0..<4]"

text \<open>
  The client's worker goes on after a failed \<open>connect\<close>: \<open>Sends\<close> are the calls of \<open>write\<close> it makes, whatever
  becomes of them; \<open>file\<close> is \<open>None\<close> when it cannot be opened. This is one worker on its own: the
  twelve that \<open>main\<close> starts redirect the same \<open>cin\<close>.
\<close>

definition ru_client :: "int \<Rightarrow> string \<Rightarrow> string \<Rightarrow> string option \<Rightarrow> out_line list" where
  "ru_client status what local_addr file =
     [Cout ''connecting''] @ (if status = -1 then [Cerr what] else [Cout local_addr]) @
     (case file of None \<Rightarrow> [Cout ''open failed''] | Some f \<Rightarrow> map Sends (reuse_client f)) @ [Cout ''end'']"

subsection \<open>\<open>port.cpp\<close>\<close>

datatype ai_family = INET | INET6 | OtherFamily

record addrinfo =
  ai_family :: ai_family
  ai_socket :: int          \<comment> \<open>what \<open>socket\<close> returns for it\<close>
  ai_connect :: int         \<comment> \<open>what \<open>connect\<close> returns\<close>
  ai_ntop :: "string option"

text \<open>The loop over the addresses: the text found, and the handles opened and closed.\<close>

fun probe :: "addrinfo list \<Rightarrow> string option \<times> int list \<times> int list" where
  "probe [] = (None, [], [])"
| "probe (a # as) =
     (let handle = ai_socket a in
      if handle = -1 then probe as
      else if ai_connect a \<noteq> -1
      then ((case ai_family a of OtherFamily \<Rightarrow> None | _ \<Rightarrow> ai_ntop a), [handle], [handle])
      else let (r, opened, closed) = probe as in (r, handle # opened, closed))"

definition isPortOpen :: "string \<Rightarrow> addrinfo list option \<Rightarrow> string" where
  "isPortOpen domain result =
     (case result of
        None \<Rightarrow> ''''
      | Some as \<Rightarrow> (case fst (probe as) of
          None \<Rightarrow> '''' | Some retval \<Rightarrow> domain @ '':'' @ retval @ [NL]))"

definition isListening :: "string \<Rightarrow> addrinfo list option \<Rightarrow> bool" where
  "isListening ip result = (let addr = isPortOpen ip result in if addr = '''' then False else True)"

definition port_main :: "addrinfo list option \<Rightarrow> string" where
  "port_main result =
     (if isListening ''192.168.166.27'' result then ''server is listening'' else ''server closing'')"

definition connectable :: "addrinfo \<Rightarrow> bool" where
  "connectable a \<longleftrightarrow> ai_socket a \<noteq> -1 \<and> ai_connect a \<noteq> -1"

lemma probe_first:
  "fst (probe as) = (case List.find connectable as of
     None \<Rightarrow> None | Some a \<Rightarrow> if ai_family a = OtherFamily then None else ai_ntop a)"
  by (induction as) (auto simp: connectable_def Let_def split: prod.splits ai_family.splits)

lemma probe_handles:
  "fst (snd (probe as)) = filter (\<lambda>h. h \<noteq> -1) (map ai_socket (takeWhile (\<lambda>a. \<not> connectable a) as)) @ snd (snd (probe as)) \<and>
   snd (snd (probe as)) = (case List.find connectable as of None \<Rightarrow> [] | Some a \<Rightarrow> [ai_socket a])"
  by (induction as) (auto simp: connectable_def Let_def split: prod.splits option.splits)

lemma ru_accepts_contents:
  assumes "\<forall>cs \<in> set css. \<forall>c \<in> set cs. c \<noteq> [] \<and> length c \<le> 1024"
  shows "ru_accepts junk (map (\<lambda>cs. map ReadOk cs @ [ReadOk []]) css) = (map (\<lambda>cs. Cout (concat cs)) css, Blocked)"
  using assms
proof (induction css)
  case (Cons cs css)
  then obtain t where t: "foldE reuse_server cs (reuse_start junk) = Inr t" "read_content t = concat cs"
    using reuse.recv_all[of cs "reuse_start junk"] by (auto simp: reuse_start_def)
  from read_all_chunks[OF _ t(1)] Cons t(2) show ?case by simp
qed simp

subsection \<open>Properties\<close>

text \<open>
  A worker of the \<open>SO_REUSEPORT\<close> server that has bound and listens prints what every connection
  sent: whatever the connections, and however their bytes are cut into reads of at most
  1024, it announces itself, prints the bytes of each connection once, complete and in the
  order of the accepts, and waits for the next; the uninitialised buffer never shows.
\<close>

theorem reuse_worker_prints:
  assumes "ru_socket env \<noteq> -1" and "ru_bind env \<noteq> -1" and "ru_listen env = 0"
    and "\<forall>cs \<in> set css. \<forall>c \<in> set cs. c \<noteq> [] \<and> length c \<le> 1024"
  shows "ru_worker env junk (map (\<lambda>cs. map ReadOk cs @ [ReadOk []]) css) =
    (announce env @ map (\<lambda>cs. Cout (concat cs)) css, Blocked)"
  using assms(1-3) ru_accepts_contents[OF assms(4)] by (simp add: ru_worker_def)

theorem reuse_worker_prints_witness:
  "ru_worker \<lparr>ru_socket = 3, ru_bind = 0, ru_listen = 0, ru_getsockname = 0, ru_family = AF_INET, inet_ntoa = ''a'',
      ntop_in_8 = [], ru_errno = []\<rparr> ''??'' [[ReadOk ''ab'', ReadOk ''c'', ReadOk []], [ReadOk ''d'', ReadOk []]] =
    ([Cout ''a'', Cout ''abc'', Cout ''d''], Blocked)"
  using reuse_worker_prints[of "\<lparr>ru_socket = 3, ru_bind = 0, ru_listen = 0, ru_getsockname = 0, ru_family = AF_INET,
      inet_ntoa = ''a'', ntop_in_8 = [], ru_errno = []\<rparr>" "[[''ab'', ''c''], [''d'']]" "''??''"]
  by (simp add: announce_def)

text \<open>
  The port probe: \<open>isListening\<close> holds exactly when the name resolves and the first address to which
  a socket can be opened and connected has a known family and a printable form; the handles
  it leaves open are those of the addresses before it whose \<open>connect\<close> failed.
\<close>

theorem port_probe:
  "(isListening ip result \<longleftrightarrow>
     (\<exists>as a. result = Some as \<and> List.find connectable as = Some a \<and> ai_family a \<noteq> OtherFamily \<and> ai_ntop a \<noteq> None)) \<and>
   fst (snd (probe as)) = filter (\<lambda>h. h \<noteq> -1) (map ai_socket (takeWhile (\<lambda>a. \<not> connectable a) as)) @ snd (snd (probe as))"
proof
  show "isListening ip result \<longleftrightarrow>
     (\<exists>as a. result = Some as \<and> List.find connectable as = Some a \<and> ai_family a \<noteq> OtherFamily \<and> ai_ntop a \<noteq> None)"
  proof (cases result)
    case (Some as)
    then show ?thesis
      by (cases "List.find connectable as") (auto simp: isListening_def isPortOpen_def probe_first split: option.splits)
  qed (simp add: isListening_def isPortOpen_def)
qed (use probe_handles in blast)

end
