(* ===== verification/Line_Count.thy ===== *)
theory Line_Count
  imports Stream_Copy
begin

text \<open>
  Programs that read text through \<open>std::istream\<close>: \<open>code/lang/getline.cpp\<close>, which counts the
  characters of a file with three styles of loop, \<open>code/lang/cut_line.cpp\<close>, which cuts a string
  into fields with a changed notion of white space, \<open>code/lang/file_iterator.cpp\<close> and
  \<open>code/lang/redirect.cpp\<close>, which copy lines.

  A stream is the text not yet read and its \<open>eofbit\<close> and \<open>failbit\<close>; the loops are
  \<open>partial_function (option)\<close>, so that a loop that does not end has the value \<open>None\<close>.
\<close>

record istream =
  rest :: string
  eofbit :: bool
  failbit :: bool

definition good :: "string \<Rightarrow> istream" where
  "good f = \<lparr>rest = f, eofbit = False, failbit = False\<rparr>"

text \<open>\<open>fstream file(path)\<close>: a file that cannot be opened sets \<open>failbit\<close>.\<close>

definition fopen :: "string option \<Rightarrow> istream" where
  "fopen file = (case file of None \<Rightarrow> \<lparr>rest = [], eofbit = False, failbit = True\<rparr> | Some f \<Rightarrow> good f)"

text \<open>\<open>cin.rdbuf(file.rdbuf())\<close> clears the state of \<open>cin\<close>; reading a buffer that is not open ends at once.\<close>

definition rdbuf :: "string option \<Rightarrow> istream" where
  "rdbuf file = good (case file of None \<Rightarrow> [] | Some f \<Rightarrow> f)"

text \<open>\<open>getline(s, line)\<close> with \<open>line\<close> empty before.\<close>

definition getline :: "istream \<Rightarrow> string \<times> istream" where
  "getline s =
     (if eofbit s \<or> failbit s then ([], s\<lparr>failbit := True\<rparr>)
      else let line = takeWhile (\<lambda>c. c \<noteq> NL) (rest s); r = dropWhile (\<lambda>c. c \<noteq> NL) (rest s) in
        if r = [] then (line, s\<lparr>rest := [], eofbit := True, failbit := (line = [])\<rparr>)
        else (line, s\<lparr>rest := tl r\<rparr>))"

subsection \<open>\<open>getline.cpp\<close>\<close>

text \<open>\<open>while(getline(cin, line))\<close>.\<close>

partial_function (option) while_getline :: "istream \<Rightarrow> int \<Rightarrow> nat list \<Rightarrow> (int \<times> nat list) option" where
  "while_getline s cnt out =
     (let (line, s) = getline s in
      if failbit s then Some (cnt, out)
      else while_getline s (cnt + int (length line)) (out @ [length line]))"

text \<open>\<open>while(!dup_file.eof())\<close>, with the test of \<open>eof\<close> after \<open>getline\<close>.\<close>

partial_function (option) until_eof :: "istream \<Rightarrow> int \<Rightarrow> nat list \<Rightarrow> (int \<times> nat list) option" where
  "until_eof s cnt out =
     (if eofbit s then Some (cnt, out)
      else let (line, s) = getline s in
        if eofbit s then Some (cnt, out)
        else until_eof s (cnt - int (length line)) (out @ [length line]))"

text \<open>\<open>while(!cin.fail())\<close>.\<close>

partial_function (option) until_fail :: "istream \<Rightarrow> int \<Rightarrow> nat list \<Rightarrow> (int \<times> nat list) option" where
  "until_fail s cnt out =
     (if failbit s then Some (cnt, out)
      else let (line, s) = getline s in until_fail s (cnt - int (length line)) (out @ [length line]))"

record count_output =
  sizes1 :: "nat list"
  count1 :: int
  sizes2 :: "nat list"
  count2 :: int
  sizes3 :: "nat list"

definition count_main :: "string option \<Rightarrow> count_output option" where
  "count_main file =
     Option.bind (while_getline (rdbuf file) 0 []) (\<lambda>(c1, o1).
     Option.bind (until_eof (fopen file) c1 []) (\<lambda>(c2, o2).
     Option.bind (until_fail (rdbuf file) c2 []) (\<lambda>(c3, o3).
       Some \<lparr>sizes1 = o1, count1 = c1, sizes2 = o2, count2 = c2, sizes3 = o3\<rparr>)))"

subsection \<open>\<open>cut_line.cpp\<close>\<close>

text \<open>\<open>do_is\<close> with the mask \<open>space\<close>: a blank is no white space, a comma is.\<close>

definition is_space :: "char \<Rightarrow> bool" where
  "is_space c \<longleftrightarrow> c = CHR '' '' \<or> 9 \<le> (of_char c :: nat) \<and> (of_char c :: nat) \<le> 13"

definition csv_is_space :: "char \<Rightarrow> bool" where
  "csv_is_space c = (if c = CHR '' '' then False else if c = CHR '','' then True else is_space c)"

text \<open>\<open>while (s >> token)\<close> with the given white space.\<close>

function fields :: "(char \<Rightarrow> bool) \<Rightarrow> string \<Rightarrow> string list" where
  "fields sp s = (let t = dropWhile sp s in
     if t = [] then [] else takeWhile (\<lambda>c. \<not> sp c) t # fields sp (dropWhile (\<lambda>c. \<not> sp c) t))"
  by pat_completeness auto
termination
proof (relation "measure (\<lambda>(sp, s). length s)")
  fix sp :: "char \<Rightarrow> bool" and s t :: string
  assume t: "t = dropWhile sp s" "t \<noteq> []"
  then have "\<not> sp (hd t)" using hd_dropWhile by blast
  then have "length (dropWhile (\<lambda>c. \<not> sp c) t) < length t"
    using t(2) length_dropWhile_le[of "\<lambda>c. \<not> sp c" "tl t"] by (cases t) auto
  moreover have "length t \<le> length s" using t(1) length_dropWhile_le by simp
  ultimately show "((sp, dropWhile (\<lambda>c. \<not> sp c) t), sp, s) \<in> measure (\<lambda>(sp, s). length s)" by simp
qed simp

declare fields.simps [simp del]

definition cut_main :: "string \<Rightarrow> string list" where
  "cut_main str = ''default locale:'' # map (\<lambda>t. ''  '' @ t) (fields is_space str) @
     ''locale with modified ctype:'' # map (\<lambda>t. ''  '' @ t) (fields csv_is_space str)"

subsection \<open>Copying lines\<close>

text \<open>\<open>fun1\<close> and \<open>main\<close> of \<open>file_iterator.cpp\<close>, and \<open>main\<close> of \<open>redirect.cpp\<close>: what is written.\<close>

definition fun1 :: "string \<Rightarrow> string" where
  "fun1 input = concat (map (\<lambda>data. data @ [NL]) (getlines input))"

definition skip_space1 :: "string \<Rightarrow> string" where
  "skip_space1 input = concat (map (\<lambda>data. data @ [NL]) (fields is_space input))"

definition file_main :: "string \<Rightarrow> string" where
  "file_main input = fun1 input @ [NL]"

definition redirect_main :: "bool \<Rightarrow> string \<Rightarrow> string" where
  "redirect_main opened input = (if opened then concat (map (\<lambda>line. line @ [NL]) (getlines input)) else [])"

subsection \<open>Lines\<close>

lemma file_cases:
  obtains "f = []" | "f \<noteq> []" "NL \<notin> set f" | l xs where "f = l @ NL # xs" "NL \<notin> set l"
  by (metis split_list_first)

lemma getlines_one: "f \<noteq> [] \<Longrightarrow> NL \<notin> set f \<Longrightarrow> getlines f = [f]"
proof -
  assume f: "f \<noteq> []" "NL \<notin> set f"
  then have "takeWhile (\<lambda>c. c \<noteq> NL) f = f" "dropWhile (\<lambda>c. c \<noteq> NL) f = []"
    by (auto intro: takeWhile_eq_all_conv[THEN iffD2] dropWhile_eq_Nil_conv[THEN iffD2])
  then show ?thesis using f(1) by (subst getlines.simps) (simp only: drop_Nil getlines_Nil if_False)
qed

lemma line_split:
  assumes "NL \<notin> set l"
  shows "takeWhile (\<lambda>c. c \<noteq> NL) (l @ NL # xs) = l" and "dropWhile (\<lambda>c. c \<noteq> NL) (l @ NL # xs) = NL # xs"
proof -
  have p: "\<And>x. x \<in> set l \<Longrightarrow> x \<noteq> NL" using assms by auto
  show "takeWhile (\<lambda>c. c \<noteq> NL) (l @ NL # xs) = l" using takeWhile_append2[of l "\<lambda>c. c \<noteq> NL", OF p] by simp
  show "dropWhile (\<lambda>c. c \<noteq> NL) (l @ NL # xs) = NL # xs" using dropWhile_append2[of l "\<lambda>c. c \<noteq> NL", OF p] by simp
qed

lemma getlines_more: "NL \<notin> set l \<Longrightarrow> getlines (l @ NL # xs) = l # getlines xs"
  using line_split[of l xs] by (subst getlines.simps) simp

lemma getline_good:
  "getline (good []) = ([], \<lparr>rest = [], eofbit = True, failbit = True\<rparr>)"
  "f \<noteq> [] \<Longrightarrow> NL \<notin> set f \<Longrightarrow> getline (good f) = (f, \<lparr>rest = [], eofbit = True, failbit = False\<rparr>)"
  "NL \<notin> set l \<Longrightarrow> getline (good (l @ NL # xs)) = (l, good xs)"
proof -
  show "getline (good []) = ([], \<lparr>rest = [], eofbit = True, failbit = True\<rparr>)" by (simp add: getline_def good_def)
  show "NL \<notin> set l \<Longrightarrow> getline (good (l @ NL # xs)) = (l, good xs)"
    using line_split[of l xs] by (simp add: getline_def good_def)
  assume f: "f \<noteq> []" "NL \<notin> set f"
  then have "takeWhile (\<lambda>c. c \<noteq> NL) f = f" "dropWhile (\<lambda>c. c \<noteq> NL) f = []"
    by (auto intro: takeWhile_eq_all_conv[THEN iffD2] dropWhile_eq_Nil_conv[THEN iffD2])
  with f(1) show "getline (good f) = (f, \<lparr>rest = [], eofbit = True, failbit = False\<rparr>)"
    unfolding getline_def good_def by (simp del: takeWhile_eq_all_conv dropWhile_eq_Nil_conv)
qed

lemma getline_ended: "getline \<lparr>rest = r, eofbit = True, failbit = False\<rparr> = ([], \<lparr>rest = r, eofbit = True, failbit = True\<rparr>)"
  by (simp add: getline_def)

text \<open>The lines that end with a newline, and what is left after them.\<close>

definition complete :: "string \<Rightarrow> string list" where
  "complete f = (if f = [] \<or> last f = NL then getlines f else butlast (getlines f))"

definition partial_line :: "string \<Rightarrow> string" where
  "partial_line f = (if f = [] \<or> last f = NL then [] else last (getlines f))"

lemma getlines_ne: "f \<noteq> [] \<Longrightarrow> getlines f \<noteq> []"
  by (subst getlines.simps) simp

lemma complete_simps:
  "complete [] = []" "partial_line [] = []"
  "f \<noteq> [] \<Longrightarrow> NL \<notin> set f \<Longrightarrow> complete f = []" "f \<noteq> [] \<Longrightarrow> NL \<notin> set f \<Longrightarrow> partial_line f = f"
  "NL \<notin> set l \<Longrightarrow> complete (l @ NL # xs) = l # complete xs" "NL \<notin> set l \<Longrightarrow> partial_line (l @ NL # xs) = partial_line xs"
proof -
  show "f \<noteq> [] \<Longrightarrow> NL \<notin> set f \<Longrightarrow> complete f = []" "f \<noteq> [] \<Longrightarrow> NL \<notin> set f \<Longrightarrow> partial_line f = f"
    using last_in_set[of f] by (metis complete_def getlines_one butlast.simps(2)) (metis partial_line_def getlines_one last_in_set last.simps)
qed (use getlines_ne[of xs] in \<open>auto simp: complete_def partial_line_def getlines_more\<close>)

subsection \<open>The three loops\<close>

lemma while_getline_good:
  "while_getline (good f) c out =
     Some (c + int (sum_list (map length (getlines f))), out @ map length (getlines f))"
proof (induction f arbitrary: c out rule: length_induct)
  case (1 f)
  show ?case
  proof (cases f rule: file_cases)
    case 1
    then show ?thesis by (subst while_getline.simps) (simp add: getline_good)
  next
    case 2
    then show ?thesis
      by (subst while_getline.simps, subst while_getline.simps) (simp add: getline_good getline_ended getlines_one)
  next
    case (3 l xs)
    have "while_getline (good f) c out = while_getline (good xs) (c + int (length l)) (out @ [length l])"
      unfolding 3(1) by (subst while_getline.simps) (simp add: getline_good(3)[OF 3(2)], simp add: good_def)
    also have "\<dots> = Some (c + int (length l) + int (sum_list (map length (getlines xs))),
        (out @ [length l]) @ map length (getlines xs))"
      using "1"[rule_format, of xs] 3(1) by simp
    finally show ?thesis by (simp add: 3(1) getlines_more[OF 3(2)])
  qed
qed

lemma until_eof_good:
  "until_eof (good f) c out =
     Some (c - int (sum_list (map length (complete f))), out @ map length (complete f))"
proof (induction f arbitrary: c out rule: length_induct)
  case (1 f)
  show ?case
  proof (cases f rule: file_cases)
    case 1
    then show ?thesis by (subst until_eof.simps) (simp add: getline_good complete_simps)
  next
    case 2
    then show ?thesis by (subst until_eof.simps) (simp add: getline_good complete_simps)
  next
    case (3 l xs)
    have "until_eof (good f) c out = until_eof (good xs) (c - int (length l)) (out @ [length l])"
      unfolding 3(1) by (subst until_eof.simps) (simp add: getline_good(3)[OF 3(2)], simp add: good_def)
    also have "\<dots> = Some (c - int (length l) - int (sum_list (map length (complete xs))),
        (out @ [length l]) @ map length (complete xs))"
      using "1"[rule_format, of xs] 3(1) by simp
    finally show ?thesis by (simp add: 3(1) complete_simps(5)[OF 3(2)])
  qed
qed

lemma until_fail_good:
  "until_fail (good f) c out =
     Some (c - int (sum_list (map length (getlines f))), out @ map length (getlines f) @ [0])"
proof (induction f arbitrary: c out rule: length_induct)
  case (1 f)
  show ?case
  proof (cases f rule: file_cases)
    case 1
    then show ?thesis by (subst until_fail.simps, subst until_fail.simps) (simp add: getline_good, simp add: good_def)
  next
    case 2
    then show ?thesis
      by (subst until_fail.simps, subst until_fail.simps, subst until_fail.simps)
        (simp add: getline_good getline_ended getlines_one, simp add: good_def)
  next
    case (3 l xs)
    have "until_fail (good f) c out = until_fail (good xs) (c - int (length l)) (out @ [length l])"
      unfolding 3(1) by (subst until_fail.simps) (simp add: getline_good(3)[OF 3(2)], simp add: good_def)
    also have "\<dots> = Some (c - int (length l) - int (sum_list (map length (getlines xs))),
        (out @ [length l]) @ map length (getlines xs) @ [0])"
      using "1"[rule_format, of xs] 3(1) by simp
    finally show ?thesis by (simp add: 3(1) getlines_more[OF 3(2)])
  qed
qed

text \<open>A stream that failed without reaching the end stays so.\<close>

lemma until_eof_failed:
  assumes "until_eof s c out = Some r"
  shows "failbit s \<longrightarrow> eofbit s"
proof (rule until_eof.raw_induct[OF _ assms, where P = "\<lambda>s c out r. failbit s \<longrightarrow> eofbit s"])
  fix loop :: "istream \<Rightarrow> int \<Rightarrow> nat list \<Rightarrow> (int \<times> nat list) option" and s c out r
  assume ih: "\<And>s c out r. loop s c out = Some r \<Longrightarrow> failbit s \<longrightarrow> eofbit s"
    and step: "(if eofbit s then Some (c, out)
      else let (line, s) = getline s in
        if eofbit s then Some (c, out) else loop s (c - int (length line)) (out @ [length line])) = Some r"
  show "failbit s \<longrightarrow> eofbit s"
  proof (rule impI, rule ccontr)
    assume "failbit s" "\<not> eofbit s"
    with step have "loop (s\<lparr>failbit := True\<rparr>) (c - int 0) (out @ [0]) = Some r" by (simp add: getline_def)
    from ih[OF this] \<open>\<not> eofbit s\<close> show False by simp
  qed
qed

lemma complete_partial: "sum_list (map length (getlines f)) = sum_list (map length (complete f)) + length (partial_line f)"
proof (induction f rule: length_induct)
  case (1 f)
  then show ?case
    by (cases f rule: file_cases) (auto simp: complete_simps getlines_one getlines_more)
qed

lemma fields_concat: "concat (fields sp s) = filter (\<lambda>c. \<not> sp c) s"
proof (induction sp s rule: fields.induct)
  case (1 sp s)
  let ?t = "dropWhile sp s"
  have keep: "takeWhile (\<lambda>c. \<not> sp c) u @ filter (\<lambda>c. \<not> sp c) (dropWhile (\<lambda>c. \<not> sp c) u) = filter (\<lambda>c. \<not> sp c) u" for u
    by (induction u) auto
  have skip: "filter (\<lambda>c. \<not> sp c) s = filter (\<lambda>c. \<not> sp c) ?t" by (induction s) auto
  show ?case
  proof (cases "?t = []")
    case True
    then show ?thesis unfolding skip by (subst fields.simps) (simp only: Let_def if_True True concat.simps filter.simps)
  next
    case False
    have "concat (fields sp s) = takeWhile (\<lambda>c. \<not> sp c) ?t @ concat (fields sp (dropWhile (\<lambda>c. \<not> sp c) ?t))"
      using False by (subst fields.simps) (simp only: Let_def if_False concat.simps)
    also have "\<dots> = takeWhile (\<lambda>c. \<not> sp c) ?t @ filter (\<lambda>c. \<not> sp c) (dropWhile (\<lambda>c. \<not> sp c) ?t)"
      using "1"[OF refl False] by simp
    also have "\<dots> = filter (\<lambda>c. \<not> sp c) ?t" by (rule keep)
    finally show ?thesis unfolding skip .
  qed
qed

subsection \<open>Properties\<close>

text \<open>
  \<open>getline.cpp\<close> on a file that can be opened: the program ends; the first loop prints the length of
  every line and their sum; the second, which stops at \<open>eof\<close>, misses a last line without a
  newline, so the count it is left with is the length of that line, 0 exactly when there is
  none or it is empty; the third prints every length and one 0 too many. On a file that cannot
  be opened the second loop never ends.
\<close>

theorem count_main_result:
  "count_main (Some f) = Some \<lparr>sizes1 = map length (getlines f), count1 = int (length (filter (\<lambda>c. c \<noteq> NL) f)),
     sizes2 = map length (complete f), count2 = int (length (partial_line f)),
     sizes3 = map length (getlines f) @ [0]\<rparr> \<and>
   count_main None = None"
proof
  have "sum_list (map length (getlines f)) = length (filter (\<lambda>c. c \<noteq> NL) f)"
    using concat_getlines[of f] by (metis length_concat)
  then show "count_main (Some f) = Some \<lparr>sizes1 = map length (getlines f), count1 = int (length (filter (\<lambda>c. c \<noteq> NL) f)),
     sizes2 = map length (complete f), count2 = int (length (partial_line f)),
     sizes3 = map length (getlines f) @ [0]\<rparr>"
    using complete_partial[of f]
    by (simp add: count_main_def rdbuf_def fopen_def while_getline_good until_eof_good until_fail_good)
  have "until_eof (fopen None) c [] = None" for c
    using until_eof_failed[of "fopen None" c "[]"] by (cases "until_eof (fopen None) c []") (auto simp: fopen_def)
  then show "count_main None = None" by (simp add: count_main_def rdbuf_def while_getline_good)
qed

text \<open>Cutting into fields loses the white space and nothing else.\<close>

lemma cut_fields: "concat (fields csv_is_space str) = filter (\<lambda>c. \<not> csv_is_space c) str"
  by (rule fields_concat)

text \<open>\<open>file_iterator.cpp\<close> and \<open>redirect.cpp\<close> copy the text, with a newline added at its end if there was none.\<close>

lemma line_copies:
  "fun1 input = (if input = [] \<or> last input = NL then input else input @ [NL]) \<and>
   redirect_main True input = fun1 input \<and> redirect_main False input = []"
  using lines_newlines[of input] by (simp add: fun1_def redirect_main_def)

end
