(* ===== verification/Raw_Struct.thy ===== *)
theory Raw_Struct
  imports Posix_IO "HOL-Library.Word"
begin

text \<open>
  \<open>code/network/TCP/transfer_data.cpp\<close>: a child process sends the bytes of a \<open>struct Data\<close>
  over a socket and the parent copies what one \<open>recv\<close> delivers back into a \<open>struct Data\<close>. The
  layout is that of the platform the file is written for: five characters, three bytes of
  padding, a little-endian \<open>int\<close> and the bits of a \<open>float\<close>.
\<close>

type_synonym byte = "8 word"

record data =
  x_chars :: "byte list"
  y_int :: "32 word"
  z_float :: "32 word"

definition sizeof_Data :: nat where "sizeof_Data = 16"

definition data_ok :: "data \<Rightarrow> bool" where
  "data_ok d \<longleftrightarrow> length (x_chars d) = 5"

definition le_bytes :: "32 word \<Rightarrow> byte list" where
  "le_bytes w = [ucast w, ucast (drop_bit 8 w), ucast (drop_bit 16 w), ucast (drop_bit 24 w)]"

fun le_word :: "byte list \<Rightarrow> 32 word" where
  "le_word [] = 0"
| "le_word (b # bs) = ucast b + push_bit 8 (le_word bs)"

text \<open>The memory of an object; \<open>pad\<close> is what the padding holds.\<close>

definition object_bytes :: "byte list \<Rightarrow> data \<Rightarrow> byte list" where
  "object_bytes pad d = x_chars d @ pad @ le_bytes (y_int d) @ le_bytes (z_float d)"

definition object_at :: "byte list \<Rightarrow> data" where
  "object_at mem = \<lparr>x_chars = take 5 mem, y_int = le_word (take 4 (drop 8 mem)), z_float = le_word (take 4 (drop 12 mem))\<rparr>"

subsection \<open>The processes\<close>

text \<open>\<open>while(-1 == connect(...))\<close>: the number of the attempt that succeeds, \<open>None\<close> while none has.\<close>

fun connect_loop :: "int list \<Rightarrow> nat option" where
  "connect_loop [] = None"
| "connect_loop (r # rs) = (if r = -1 then map_option Suc (connect_loop rs) else Some 0)"

text \<open>The child: the bytes \<open>send\<close> takes, at most the object's.\<close>

definition child :: "int list \<Rightarrow> nat \<Rightarrow> byte list \<Rightarrow> data \<Rightarrow> byte list option" where
  "child connects accepted pad d =
     (case connect_loop connects of
        None \<Rightarrow> None
      | Some _ \<Rightarrow> Some (take accepted (take sizeof_Data (object_bytes pad d))))"

text \<open>The parent: \<open>char buffer[64] = {0}\<close>, one \<open>recv\<close> of at most 63 bytes, \<open>memmove\<close>.\<close>

definition parent :: "byte list \<Rightarrow> int \<times> data" where
  "parent arrived =
     (let got = take 63 arrived; buffer = got @ replicate (64 - length got) 0 in
      (int (length got), object_at (take sizeof_Data buffer)))"

text \<open>\<open>cout << new_data.x\<close> reads up to a terminator inside the five characters.\<close>

definition shown :: "data \<Rightarrow> c_error + byte list" where
  "shown d = (if 0 \<in> set (x_chars d) then Inr (takeWhile (\<lambda>b. b \<noteq> 0) (x_chars d)) else Inl UnterminatedString)"

definition main_data :: data where
  "main_data = \<lparr>x_chars = [104, 101, 108, 108, 0], y_int = 12, z_float = 0x40600000\<rparr>"

subsection \<open>Little-endian words\<close>

lemma byte_split: "ucast (ucast w :: byte) + push_bit 8 (drop_bit 8 w) = (w :: 32 word)"
proof -
  have "ucast (ucast w :: byte) = (take_bit 8 w :: 32 word)"
    by (rule bit_word_eqI) (auto simp: bit_simps)
  moreover have "take_bit 8 w + push_bit 8 (drop_bit 8 w) = w"
    by (metis add.commute bits_ident)
  ultimately show ?thesis by simp
qed

lemma length_le_bytes [simp]: "length (le_bytes w) = 4"
  by (simp add: le_bytes_def)

lemma le_word_bytes: "le_word (le_bytes w) = w"
proof -
  have last: "ucast (ucast (drop_bit 24 w) :: byte) = drop_bit 24 w"
    by (rule bit_word_eqI) (auto simp: bit_simps dest: bit_imp_le_length)
  have shift: "drop_bit 8 (drop_bit n w) = drop_bit (8 + n) w" for n by (simp add: drop_bit_drop_bit add.commute)
  show ?thesis
    using byte_split[of w] byte_split[of "drop_bit 8 w"] byte_split[of "drop_bit 16 w"] last
    by (simp add: le_bytes_def shift)
qed

lemma object_round_trip:
  assumes "data_ok d" and "length pad = 3"
  shows "object_at (object_bytes pad d) = d" and "length (object_bytes pad d) = 16"
  using assms by (simp_all add: object_at_def object_bytes_def data_ok_def le_word_bytes)

subsection \<open>Properties\<close>

text \<open>
  C34. The struct survives the transfer: when \<open>send\<close> takes all 16 bytes and one \<open>recv\<close> delivers them
  (with whatever follows them on the stream), the parent's object equals the child's in all
  three members, whatever the padding held, however often \<open>connect\<close> had to be tried.
\<close>

theorem transfer_round_trip:
  assumes "data_ok d" and "length pad = 3" and "16 \<le> accepted" and "child connects accepted pad d = Some bytes"
  shows "snd (parent (bytes @ later)) = d"
proof -
  have b: "bytes = object_bytes pad d"
    using assms object_round_trip(2)[OF assms(1,2)] by (auto simp: child_def sizeof_Data_def split: option.splits)
  then have "length bytes = 16" using object_round_trip(2)[OF assms(1,2)] by simp
  then have "take 16 (take 63 (bytes @ later) @ replicate k 0) = bytes" for k by simp
  then have "snd (parent (bytes @ later)) = object_at bytes" by (simp only: parent_def sizeof_Data_def Let_def snd_conv)
  then show ?thesis using object_round_trip(1)[OF assms(1,2)] b by simp
qed

theorem transfer_round_trip_witness:
  "\<exists>bytes. child [-1, 0] 16 [7, 7, 7] main_data = Some bytes \<and> snd (parent bytes) = main_data \<and> shown main_data = Inr [104, 101, 108, 108]"
proof -
  obtain bytes where b: "child [-1, 0] 16 [7, 7, 7] main_data = Some bytes" by (simp add: child_def)
  from transfer_round_trip[OF _ _ _ this, of "[]"] have "snd (parent bytes) = main_data"
    by (simp add: data_ok_def main_data_def)
  with b show ?thesis by (simp add: shown_def main_data_def)
qed

text \<open>A \<open>recv\<close> that delivers only the first 8 bytes leaves zeros in the other members.\<close>

lemma short_recv:
  assumes "data_ok d" and "length pad = 3"
  shows "snd (parent (take 8 (object_bytes pad d))) = d\<lparr>y_int := 0, z_float := 0\<rparr>"
proof -
  have "le_word (replicate 4 0) = 0" by (simp add: numeral_eq_Suc)
  with assms show ?thesis
    by (simp add: parent_def object_at_def object_bytes_def data_ok_def sizeof_Data_def Let_def take_replicate)
qed

end
