(* ===== verification/Vector_Alloc.thy ===== *)
theory Vector_Alloc
  imports Posix_IO
begin

text \<open>
  \<open>code/lang/my_allocater.cpp\<close>: the class template \<open>dcl::allocator\<close> and a \<open>std::vector<int>\<close>
  that uses it. The heap is a map from addresses to blocks of cells (\<open>None\<close>: not
  constructed); \<open>operator new\<close> returns the address it is given or throws. Of
  \<open>std::vector\<close> the operations the program uses are modelled: \<open>reserve\<close>, \<open>push_back\<close>, the
  reading of its elements and its destructor, which call the allocator.
\<close>

datatype alloc_error = BadAlloc | LengthError | Memory c_error | BadFree

record ('a) memory =
  blocks :: "nat \<rightharpoonup> 'a option list"
  trace :: "string list"

subsection \<open>The free functions\<close>

text \<open>
  \<open>_allocate\<close>: without a handler \<open>operator new\<close> throws, so the test for a null result is never true.
\<close>

definition allocate_raw :: "nat \<Rightarrow> nat option \<Rightarrow> 'a memory \<Rightarrow> alloc_error + nat \<times> 'a memory" where
  "allocate_raw n new_result s =
     (case new_result of
        None \<Rightarrow> Inl BadAlloc
      | Some a \<Rightarrow> Inr (a, s\<lparr>blocks := (blocks s)(a \<mapsto> replicate n None)\<rparr>))"

definition deallocate_raw :: "nat \<Rightarrow> 'a memory \<Rightarrow> alloc_error + 'a memory" where
  "deallocate_raw p s = (if blocks s p = None then Inl BadFree else Inr (s\<lparr>blocks := (blocks s)(p := None)\<rparr>))"

text \<open>\<open>_construct\<close> at the cell \<open>i\<close> of the block at \<open>p\<close>.\<close>

definition construct_raw :: "nat \<Rightarrow> nat \<Rightarrow> 'a \<Rightarrow> 'a memory \<Rightarrow> alloc_error + 'a memory" where
  "construct_raw p i v s =
     (case blocks s p of
        None \<Rightarrow> Inl (Memory NullDeref)
      | Some b \<Rightarrow>
          if i < length b then Inr (s\<lparr>blocks := (blocks s)(p \<mapsto> b[i := Some v])\<rparr>)
          else Inl (Memory (OverWrite (i + 1) (length b))))"

text \<open>\<open>_destroy\<close>: the destructor of the object at a cell; there must be one.\<close>

definition destroy_raw :: "nat \<Rightarrow> nat \<Rightarrow> 'a memory \<Rightarrow> alloc_error + 'a memory" where
  "destroy_raw p i s =
     (case blocks s p of
        None \<Rightarrow> Inl (Memory NullDeref)
      | Some b \<Rightarrow>
          if i < length b \<and> b ! i \<noteq> None then Inr (s\<lparr>blocks := (blocks s)(p \<mapsto> b[i := None])\<rparr>)
          else Inl (Memory (IndexOutOfRange i)))"

subsection \<open>The allocator\<close>

record 'a alloc_state =
  mem :: "'a memory"
  alloc_start :: "nat option"     \<comment> \<open>\<open>start\<close>; \<open>hole\<close> is the null pointer\<close>

definition say :: "string \<Rightarrow> 'a alloc_state \<Rightarrow> 'a alloc_state" where
  "say line s = s\<lparr>mem := (mem s)\<lparr>trace := trace (mem s) @ [line]\<rparr>\<rparr>"

text \<open>\<open>allocate\<close>: a second call returns the first block again, whatever its size.\<close>

definition allocate :: "nat \<Rightarrow> nat option \<Rightarrow> 'a alloc_state \<Rightarrow> alloc_error + nat \<times> 'a alloc_state" where
  "allocate n new_result s =
     (case alloc_start s of
        Some a \<Rightarrow> Inr (a, say ''allocate'' s)
      | None \<Rightarrow>
        (case allocate_raw n new_result (mem s) of
           Inl e \<Rightarrow> Inl e
         | Inr (a, m) \<Rightarrow> Inr (a, say ''allocate'' (s\<lparr>mem := m, alloc_start := Some a\<rparr>))))"

definition deallocate :: "nat \<Rightarrow> 'a alloc_state \<Rightarrow> alloc_error + 'a alloc_state" where
  "deallocate p s = (case deallocate_raw p (mem s) of
     Inl e \<Rightarrow> Inl e | Inr m \<Rightarrow> Inr (say ''deallocate'' (s\<lparr>mem := m\<rparr>)))"

definition construct :: "nat \<Rightarrow> nat \<Rightarrow> 'a \<Rightarrow> 'a alloc_state \<Rightarrow> alloc_error + 'a alloc_state" where
  "construct p i v s = (case construct_raw p i v (mem s) of
     Inl e \<Rightarrow> Inl e | Inr m \<Rightarrow> Inr (say ''construct'' (s\<lparr>mem := m\<rparr>)))"

definition destory :: "nat \<Rightarrow> nat \<Rightarrow> 'a alloc_state \<Rightarrow> alloc_error + 'a alloc_state" where
  "destory p i s = (case destroy_raw p i (mem s) of Inl e \<Rightarrow> Inl e | Inr m \<Rightarrow> Inr (s\<lparr>mem := m\<rparr>))"

definition UINT_MAX :: nat where "UINT_MAX = 4294967295"

definition max_size :: "nat \<Rightarrow> nat" where
  "max_size sizeof_T = UINT_MAX div sizeof_T"

subsection \<open>The vector\<close>

record 'a vector =
  al :: "'a alloc_state"
  begin_ptr :: "nat option"
  size_of :: nat
  capacity :: nat

text \<open>The elements, read cell by cell.\<close>

definition elements :: "'a vector \<Rightarrow> 'a option list" where
  "elements v = (case begin_ptr v of
     None \<Rightarrow> [] | Some p \<Rightarrow> (case blocks (mem (al v)) p of None \<Rightarrow> [] | Some b \<Rightarrow> take (size_of v) b))"

text \<open>Moving the elements to the block at \<open>p\<close>, then freeing the old one.\<close>

definition relocate :: "nat \<Rightarrow> nat \<Rightarrow> 'a vector \<Rightarrow> alloc_error + 'a vector" where
  "relocate p cap v =
     (let s = al v; old = elements v in
      case blocks (mem s) p of
        None \<Rightarrow> Inl (Memory NullDeref)
      | Some b \<Rightarrow>
          let s = s\<lparr>mem := (mem s)\<lparr>blocks := (blocks (mem s))(p \<mapsto> old @ drop (length old) b)\<rparr>\<rparr> in
          (case begin_ptr v of
             None \<Rightarrow> Inr (v\<lparr>al := s, begin_ptr := Some p, capacity := cap\<rparr>)
           | Some q \<Rightarrow> (case deallocate q s of
               Inl e \<Rightarrow> Inl e
             | Inr s \<Rightarrow> Inr (v\<lparr>al := s, begin_ptr := Some p, capacity := cap\<rparr>))))"

definition reserve :: "nat \<Rightarrow> nat option \<Rightarrow> 'a vector \<Rightarrow> alloc_error + 'a vector" where
  "reserve n new_result v =
     (if max_size 4 < n then Inl LengthError
      else if capacity v < n then
        (case allocate n new_result (al v) of
           Inl e \<Rightarrow> Inl e
         | Inr (p, s) \<Rightarrow> relocate p n (v\<lparr>al := s\<rparr>))
      else Inr v)"

text \<open>A full vector asks for twice its capacity and constructs the new element there first.\<close>

definition push_back :: "nat option \<Rightarrow> 'a \<Rightarrow> 'a vector \<Rightarrow> alloc_error + 'a vector" where
  "push_back new_result x v =
     (if size_of v = capacity v then
        let cap = max 1 (2 * capacity v) in
        (case allocate cap new_result (al v) of
           Inl e \<Rightarrow> Inl e
         | Inr (p, s) \<Rightarrow>
           (case construct p (size_of v) x s of
              Inl e \<Rightarrow> Inl e
            | Inr s \<Rightarrow> (case relocate p cap (v\<lparr>al := s\<rparr>) of
                Inl e \<Rightarrow> Inl e | Inr v \<Rightarrow> Inr (v\<lparr>size_of := size_of v + 1\<rparr>))))
      else (case begin_ptr v of
          None \<Rightarrow> Inl (Memory NullDeref)
        | Some p \<Rightarrow> (case construct p (size_of v) x (al v) of
            Inl e \<Rightarrow> Inl e | Inr s \<Rightarrow> Inr (v\<lparr>al := s, size_of := size_of v + 1\<rparr>))))"

definition destroy_vector :: "'a vector \<Rightarrow> alloc_error + 'a alloc_state" where
  "destroy_vector v = (case begin_ptr v of None \<Rightarrow> Inr (al v) | Some p \<Rightarrow> deallocate p (al v))"

definition empty_vector :: "'a vector" where
  "empty_vector = \<lparr>al = \<lparr>mem = \<lparr>blocks = Map.empty, trace = []\<rparr>, alloc_start = None\<rparr>,
     begin_ptr = None, size_of = 0, capacity = 0\<rparr>"

text \<open>
  \<open>main\<close>, for any capacity reserved and any elements pushed: what is printed and the memory at the end.
  The addresses that \<open>operator new\<close> returns are \<open>a\<close> for the first call and \<open>b\<close> for later ones.
\<close>

definition vector_main :: "nat \<Rightarrow> nat \<Rightarrow> nat \<Rightarrow> 'a list \<Rightarrow> alloc_error + 'a option list \<times> 'a memory" where
  "vector_main n a b xs =
     (case reserve n (Some a) empty_vector of
        Inl e \<Rightarrow> Inl e
      | Inr v \<Rightarrow>
        (case foldE (push_back (Some b)) xs v of
           Inl e \<Rightarrow> Inl e
         | Inr v \<Rightarrow> (case destroy_vector v of
             Inl e \<Rightarrow> Inl e | Inr s \<Rightarrow> Inr (elements v, mem s))))"

subsection \<open>The vector holds a prefix of one block\<close>

definition vec_inv :: "nat \<Rightarrow> nat \<Rightarrow> 'a list \<Rightarrow> 'a vector \<Rightarrow> bool" where
  "vec_inv n a ys v \<longleftrightarrow> begin_ptr v = Some a \<and> alloc_start (al v) = Some a \<and> capacity v = n \<and>
     size_of v = length ys \<and> length ys \<le> n \<and>
     (\<exists>b. blocks (mem (al v)) = [a \<mapsto> b] \<and> length b = n \<and> take (length ys) b = map Some ys)"

lemma reserve_first:
  assumes "0 < n" and "n \<le> max_size 4"
  shows "\<exists>v. reserve n (Some a) empty_vector = Inr v \<and> vec_inv n a [] v"
  using assms by (auto simp: reserve_def empty_vector_def allocate_def allocate_raw_def say_def relocate_def
      elements_def vec_inv_def intro!: exI[of _ "replicate n None"])

lemma push_back_room:
  assumes "vec_inv n a ys v" and "length ys < n"
  shows "\<exists>w. push_back r x v = Inr w \<and> vec_inv n a (ys @ [x]) w"
proof -
  obtain b where b: "blocks (mem (al v)) = [a \<mapsto> b]" "length b = n" "take (length ys) b = map Some ys"
    using assms(1) by (auto simp: vec_inv_def)
  have "take (Suc (length ys)) (b[length ys := Some x]) = map Some (ys @ [x])"
    using b(2,3) assms(2) by (simp add: take_Suc_conv_app_nth)
  with assms b show ?thesis
    by (auto simp: push_back_def construct_def construct_raw_def say_def vec_inv_def)
qed

lemma push_back_full:
  assumes "vec_inv n a ys v" and "length ys = n"
  shows "push_back r x v = Inl (Memory (OverWrite (n + 1) n))"
  using assms by (auto simp: vec_inv_def push_back_def allocate_def construct_def construct_raw_def say_def Let_def)

lemma push_all:
  "vec_inv n a ys v \<Longrightarrow>
     (length (ys @ xs) \<le> n \<longrightarrow> (\<exists>w. foldE (push_back r) xs v = Inr w \<and> vec_inv n a (ys @ xs) w)) \<and>
     (n < length (ys @ xs) \<longrightarrow> foldE (push_back r) xs v = Inl (Memory (OverWrite (n + 1) n)))"
proof (induction xs arbitrary: ys v)
  case Nil
  then show ?case by (auto simp: vec_inv_def)
next
  case (Cons x xs)
  show ?case
  proof (cases "length ys < n")
    case True
    with push_back_room[OF Cons.prems] obtain w where w: "push_back r x v = Inr w" "vec_inv n a (ys @ [x]) w" by blast
    from Cons.IH[OF w(2)] w(1) show ?thesis by simp
  next
    case False
    with Cons.prems have "length ys = n" by (simp add: vec_inv_def)
    with push_back_full[OF Cons.prems] show ?thesis by simp
  qed
qed

text \<open>What \<open>construct\<close> has built \<open>destory\<close> can destroy, and only once.\<close>

lemma construct_destory:
  assumes "construct p i v s = Inr t"
  shows "\<exists>u. destory p i t = Inr u \<and> destory p i u = Inl (Memory (IndexOutOfRange i))"
proof -
  obtain b where b: "blocks (mem s) p = Some b" "i < length b" "t = say ''construct'' (s\<lparr>mem := (mem s)\<lparr>blocks := (blocks (mem s))(p \<mapsto> b[i := Some v])\<rparr>\<rparr>)"
    using assms by (auto simp: construct_def construct_raw_def split: option.splits if_splits)
  then show ?thesis by (auto simp: destory_def destroy_raw_def say_def)
qed

subsection \<open>Properties\<close>

text \<open>
  The vector over \<open>dcl::allocator\<close> works up to the capacity reserved, and only up to it: pushing at
  most as many elements prints exactly them, in order, and leaves no memory allocated;
  one more makes the allocator hand out the same block again and the new element is stored
  past its end.
\<close>

theorem vector_within_capacity:
  fixes xs :: "'a list"
  assumes "0 < n" and "n \<le> max_size 4"
  shows "if length xs \<le> n
    then \<exists>m. vector_main n a b xs = Inr (map Some xs, m) \<and> blocks m = Map.empty
    else vector_main n a b xs = Inl (Memory (OverWrite (n + 1) n))"
proof -
  obtain v :: "'a vector" where v: "reserve n (Some a) empty_vector = Inr v" "vec_inv n a [] v" using reserve_first[OF assms] by blast
  note all = push_all[OF v(2), of xs "Some b"]
  show ?thesis
  proof (cases "length xs \<le> n")
    case True
    with all obtain w where w: "foldE (push_back (Some b)) xs v = Inr w" "vec_inv n a xs w" by auto
    then obtain c where c: "blocks (mem (al w)) = [a \<mapsto> c]" "take (length xs) c = map Some xs"
      "begin_ptr w = Some a" "size_of w = length xs" by (auto simp: vec_inv_def)
    then have "elements w = map Some xs" by (simp add: elements_def)
    with True v(1) w(1) c show ?thesis
      by (simp add: vector_main_def destroy_vector_def deallocate_def deallocate_raw_def say_def)
  qed (use all v(1) in \<open>simp add: vector_main_def\<close>)
qed

theorem vector_within_capacity_witness:
  "\<exists>m. vector_main 12 64 128 [1 :: int, 2, 3, 4, 5] = Inr ([Some 1, Some 2, Some 3, Some 4, Some 5], m) \<and>
     blocks m = Map.empty"
  using vector_within_capacity[of 12 "[1 :: int, 2, 3, 4, 5]" 64 128] by (simp add: max_size_def UINT_MAX_def)

end
