(* ===== verification/Std_Future.thy ===== *)
theory Std_Future
  imports Prelude
begin

text \<open>
  The small programs around \<open>std::promise\<close>, \<open>std::future\<close> and \<open>std::packaged_task\<close>:
  \<open>code/concurrent/promise.cpp\<close>, \<open>set_value.cpp\<close>, \<open>shared_future.cpp\<close>,
  \<open>package_task.cpp\<close>, \<open>wait_fororuntil.cpp\<close>, \<open>atomic_bool.cpp\<close> and \<open>async.cpp\<close>.

  A shared state has the value stored, whether it is ready, and for
  \<open>set_value_at_thread_exit\<close> the thread whose end makes it ready. A thread is the list of the
  calls it still has to make; the programs are written down as such lists, a call of the source
  each, and \<open>fstep\<close> interleaves them. \<open>sleep_for\<close> is left out: any interleaving is possible,
  and a wait with a timeout may time out whenever the state is not ready. An exception of
  \<open>main\<close> that is not caught ends the program, as does the return of \<open>main\<close> (thread 0).

  Two points the C++ standard leaves to the library are as in libstdc++: \<open>get\<close> and \<open>share\<close> on
  a future without a shared state throw \<open>no_state\<close>, and the destructor of a promise whose value
  was set for the exit of a thread leaves the value alone. Messages are in English, the value
  12.8 is counted in tenths and the one string stored in a promise is the number 0.
\<close>

datatype future_error = NoState | PromiseAlreadySatisfied

datatype line = Text string | Val int | Flag bool | Index nat

datatype instr =
    Print line
  | Spawn nat "instr list"          \<comment> \<open>\<open>std::thread(...).detach()\<close>, \<open>std::async\<close>\<close>
  | Join nat
  | SetValue nat int                \<comment> \<open>\<open>promise::set_value\<close>, a call of a \<open>packaged_task\<close>\<close>
  | SetAtExit nat int               \<comment> \<open>\<open>promise::set_value_at_thread_exit\<close>\<close>
  | Wait nat
  | Get nat                         \<comment> \<open>\<open>cout << future.get()\<close>\<close>
  | Fetch nat                       \<comment> \<open>\<open>res_value = res.get()\<close>, tried again after an exception\<close>
  | PrintRes                        \<comment> \<open>\<open>cout << res_value\<close>\<close>
  | GetShared nat
  | Share nat
  | Reset nat                       \<comment> \<open>a new shared state and its future\<close>
  | PrintValid nat
  | PrintValidShared nat
  | Store bool                      \<comment> \<open>\<open>end_flag.store\<close>\<close>
  | Star                            \<comment> \<open>the loop of \<open>print_process\<close>: print \<open>*\<close>,\<close>
  | CheckFlag                       \<comment> \<open>then leave it when \<open>end_flag\<close> is set\<close>
  | StarUntilFlagOrTime
  | WaitFor nat "instr list" "instr list"
  | PollUntilReady nat

record slot =
  stored :: "int option"
  is_ready :: bool
  exit_of :: "nat option"

record fstate =
  slots :: "nat \<Rightarrow> slot"
  valid :: "nat set"
  shared :: "nat set"
  end_flag :: bool
  res_value :: int
  thr :: "nat \<Rightarrow> instr list option"
  ended :: "nat set"
  fout :: "line list"
  threw :: "future_error option"

definition fresh_slot :: slot where
  "fresh_slot = \<lparr>stored = None, is_ready = False, exit_of = None\<rparr>"

definition fprint :: "line \<Rightarrow> fstate \<Rightarrow> fstate" where
  "fprint l s = s\<lparr>fout := fout s @ [l]\<rparr>"

definition goto :: "nat \<Rightarrow> instr list \<Rightarrow> fstate \<Rightarrow> fstate" where
  "goto t cs s = s\<lparr>thr := (thr s)(t \<mapsto> cs)\<rparr>"

definition put_slot :: "nat \<Rightarrow> slot \<Rightarrow> fstate \<Rightarrow> fstate" where
  "put_slot k c s = s\<lparr>slots := (slots s)(k := c)\<rparr>"

definition fthrow :: "future_error \<Rightarrow> fstate \<Rightarrow> fstate" where
  "fthrow e s = s\<lparr>threw := Some e\<rparr>"

text \<open>The value behind a ready state, printed.\<close>

definition print_value :: "nat \<Rightarrow> fstate \<Rightarrow> fstate" where
  "print_value k s = (case stored (slots s k) of None \<Rightarrow> s | Some v \<Rightarrow> fprint (Val v) s)"

definition fetch_value :: "nat \<Rightarrow> fstate \<Rightarrow> fstate" where
  "fetch_value k s = (case stored (slots s k) of None \<Rightarrow> s | Some v \<Rightarrow> s\<lparr>res_value := v\<rparr>)"

text \<open>What thread \<open>t\<close> can do when its next call is \<open>i\<close>; no successor means it is blocked.\<close>

fun exec :: "nat \<Rightarrow> instr \<Rightarrow> instr list \<Rightarrow> fstate \<Rightarrow> fstate list" where
  "exec t (Print l) cs s = [goto t cs (fprint l s)]"
| "exec t (Spawn u c) cs s = [goto t cs (goto u c s)]"
| "exec t (Join u) cs s = (if u \<in> ended s then [goto t cs s] else [])"
| "exec t (SetValue k v) cs s =
     [if stored (slots s k) \<noteq> None then fthrow PromiseAlreadySatisfied s
      else goto t cs (put_slot k \<lparr>stored = Some v, is_ready = True, exit_of = None\<rparr> s)]"
| "exec t (SetAtExit k v) cs s =
     [if stored (slots s k) \<noteq> None then fthrow PromiseAlreadySatisfied s
      else goto t cs (put_slot k \<lparr>stored = Some v, is_ready = False, exit_of = Some t\<rparr> s)]"
| "exec t (Get k) cs s =
     (if k \<notin> valid s then [fthrow NoState s]
      else if is_ready (slots s k) then [goto t cs (print_value k s)\<lparr>valid := valid s - {k}\<rparr>]
      else [])"
| "exec t (Wait k) cs s =
     (if k \<notin> valid s then [fthrow NoState s] else if is_ready (slots s k) then [goto t cs s] else [])"
| "exec t (Fetch k) cs s =
     (if k \<notin> valid s then [goto t (Fetch k # cs) (fprint (Text ''exception'') s)]
      else if is_ready (slots s k) then [goto t cs (fetch_value k s)\<lparr>valid := valid s - {k}\<rparr>]
      else [])"
| "exec t PrintRes cs s = [goto t cs (fprint (Val (res_value s)) s)]"
| "exec t (GetShared k) cs s =
     (if k \<notin> shared s then [fthrow NoState s]
      else if is_ready (slots s k) then [goto t cs (print_value k s)] else [])"
| "exec t (Share k) cs s =
     (if k \<notin> valid s then [fthrow NoState s]
      else [goto t cs (s\<lparr>valid := valid s - {k}, shared := insert k (shared s)\<rparr>)])"
| "exec t (Reset k) cs s = [goto t cs (put_slot k fresh_slot (s\<lparr>valid := insert k (valid s)\<rparr>))]"
| "exec t (PrintValid k) cs s = [goto t cs (fprint (Flag (k \<in> valid s)) s)]"
| "exec t (PrintValidShared k) cs s = [goto t cs (fprint (Flag (k \<in> shared s)) s)]"
| "exec t (Store b) cs s = [goto t cs (s\<lparr>end_flag := b\<rparr>)]"
| "exec t Star cs s = [goto t (CheckFlag # cs) (fprint (Text ''*'') s)]"
| "exec t CheckFlag cs s = [if end_flag s then goto t cs (fprint (Text [CHR 0x0A]) s) else goto t (Star # cs) s]"
| "exec t StarUntilFlagOrTime cs s =
     [goto t cs s,
      if end_flag s then goto t cs (fprint (Text ''asked to end'') s)
      else goto t (StarUntilFlagOrTime # cs) (fprint (Text ''*'') s)]"
| "exec t (WaitFor k c1 c2) cs s = [if is_ready (slots s k) then goto t (c1 @ cs) s else goto t (c2 @ cs) s]"
| "exec t (PollUntilReady k) cs s =
     [if is_ready (slots s k) then goto t cs s else goto t (PollUntilReady k # cs) (fprint (Text ''wait_for UnReady'') s)]"

text \<open>The end of a thread makes ready what was set for its exit.\<close>

definition thread_exit :: "nat \<Rightarrow> fstate \<Rightarrow> fstate" where
  "thread_exit t s = s\<lparr>ended := insert t (ended s),
     slots := (\<lambda>k. if exit_of (slots s k) = Some t then (slots s k)\<lparr>is_ready := True\<rparr> else slots s k)\<rparr>"

inductive fstep :: "fstate \<Rightarrow> fstate \<Rightarrow> bool" where
  call: "threw s = None \<Longrightarrow> 0 \<notin> ended s \<Longrightarrow> thr s t = Some (i # cs) \<Longrightarrow> s' \<in> set (exec t i cs s) \<Longrightarrow> fstep s s'"
| finish: "threw s = None \<Longrightarrow> 0 \<notin> ended s \<Longrightarrow> thr s t = Some [] \<Longrightarrow> t \<notin> ended s \<Longrightarrow> fstep s (thread_exit t s)"

text \<open>The start of a program whose \<open>main\<close> is \<open>c\<close> and whose futures, one per promise, are \<open>ks\<close>.\<close>

definition fstart :: "instr list \<Rightarrow> nat list \<Rightarrow> fstate \<Rightarrow> bool" where
  "fstart c ks s \<longleftrightarrow> s = \<lparr>slots = (\<lambda>_. fresh_slot), valid = set ks, shared = {}, end_flag = False, res_value = 0,
     thr = [0 \<mapsto> c], ended = {}, fout = [], threw = None\<rparr>"

subsection \<open>The programs\<close>

text \<open>\<open>set_value.cpp\<close>: state 0 is \<open>p\<close>, state 1 is \<open>test\<close>, which is set for the exit of \<open>main\<close>.\<close>

definition set_value_main :: "instr list" where
  "set_value_main = [Spawn 1 [SetAtExit 0 9], SetAtExit 1 11, Print (Text ''Waiting''), Get 1,
     Print (Text ''Waiting...''), Wait 0, Print (Text ''Result is''), Get 0]"

text \<open>\<open>shared_future.cpp\<close>.\<close>

definition shared_future_main :: "instr list" where
  "shared_future_main = [Spawn 1 [SetAtExit 0 12], PrintValid 0, Share 0, Get 0] @
     concat (map (\<lambda>i. [Print (Index i), GetShared 0, PrintValid 0]) [0..<12])"

text \<open>\<open>promise.cpp\<close>: state 0 is \<open>courier\<close>, state 1 is \<open>courier1\<close> (12.8 in tenths).\<close>

definition Myfunction :: "instr list" where
  "Myfunction = [SetValue 0 1100]"

definition print_process :: "instr list" where
  "print_process = [SetAtExit 1 128, Star]"

definition promise_main :: "instr list" where
  "promise_main = [Spawn 1 Myfunction, Spawn 2 print_process, Fetch 0, Store True, PrintRes, Get 1]"

text \<open>\<open>atomic_bool.cpp\<close>.\<close>

definition flag_func :: "nat \<Rightarrow> int \<Rightarrow> instr list" where
  "flag_func k res = [SetAtExit k res, StarUntilFlagOrTime]"

definition atomic_bool_main :: "instr list" where
  "atomic_bool_main = [Spawn 1 (flag_func 0 1), Store True, Get 0, Store False, Spawn 2 (flag_func 1 2), Get 1]"

text \<open>\<open>package_task.cpp\<close>: the task is \<open>a + b\<close>; \<open>reset\<close> and the second \<open>get_future\<close> make state 1.\<close>

definition package_task_main :: "instr list" where
  "package_task_main = [SetValue 0 (1 + 4), Print (Text ''task_thread:''), Get 0, Reset 1,
     Spawn 1 [SetValue 1 (12 + 10)], Join 1, Print (Text ''task_thread:''), Get 1]"

text \<open>\<open>async.cpp\<close>.\<close>

definition async_main :: "instr list" where
  "async_main = [Spawn 1 [Print (Text ''returns''), SetValue 0 169168], Print (Text ''start''), Get 0]"

text \<open>
  \<open>wait_fororuntil.cpp\<close>: state 0 is \<open>promise_2s\<close>, state 1 \<open>promise2\<close>, state 2 the task. Both
  branches of the second wait that can be taken run the task in \<open>main\<close>.
\<close>

definition wait_function :: "instr list" where
  "wait_function = [SetAtExit 1 0, SetValue 2 12]"

definition wait_main :: "instr list" where
  "wait_main = [Spawn 1 [SetAtExit 0 1],
     WaitFor 0 [Print (Text ''wait_until Ready'')] [Print (Text ''wait_until timeout'')],
     WaitFor 0 [Print (Text ''wait_for Ready''), Get 0] [Print (Text ''wait_for UnReady'')],
     Share 1, Share 2,
     WaitFor 2 [Print (Text ''wait_until Ready'')] (Print (Text ''wait_until timeout'') # wait_function),
     PrintValidShared 1, PollUntilReady 1, Print (Text ''wait_for Ready''), GetShared 2, GetShared 1]"

lemmas exec_defs = goto_def fprint_def put_slot_def fthrow_def print_value_def fetch_value_def thread_exit_def

fun vals :: "line list \<Rightarrow> int list" where
  "vals [] = []" | "vals (Val v # ls) = v # vals ls" | "vals (_ # ls) = vals ls"

lemma vals_append [simp]: "vals (xs @ ys) = vals xs @ vals ys"
  by (induction xs rule: vals.induct) auto

subsection \<open>Runs under a schedule\<close>

text \<open>The next step of thread \<open>t\<close>, if it can make one, and the run that a list of threads gives.\<close>

fun thread_step :: "nat \<Rightarrow> fstate \<Rightarrow> fstate option" where
  "thread_step t s =
     (if threw s \<noteq> None \<or> 0 \<in> ended s then None
      else case thr s t of
        None \<Rightarrow> None
      | Some [] \<Rightarrow> if t \<in> ended s then None else Some (thread_exit t s)
      | Some (i # cs) \<Rightarrow> (case exec t i cs s of [] \<Rightarrow> None | s' # _ \<Rightarrow> Some s'))"

fun run :: "nat list \<Rightarrow> fstate \<Rightarrow> fstate option" where
  "run [] s = Some s" | "run (t # ts) s = Option.bind (thread_step t s) (run ts)"

lemma thread_step_fstep: "thread_step t s = Some s' \<Longrightarrow> fstep s s'"
  by (auto split: if_splits option.splits list.splits intro: fstep.intros)

lemma run_reach: "run ts s = Some s' \<Longrightarrow> reach ini fstep s \<Longrightarrow> reach ini fstep s'"
proof (induction ts arbitrary: s)
  case (Cons t ts)
  from Cons.prems(1) obtain u where u: "thread_step t s = Some u" "run ts u = Some s'"
    by (auto simp del: thread_step.simps split: bind_splits)
  from thread_step_fstep[OF u(1)] have "reach ini fstep u" by (rule reach_nxt[OF Cons.prems(2)])
  with u(2) show ?case by (rule Cons.IH)
qed simp

lemma main_ended: "0 \<in> ended s \<Longrightarrow> \<not> fstep s s'"
  by (auto elim: fstep.cases)

definition fbegin :: "instr list \<Rightarrow> nat list \<Rightarrow> fstate" where
  "fbegin c ks = \<lparr>slots = (\<lambda>_. fresh_slot), valid = set ks, shared = {}, end_flag = False, res_value = 0,
     thr = [0 \<mapsto> c], ended = {}, fout = [], threw = None\<rparr>"

lemma run_from_start: "run ts (fbegin c ks) = Some s \<Longrightarrow> reach (fstart c ks) fstep s"
  by (rule run_reach, assumption, rule reach_ini) (simp add: fstart_def fbegin_def)

subsection \<open>Waiting for one's own exit\<close>

text \<open>
  A call is quiet about state \<open>k\<close> if no thread makes \<open>k\<close> ready through it: \<open>k\<close> is set, if at
  all, by \<open>main\<close> (\<open>m\<close>) and for the exit of \<open>main\<close>. A call that needs \<open>k\<close> ready then waits for
  ever, whatever the program is.
\<close>

fun quiet :: "nat \<Rightarrow> bool \<Rightarrow> instr \<Rightarrow> bool" where
  "quiet k m (SetValue j v) \<longleftrightarrow> j \<noteq> k"
| "quiet k m (SetAtExit j v) \<longleftrightarrow> j \<noteq> k \<or> m"
| "quiet k m (Spawn u c) \<longleftrightarrow> u \<noteq> 0 \<and> (\<forall>i \<in> set c. quiet k False i)"
| "quiet k m (WaitFor j c1 c2) \<longleftrightarrow> (\<forall>i \<in> set c1. quiet k m i) \<and> (\<forall>i \<in> set c2. quiet k m i)"
| "quiet k m _ \<longleftrightarrow> True"

definition needs :: "nat \<Rightarrow> instr \<Rightarrow> bool" where
  "needs k i \<longleftrightarrow> i = Wait k \<or> i = Get k \<or> i = GetShared k \<or> i = PollUntilReady k"

definition own_exit_inv :: "nat \<Rightarrow> fstate \<Rightarrow> bool" where
  "own_exit_inv k s \<longleftrightarrow> 0 \<notin> ended s \<and> \<not> is_ready (slots s k) \<and> exit_of (slots s k) \<in> {None, Some 0} \<and>
     (\<forall>t cs. thr s t = Some cs \<longrightarrow> (\<forall>i \<in> set cs. quiet k (t = 0) i)) \<and>
     (\<exists>cs. thr s 0 = Some cs \<and> (\<exists>i \<in> set cs. needs k i))"

lemma own_exit_other [simp]:
  "own_exit_inv k (s\<lparr>valid := v\<rparr>) = own_exit_inv k s" "own_exit_inv k (s\<lparr>shared := v\<rparr>) = own_exit_inv k s"
  "own_exit_inv k (s\<lparr>end_flag := b\<rparr>) = own_exit_inv k s" "own_exit_inv k (fprint l s) = own_exit_inv k s"
  "own_exit_inv k (print_value j s) = own_exit_inv k s" "own_exit_inv k (fetch_value j s) = own_exit_inv k s"
  "own_exit_inv k (fthrow e s) = own_exit_inv k s"
  by (simp_all add: own_exit_inv_def fprint_def print_value_def fetch_value_def fthrow_def split: option.splits)

lemma own_exit_put_slot:
  "own_exit_inv k s \<Longrightarrow> j = k \<longrightarrow> \<not> is_ready c \<and> exit_of c \<in> {None, Some 0} \<Longrightarrow> own_exit_inv k (put_slot j c s)"
  by (simp add: own_exit_inv_def put_slot_def)

lemma own_exit_goto:
  assumes "own_exit_inv k s" and "\<forall>i \<in> set cs. quiet k (t = 0) i" and "t = 0 \<longrightarrow> (\<exists>i \<in> set cs. needs k i)"
  shows "own_exit_inv k (goto t cs s)"
proof -
  have "\<forall>i \<in> set ds. quiet k (u = 0) i" if "thr (goto t cs s) u = Some ds" for u ds
    using assms(1,2) that by (cases "u = t") (auto simp: own_exit_inv_def goto_def)
  moreover have "\<exists>ds. thr (goto t cs s) 0 = Some ds \<and> (\<exists>i \<in> set ds. needs k i)"
    using assms(1,3) by (cases "t = 0") (simp_all add: own_exit_inv_def goto_def)
  ultimately show ?thesis using assms(1) by (auto simp: own_exit_inv_def goto_def)
qed

lemma own_exit_call:
  assumes inv: "own_exit_inv k s" and t: "thr s t = Some (i # cs)" and s': "s' \<in> set (exec t i cs s)"
  shows "own_exit_inv k s'"
proof -
  have q: "quiet k (t = 0) i" "\<forall>j \<in> set cs. quiet k (t = 0) j"
    and n: "t = 0 \<Longrightarrow> needs k i \<or> (\<exists>j \<in> set cs. needs k j)" and blocked: "\<not> is_ready (slots s k)"
    using inv t by (auto simp: own_exit_inv_def)
  note [simp] = own_exit_put_slot inv blocked
  show ?thesis
  proof (cases "needs k i")
    case True
    then show ?thesis using s' q by (auto simp: needs_def intro!: own_exit_goto split: if_splits)
  next
    case False
    with n have n': "t = 0 \<Longrightarrow> \<exists>j \<in> set cs. needs k j" by blast
    have go: "own_exit_inv k (goto t (c @ cs) r)"
      if "own_exit_inv k r" "\<forall>j \<in> set c. quiet k (t = 0) j" for c r
      using that q(2) n' by (intro own_exit_goto) auto
    note [simp] = go go[of _ "[]", simplified] go[of _ "[j]" for j, simplified]
    show ?thesis using s' q(1) by (cases i) (auto simp: fresh_slot_def own_exit_goto split: if_splits)
  qed
qed

lemma own_exit_step:
  assumes "own_exit_inv k s" and "fstep s s'"
  shows "own_exit_inv k s'"
  using assms(2)
proof cases
  case (call t i cs)
  with assms(1) show ?thesis by (blast intro: own_exit_call)
next
  case (finish t)
  have "t \<noteq> 0"
  proof
    assume "t = 0"
    with finish(4) assms(1) show False by (simp add: own_exit_inv_def)
  qed
  with assms(1) finish show ?thesis by (auto simp: own_exit_inv_def thread_exit_def)
qed

lemma own_exit_waits:
  assumes "reach (fstart c ks) fstep s" and "\<forall>i \<in> set c. quiet k True i" and "\<exists>i \<in> set c. needs k i"
  shows "own_exit_inv k s"
  using assms(1)
proof induction
  case (reach_ini s)
  with assms(2,3) show ?case by (auto simp: fstart_def own_exit_inv_def fresh_slot_def split: if_splits)
next
  case (reach_nxt s t)
  then show ?case by (blast intro: own_exit_step)
qed

subsection \<open>What is printed\<close>

text \<open>
  Programs in which only \<open>main\<close> prints values, and every state \<open>k\<close> is set, if at all, to the
  value \<open>env k\<close>: what \<open>main\<close> prints is determined, whatever the interleaving.
\<close>

fun gets :: "instr list \<Rightarrow> nat list" where
  "gets [] = []" | "gets (Get k # cs) = k # gets cs" | "gets (GetShared k # cs) = k # gets cs" | "gets (_ # cs) = gets cs"

fun determined :: "(nat \<Rightarrow> int) \<Rightarrow> bool \<Rightarrow> instr \<Rightarrow> bool" where
  "determined env m (SetValue k v) \<longleftrightarrow> v = env k"
| "determined env m (SetAtExit k v) \<longleftrightarrow> v = env k"
| "determined env m (Spawn u c) \<longleftrightarrow> u \<noteq> 0 \<and> (\<forall>i \<in> set c. determined env False i)"
| "determined env m (Print l) \<longleftrightarrow> vals [l] = []"
| "determined env m (Get k) \<longleftrightarrow> m"
| "determined env m (GetShared k) \<longleftrightarrow> m"
| "determined env m (Fetch k) \<longleftrightarrow> False"
| "determined env m PrintRes \<longleftrightarrow> False"
| "determined env m (WaitFor k c1 c2) \<longleftrightarrow> False"
| "determined env m _ \<longleftrightarrow> True"

definition slots_ok :: "(nat \<Rightarrow> int) \<Rightarrow> fstate \<Rightarrow> bool" where
  "slots_ok env s \<longleftrightarrow> (\<forall>k. stored (slots s k) \<in> {None, Some (env k)} \<and>
     (is_ready (slots s k) \<or> exit_of (slots s k) \<noteq> None \<longrightarrow> stored (slots s k) \<noteq> None))"

definition code_ok :: "(nat \<Rightarrow> int) \<Rightarrow> fstate \<Rightarrow> bool" where
  "code_ok env s \<longleftrightarrow> (\<forall>t cs. thr s t = Some cs \<longrightarrow> (\<forall>i \<in> set cs. determined env (t = 0) i))"

definition prints :: "(nat \<Rightarrow> int) \<Rightarrow> fstate \<Rightarrow> instr list \<Rightarrow> int list" where
  "prints env s cs = vals (fout s) @ map env (gets cs)"

definition printed_inv :: "(nat \<Rightarrow> int) \<Rightarrow> instr list \<Rightarrow> fstate \<Rightarrow> bool" where
  "printed_inv env c s \<longleftrightarrow> slots_ok env s \<and> code_ok env s \<and>
     (\<exists>cs. thr s 0 = Some cs \<and> prints env s cs = map env (gets c) \<and> (0 \<in> ended s \<longrightarrow> cs = []))"

lemma gets_none: "\<forall>i \<in> set cs. determined env False i \<Longrightarrow> gets cs = []"
  by (induction cs rule: gets.induct) auto

lemma exec_slots:
  assumes "slots_ok env s" and "determined env m i" and "s' \<in> set (exec t i cs s)"
  shows "slots_ok env s'"
  using assms by (cases i) (auto simp: slots_ok_def exec_defs fresh_slot_def split: if_splits option.splits)

lemma exec_code:
  assumes "code_ok env s" and "\<forall>j \<in> set (i # cs). determined env (t = 0) j" and "s' \<in> set (exec t i cs s)"
  shows "code_ok env s'"
proof -
  have go: "code_ok env (goto u ds r)" if "code_ok env r" "\<forall>j \<in> set ds. determined env (u = 0) j" for u ds r
    using that by (auto simp: code_ok_def goto_def)
  have other [simp]: "code_ok env (r\<lparr>valid := v\<rparr>) = code_ok env r" "code_ok env (r\<lparr>shared := v\<rparr>) = code_ok env r"
    "code_ok env (r\<lparr>end_flag := b\<rparr>) = code_ok env r" "code_ok env (fprint l r) = code_ok env r"
    "code_ok env (print_value k r) = code_ok env r" "code_ok env (put_slot k d r) = code_ok env r"
    "code_ok env (fthrow e r) = code_ok env r" for r v b l k d e
    by (simp_all add: code_ok_def fprint_def print_value_def put_slot_def fthrow_def split: option.splits)
  show ?thesis using assms by (cases i) (auto intro!: go split: if_splits)
qed

lemma exec_prints:
  assumes "slots_ok env s" and "thr s t = Some (i # cs)" and "\<forall>j \<in> set (i # cs). determined env (t = 0) j"
    and "s' \<in> set (exec t i cs s)"
  shows "(\<exists>ds. thr s' t = Some ds \<and> prints env s' ds = prints env s (i # cs)) \<and>
    (t \<noteq> 0 \<longrightarrow> thr s' 0 = thr s 0 \<and> vals (fout s') = vals (fout s)) \<and> ended s' = ended s"
  using assms
  by (cases i) (auto simp: prints_def exec_defs slots_ok_def split: if_splits option.splits)

lemma printed_step:
  assumes inv: "printed_inv env c s" and "fstep s s'"
  shows "printed_inv env c s'"
  using assms(2)
proof cases
  case (call t i cs)
  have ok: "slots_ok env s" "code_ok env s" using inv by (simp_all add: printed_inv_def)
  then have d: "\<forall>j \<in> set (i # cs). determined env (t = 0) j" using call(3) by (auto simp: code_ok_def)
  note out = exec_prints[OF ok(1) call(3) d call(4)]
  have "determined env (t = 0) i" using d by simp
  then have "slots_ok env s'" by (rule exec_slots[OF ok(1) _ call(4)])
  moreover have "code_ok env s'" by (rule exec_code[OF ok(2) d call(4)])
  moreover have "\<exists>ds. thr s' 0 = Some ds \<and> prints env s' ds = map env (gets c)"
    using out inv call(3) by (cases "t = 0") (auto simp: printed_inv_def prints_def)
  ultimately show ?thesis using out call(2) by (auto simp: printed_inv_def)
next
  case (finish t)
  with inv show ?thesis
    by (cases "t = 0") (auto simp: printed_inv_def slots_ok_def code_ok_def prints_def thread_exit_def)
qed

lemma printed_values:
  assumes "reach (fstart c ks) fstep s" and "\<forall>i \<in> set c. determined env True i"
  shows "printed_inv env c s"
  using assms(1)
proof induction
  case (reach_ini s)
  with assms(2) show ?case
    by (auto simp: fstart_def printed_inv_def slots_ok_def code_ok_def prints_def fresh_slot_def split: if_splits)
next
  case (reach_nxt s t)
  then show ?case by (blast intro: printed_step)
qed

subsection \<open>\<open>promise.cpp\<close>\<close>

text \<open>
  The reachable states, by the position \<open>n\<close> of \<open>main\<close>, the position \<open>a\<close> of \<open>Myfunction\<close>, the
  position \<open>b\<close> of \<open>print_process\<close> (2 between the star and the test of the flag) and the threads
  \<open>E\<close> that have ended.
\<close>

definition printer_rest :: "nat \<Rightarrow> instr list" where
  "printer_rest b = (if b = 0 then print_process else if b = 1 then [Star] else if b = 2 then [CheckFlag] else [])"

fun pm_st :: "nat \<times> nat \<times> nat \<times> nat set \<times> line list \<Rightarrow> fstate" where
  "pm_st (n, a, b, E, out) = \<lparr>
     slots = (\<lambda>k. if k = 0 then (if a = 1 then \<lparr>stored = Some 1100, is_ready = True, exit_of = None\<rparr> else fresh_slot)
       else if k = 1 then (if 1 \<le> b then \<lparr>stored = Some 128, is_ready = (2 \<in> E), exit_of = Some 2\<rparr> else fresh_slot)
       else fresh_slot),
     valid = (if n < 3 then {0, 1} else if n < 6 then {1} else {}), shared = {}, end_flag = (4 \<le> n),
     res_value = (if n < 3 then 0 else 1100),
     thr = (\<lambda>t. if t = 0 then Some (drop n promise_main)
       else if t = 1 \<and> 1 \<le> n then Some (drop a Myfunction)
       else if t = 2 \<and> 2 \<le> n then Some (printer_rest b) else None),
     ended = E, fout = out, threw = None\<rparr>"

fun pm_ok :: "nat \<times> nat \<times> nat \<times> nat set \<times> line list \<Rightarrow> bool" where
  "pm_ok (n, a, b, E, out) \<longleftrightarrow> n \<le> 6 \<and> a \<le> 1 \<and> b \<le> 3 \<and> (n < 1 \<longrightarrow> a = 0) \<and> (n < 2 \<longrightarrow> b = 0) \<and> (3 \<le> n \<longrightarrow> a = 1) \<and>
     (b = 3 \<longrightarrow> 4 \<le> n) \<and> (2 \<in> E \<longrightarrow> b = 3) \<and> (n = 6 \<longrightarrow> 2 \<in> E) \<and> (0 \<in> E \<longrightarrow> n = 6) \<and>
     vals out = (if n < 5 then [] else if n < 6 then [1100] else [1100, 128])"

lemmas pm_code = promise_main_def Myfunction_def print_process_def fresh_slot_def printer_rest_def

lemma family_step: "s = st q \<Longrightarrow> ok q \<Longrightarrow> \<exists>q. ok q \<and> s = st q"
  by blast

lemma pm_main_step:
  assumes "pm_ok (n, a, b, E, out)" and "drop n promise_main = i # cs" and "s' \<in> set (exec 0 i cs (pm_st (n, a, b, E, out)))"
  shows "\<exists>q. pm_ok q \<and> s' = pm_st q"
proof -
  consider "n = 0" "a = 0" "b = 0" | "n = 1" "b = 0" | "n = 2" | "n = 3" | "n = 4" | "n = 5" | "n = 6" using assms(1) by force
  then show ?thesis
  proof cases
    case 1
    then have "s' = pm_st (1, a, b, E, out)" using assms(2,3) by (auto simp: pm_code exec_defs fun_eq_iff)
    then show ?thesis by (rule family_step) (use assms(1) 1 in auto)
  next
    case 2
    then have "s' = pm_st (2, a, b, E, out)" using assms(2,3) by (auto simp: pm_code exec_defs fun_eq_iff)
    then show ?thesis by (rule family_step) (use assms(1) 2 in auto)
  next
    case 3
    then have a: "a = 1" using assms by (auto simp: pm_code split: if_splits)
    have "s' = pm_st (3, a, b, E, out)" using 3 a assms(2,3) by (auto simp: pm_code exec_defs fun_eq_iff)
    then show ?thesis by (rule family_step) (use assms(1) 3 a in auto)
  next
    case 4
    then have "s' = pm_st (4, a, b, E, out)" using assms(2,3) by (auto simp: pm_code exec_defs fun_eq_iff)
    then show ?thesis by (rule family_step) (use assms(1) 4 in auto)
  next
    case 5
    then have "s' = pm_st (5, a, b, E, out @ [Val 1100])" using assms(2,3) by (auto simp: pm_code exec_defs fun_eq_iff)
    then show ?thesis by (rule family_step) (use assms(1) 5 in auto)
  next
    case 6
    then have e: "2 \<in> E" "1 \<le> b" using assms by (auto simp: pm_code split: if_splits)
    have "s' = pm_st (6, a, b, E, out @ [Val 128])" using 6 e assms(2,3) by (auto simp: pm_code exec_defs fun_eq_iff)
    then show ?thesis by (rule family_step) (use assms(1) 6 e in auto)
  next
    case 7
    then show ?thesis using assms(2) by (simp add: promise_main_def)
  qed
qed

lemma pm_printer_step:
  assumes "pm_ok (n, a, b, E, out)" and "2 \<le> n" and "printer_rest b = i # cs"
    and "s' \<in> set (exec 2 i cs (pm_st (n, a, b, E, out)))"
  shows "\<exists>q. pm_ok q \<and> s' = pm_st q"
proof -
  consider "b = 0" | "b = 1" | "b = 2" "4 \<le> n" | "b = 2" "n < 4" | "b = 3" using assms(1) by force
  then show ?thesis
  proof cases
    case 1
    then have "s' = pm_st (n, a, 1, E, out)" using assms by (auto simp: pm_code exec_defs fun_eq_iff)
    then show ?thesis by (rule family_step) (use assms(1,2) 1 in auto)
  next
    case 2
    then have "s' = pm_st (n, a, 2, E, out @ [Text ''*''])" using assms by (auto simp: pm_code exec_defs fun_eq_iff)
    then show ?thesis by (rule family_step) (use assms(1,2) 2 in auto)
  next
    case 3
    then have "s' = pm_st (n, a, 3, E, out @ [Text [CHR 0x0A]])" using assms by (auto simp: pm_code exec_defs fun_eq_iff)
    then show ?thesis by (rule family_step) (use assms(1,2) 3 in auto)
  next
    case 4
    then have "s' = pm_st (n, a, 1, E, out)" using assms by (auto simp: pm_code exec_defs fun_eq_iff)
    then show ?thesis by (rule family_step) (use assms(1,2) 4 in auto)
  next
    case 5
    then show ?thesis using assms(3) by (simp add: printer_rest_def)
  qed
qed

lemma pm_family_step:
  assumes ok: "pm_ok (n, a, b, E, out)" and step: "fstep (pm_st (n, a, b, E, out)) s'"
  shows "\<exists>q. pm_ok q \<and> s' = pm_st q"
  using step
proof cases
  case (call t i cs)
  then consider "t = 0" "drop n promise_main = i # cs" | "t = 1" "1 \<le> n" "drop a Myfunction = i # cs"
    | "t = 2" "2 \<le> n" "printer_rest b = i # cs" by (auto split: if_splits)
  then show ?thesis
  proof cases
    case 1
    then show ?thesis using pm_main_step[OF ok] call by simp
  next
    case 2
    then have a: "a = 0" using ok by (cases "a = 0") (auto simp: Myfunction_def)
    with 2(3) have "i = SetValue 0 1100" "cs = []" by (simp_all add: Myfunction_def)
    with call a 2 have "s' = pm_st (n, 1, b, E, out)"
      by (simp add: exec_defs fresh_slot_def fun_eq_iff Myfunction_def)
    then show ?thesis by (rule family_step) (use ok 2 a in auto)
  next
    case 3
    then show ?thesis using pm_printer_step[OF ok] call by simp
  qed
next
  case (finish t)
  then have t: "t = 0 \<and> n = 6 \<or> t = 1 \<or> t = 2 \<and> b = 3" using ok
    by (auto simp: pm_code drop_Cons' split: if_splits)
  have "s' = pm_st (n, a, b, insert t E, out)" using finish t ok
    by (auto simp: pm_code exec_defs fun_eq_iff)
  then show ?thesis by (rule family_step) (use ok t in auto)
qed

interpretation pm: state_family "fstart promise_main [0, 1]" fstep pm_st pm_ok
proof
  fix s assume "fstart promise_main [0, 1] s"
  then have "s = pm_st (0, 0, 0, {}, [])" by (auto simp: fstart_def fun_eq_iff)
  then show "\<exists>p. pm_ok p \<and> s = pm_st p" by (rule family_step) auto
next
  show "pm_ok p \<Longrightarrow> fstep (pm_st p) t \<Longrightarrow> \<exists>q. pm_ok q \<and> t = pm_st q" for p t
    by (cases p) (blast intro: pm_family_step)
qed

lemma can_call:
  assumes "threw s = None" and "0 \<notin> ended s" and "thr s t = Some (i # cs)" and "exec t i cs s \<noteq> []"
  shows "\<exists>s'. fstep s s'"
  using fstep.call[OF assms(1-3)] assms(4) by (cases "exec t i cs s") auto

lemma can_end:
  assumes "threw s = None" and "0 \<notin> ended s" and "thr s t = Some []" and "t \<notin> ended s"
  shows "\<exists>s'. fstep s s'"
  using fstep.finish[OF assms] by blast

lemma exec_not_blocked:
  "exec t (SetAtExit k v) cs s \<noteq> []" "exec t Star cs s \<noteq> []" "exec t CheckFlag cs s \<noteq> []"
  by (simp_all only: exec.simps append_Nil list.distinct not_False_eq_True)

lemma pm_printer_progress:
  assumes "b < 3" and "2 \<le> n" and "0 \<notin> E"
  shows "\<exists>s'. fstep (pm_st (n, a, b, E, out)) s'"
proof -
  consider (a) "printer_rest b = SetAtExit 1 128 # [Star]" | (b) "printer_rest b = Star # []" | (c) "printer_rest b = CheckFlag # []"
    using assms(1) by (cases "b = 0"; cases "b = 1") (auto simp: printer_rest_def print_process_def)
  then show ?thesis
  proof cases
    case a
    then show ?thesis using assms(2,3) by (intro can_call[OF _ _ _ exec_not_blocked(1), of _ 2]) auto
  next
    case b
    then show ?thesis using assms(2,3) by (intro can_call[OF _ _ _ exec_not_blocked(2), of _ 2]) auto
  next
    case c
    then show ?thesis using assms(2,3) by (intro can_call[OF _ _ _ exec_not_blocked(3), of _ 2]) auto
  qed
qed

lemma pm_main_progress:
  assumes "n \<in> {0, 1, 3, 4} \<or> n = 2 \<and> a = 1 \<or> n = 5 \<and> 2 \<in> E \<and> b = 3" and "0 \<notin> E"
  shows "\<exists>s'. fstep (pm_st (n, a, b, E, out)) s'"
proof -
  have "\<exists>i cs. drop n promise_main = i # cs \<and> exec 0 i cs (pm_st (n, a, b, E, out)) \<noteq> []"
    using assms(1) by (elim disjE insertE) (auto simp: promise_main_def)
  then obtain i cs where i: "drop n promise_main = i # cs" "exec 0 i cs (pm_st (n, a, b, E, out)) \<noteq> []" by blast
  show ?thesis by (rule can_call[OF _ _ _ i(2)]) (use assms(2) i(1) in simp_all)
qed

lemma pm_progress:
  assumes ok: "pm_ok (n, a, b, E, out)" and "0 \<notin> E"
  shows "\<exists>s'. fstep (pm_st (n, a, b, E, out)) s'"
proof -
  have bounds: "n \<le> 6" "a = 0 \<or> a = 1" "b < 3 \<or> b = 3" "2 \<in> E \<longrightarrow> b = 3" using ok by auto
  then consider "n \<in> {0, 1, 3, 4}" | "n = 2" "a = 1" | "n = 2" "a = 0" | "n = 5" "2 \<in> E" "b = 3" | "n = 5" "2 \<notin> E" "b < 3"
    | "n = 5" "2 \<notin> E" "b = 3" | "n = 6" by force
  then show ?thesis
  proof cases
    case 3
    then show ?thesis using assms(2) by (intro can_call[where t = 1]) (auto simp: Myfunction_def)
  next
    case 5
    then show ?thesis using assms(2) by (intro pm_printer_progress) auto
  next
    case 6
    then show ?thesis using assms(2) by (intro can_end[where t = 2]) (auto simp: printer_rest_def)
  next
    case 7
    then show ?thesis using assms(2) by (intro can_end[where t = 0]) (auto simp: promise_main_def)
  next
    case 1
    then show ?thesis using assms(2) by (intro pm_main_progress) blast+
  next
    case 2
    then show ?thesis using assms(2) by (intro pm_main_progress) blast+
  next
    case 4
    then show ?thesis using assms(2) by (intro pm_main_progress) blast+
  qed
qed

subsection \<open>\<open>shared_future.cpp\<close>\<close>

fun sf_st :: "nat \<times> nat \<times> bool \<times> bool \<times> line list \<Rightarrow> fstate" where
  "sf_st (n, a, e, x, out) = \<lparr>
     slots = (\<lambda>k. if k = 0 \<and> a = 1 then \<lparr>stored = Some 12, is_ready = e, exit_of = Some 1\<rparr> else fresh_slot),
     valid = (if n < 3 then {0} else {}), shared = (if n < 3 then {} else {0}), end_flag = False, res_value = 0,
     thr = (\<lambda>t. if t = 0 then Some (drop n shared_future_main)
       else if t = 1 \<and> 1 \<le> n then Some (drop a [SetAtExit 0 12]) else None),
     ended = (if e then {1} else {}), fout = out, threw = (if x then Some NoState else None)\<rparr>"

fun sf_ok :: "nat \<times> nat \<times> bool \<times> bool \<times> line list \<Rightarrow> bool" where
  "sf_ok (n, a, e, x, out) \<longleftrightarrow> n \<le> 3 \<and> a \<le> 1 \<and> (n = 0 \<longrightarrow> a = 0) \<and> (e \<longrightarrow> a = 1) \<and> (x \<longrightarrow> n = 3) \<and>
     out = (if n < 2 then [] else [Flag True])"

lemma sf_family_step:
  assumes ok: "sf_ok (n, a, e, x, out)" and step: "fstep (sf_st (n, a, e, x, out)) s'"
  shows "\<exists>q. sf_ok q \<and> s' = sf_st q"
  using step
proof cases
  case (call t i cs)
  then have x: "\<not> x" by (auto split: if_splits)
  from call consider "t = 0" "drop n shared_future_main = i # cs" | "t = 1" "1 \<le> n" "drop a [SetAtExit 0 12] = i # cs"
    by (auto split: if_splits)
  then show ?thesis
  proof cases
    case 1
    consider "n = 0" "a = 0" | "n = 1" | "n = 2" | "n = 3" using ok by force
    then show ?thesis
    proof cases
      case m: 1
      then have "s' = sf_st (1, a, e, x, out)" using 1 call x
        by (auto simp: shared_future_main_def exec_defs fun_eq_iff)
      then show ?thesis by (rule family_step) (use ok x m in auto)
    next
      case m: 2
      then have "s' = sf_st (2, a, e, x, out @ [Flag True])" using 1 call x
        by (auto simp: shared_future_main_def exec_defs fun_eq_iff)
      then show ?thesis by (rule family_step) (use ok x m in auto)
    next
      case m: 3
      then have "s' = sf_st (3, a, e, x, out)" using 1 call x
        by (auto simp: shared_future_main_def exec_defs fun_eq_iff)
      then show ?thesis by (rule family_step) (use ok x m in auto)
    next
      case m: 4
      then have "s' = sf_st (3, a, e, True, out)" using 1 call x
        by (auto simp: shared_future_main_def exec_defs fun_eq_iff)
      then show ?thesis by (rule family_step) (use ok x m in auto)
    qed
  next
    case 2
    then have a: "a = 0" by (cases "a = 0") (auto simp: drop_Cons')
    then have "s' = sf_st (n, 1, e, x, out)" using 2 call ok
      by (auto simp: exec_defs fun_eq_iff fresh_slot_def split: if_splits)
    then show ?thesis by (rule family_step) (use ok 2 in auto)
  qed
next
  case (finish t)
  then have t: "t = 1" "a = 1" "1 \<le> n" "\<not> x" using ok
    by (auto simp: shared_future_main_def drop_Cons' split: if_splits)
  then have "s' = sf_st (n, 1, True, x, out)" using finish ok by (auto simp: exec_defs fun_eq_iff fresh_slot_def)
  then show ?thesis by (rule family_step) (use ok t in auto)
qed

interpretation sf: state_family "fstart shared_future_main [0]" fstep sf_st sf_ok
proof
  fix s assume "fstart shared_future_main [0] s"
  then have "s = sf_st (0, 0, False, False, [])" by (auto simp: fstart_def fun_eq_iff)
  then show "\<exists>p. sf_ok p \<and> s = sf_st p" by (rule family_step) auto
next
  show "sf_ok p \<Longrightarrow> fstep (sf_st p) t \<Longrightarrow> \<exists>q. sf_ok q \<and> t = sf_st q" for p t
    by (cases p) (blast intro: sf_family_step)
qed

lemma sf_progress:
  assumes ok: "sf_ok (n, a, e, x, out)" and "\<not> x"
  shows "\<exists>s'. fstep (sf_st (n, a, e, x, out)) s'"
proof -
  consider "n = 0" | "n = 1" | "n = 2" | "n = 3" using ok by force
  then show ?thesis
  proof cases
    case 1
    then show ?thesis using assms(2) by (intro can_call[where t = 0]) (auto simp: shared_future_main_def)
  next
    case 2
    then show ?thesis using assms(2) by (intro can_call[where t = 0]) (auto simp: shared_future_main_def)
  next
    case 3
    then show ?thesis using assms(2) by (intro can_call[where t = 0]) (auto simp: shared_future_main_def)
  next
    case 4
    then show ?thesis using assms(2) by (intro can_call[where t = 0]) (auto simp: shared_future_main_def)
  qed
qed

subsection \<open>Properties\<close>

text \<open>
  \<open>promise.cpp\<close> completes under every interleaving: a run that can go no further has returned from
  \<open>main\<close> without an exception, with the values 1100 and 12.8 printed in this order, each
  once; until then some thread can always go on, the printing thread until it sees
  \<open>end_flag\<close>.
\<close>

theorem promise_completes:
  assumes "reach (fstart promise_main [0, 1]) fstep s" and "\<forall>s'. \<not> fstep s s'"
  shows "0 \<in> ended s \<and> threw s = None \<and> vals (fout s) = [1100, 128]"
proof -
  obtain n a b E out where p: "pm_ok (n, a, b, E, out)" "s = pm_st (n, a, b, E, out)"
    using pm.reach_holds[OF assms(1)] by (metis prod_cases5)
  with assms(2) pm_progress[OF p(1)] have "0 \<in> E" by blast
  with p show ?thesis by auto
qed

text \<open>A run of \<open>promise.cpp\<close>: the value is set, then fetched, the flag set, and the printer stops.\<close>

lemma promise_run: "\<exists>s. run [0, 0, 1, 0, 0, 0, 2, 2, 2, 2, 0, 0] (fbegin promise_main [0, 1]) = Some s \<and> 0 \<in> ended s"
  by (simp add: fbegin_def pm_code exec_defs)

theorem promise_completes_witness:
  "\<exists>s. reach (fstart promise_main [0, 1]) fstep s \<and> vals (fout s) = [1100, 128]"
  using promise_run promise_completes main_ended run_from_start by blast

text \<open>
  \<open>set_value.cpp\<close> and \<open>wait_fororuntil.cpp\<close> never end: each sets a promise in \<open>main\<close> for the exit
  of the thread that runs it, which is \<open>main\<close> itself, and then waits for that promise before it
  returns. The shared state is never ready, and what waits for it is still ahead of \<open>main\<close>.
\<close>

theorem own_exit_hangs:
  assumes "c = set_value_main \<or> c = wait_main" and "reach (fstart c [0, 1, 2]) fstep s"
  shows "0 \<notin> ended s \<and> \<not> is_ready (slots s 1) \<and> (\<exists>cs. thr s 0 = Some cs \<and> (\<exists>i \<in> set cs. needs 1 i))"
proof -
  have "\<forall>i \<in> set set_value_main. quiet 1 True i" "\<exists>i \<in> set set_value_main. needs 1 i"
    by (simp_all add: set_value_main_def needs_def)
  moreover have "\<forall>i \<in> set wait_main. quiet 1 True i" "\<exists>i \<in> set wait_main. needs 1 i"
    by (simp_all add: wait_main_def wait_function_def needs_def)
  ultimately have "\<forall>i \<in> set c. quiet 1 True i" "\<exists>i \<in> set c. needs 1 i" using assms(1) by metis+
  with assms(2) have "own_exit_inv 1 s" by (rule own_exit_waits)
  then show ?thesis by (simp add: own_exit_inv_def)
qed

theorem own_exit_hangs_witness:
  "\<exists>s. reach (fstart wait_main [0, 1, 2]) fstep s \<and> 0 \<notin> ended s"
proof -
  obtain s where s: "fstart wait_main [0, 1, 2] s" by (simp add: fstart_def)
  then have "reach (fstart wait_main [0, 1, 2]) fstep s" by (rule reach_ini)
  with own_exit_hangs[OF _ this] show ?thesis by blast
qed

text \<open>
  \<open>package_task.cpp\<close>, \<open>atomic_bool.cpp\<close> and \<open>async.cpp\<close> print the results of their tasks in the order
  of the calls of \<open>get\<close>, under every interleaving: at every moment the values printed are a
  beginning of this list, and all of it once \<open>main\<close> has returned.
\<close>

theorem future_values:
  assumes "reach (fstart c ks) fstep s"
    and "(c, vs) \<in> {(package_task_main, [5, 22]), (atomic_bool_main, [1, 2]), (async_main, [169168])}"
  shows "(\<exists>rest. vals (fout s) @ rest = vs) \<and> (0 \<in> ended s \<longrightarrow> vals (fout s) = vs)"
proof -
  define env :: "nat \<Rightarrow> int" where
    "env = (\<lambda>k. if c = package_task_main then (if k = 0 then 5 else 22) else if c = atomic_bool_main then (if k = 0 then 1 else 2) else 169168)"
  have ne: "package_task_main \<noteq> atomic_bool_main" "async_main \<noteq> package_task_main" "async_main \<noteq> atomic_bool_main"
    by (simp_all add: package_task_main_def atomic_bool_main_def async_main_def)
  have "\<forall>i \<in> set c. determined env True i" "map env (gets c) = vs"
    using assms(2) ne unfolding env_def
    by (auto simp: package_task_main_def[symmetric]) (auto simp: package_task_main_def atomic_bool_main_def flag_func_def async_main_def)
  then have "printed_inv env c s" "map env (gets c) = vs" using printed_values[OF assms(1)] by simp_all
  then show ?thesis by (auto simp: printed_inv_def prints_def)
qed

text \<open>A run of \<open>package_task.cpp\<close>.\<close>

lemma package_task_run: "\<exists>s. run [0, 0, 0, 0, 0, 1, 1, 0, 0, 0, 0] (fbegin package_task_main [0]) = Some s \<and> 0 \<in> ended s"
  by (simp add: fbegin_def package_task_main_def fresh_slot_def exec_defs)

theorem future_values_witness:
  "\<exists>s. reach (fstart package_task_main [0]) fstep s \<and> vals (fout s) = [5, 22]"
proof -
  obtain s where "reach (fstart package_task_main [0]) fstep s" "0 \<in> ended s"
    using package_task_run run_from_start by blast
  with future_values[of package_task_main "[0]" s "[5, 22]"] show ?thesis by blast
qed

text \<open>\<open>shared_future.cpp\<close> always ends with the exception of \<open>get\<close> on the future that was given up by \<open>share\<close>.\<close>

lemma shared_future_throws:
  assumes "reach (fstart shared_future_main [0]) fstep s" and "\<forall>s'. \<not> fstep s s'"
  shows "threw s = Some NoState \<and> fout s = [Flag True]"
proof -
  obtain n a e x out where p: "sf_ok (n, a, e, x, out)" "s = sf_st (n, a, e, x, out)"
    using sf.reach_holds[OF assms(1)] by (metis prod_cases5)
  with assms(2) sf_progress[OF p(1)] have "x" by blast
  with p show ?thesis by auto
qed

end
