(* ===== verification/Cond_Turns.thy ===== *)
theory Cond_Turns
  imports Sync Posix_IO
begin

text \<open>
  Three small programs around a \<open>std::condition_variable\<close>:
  \<open>code/concurrent/alternate_print_nt.cpp\<close> (threads that print in turn),
  \<open>code/concurrent/consume.cpp\<close> (a task handed to a thread through a queue) and
  \<open>code/concurrent/notify.cpp\<close> (threads that wait for a start signal). A passage of a thread
  between two points where it holds no mutex is one step.
\<close>

subsection \<open>\<open>alternate_print_nt.cpp\<close>\<close>

text \<open>
  \<open>turn_pc\<close> is where a thread is: at the test of its loop, in \<open>cv.wait\<close>, or returned.
  The predicate of \<open>cv.wait\<close> is checked whenever \<open>num\<close> has changed, since every change is
  followed by \<open>notify_all\<close>.
\<close>

datatype turn_pc = AtLoop | InWait | Returned

record turns =
  num :: nat
  tpc :: "nat \<Rightarrow> turn_pc"
  printed :: "(nat \<times> nat) list"

inductive print_step :: "nat \<Rightarrow> turns \<Rightarrow> turns \<Rightarrow> bool" for max_p :: nat where
  loop_in: "k < max_p \<Longrightarrow> tpc s k = AtLoop \<Longrightarrow> num s \<le> 100 \<Longrightarrow> print_step max_p s (s\<lparr>tpc := (tpc s)(k := InWait)\<rparr>)"
| loop_out: "k < max_p \<Longrightarrow> tpc s k = AtLoop \<Longrightarrow> \<not> num s \<le> 100 \<Longrightarrow> print_step max_p s (s\<lparr>tpc := (tpc s)(k := Returned)\<rparr>)"
| print_num: "k < max_p \<Longrightarrow> tpc s k = InWait \<Longrightarrow> num s mod max_p = k \<Longrightarrow>
     print_step max_p s (s\<lparr>printed := printed s @ [(k, num s)], num := num s + 1, tpc := (tpc s)(k := AtLoop)\<rparr>)"

definition print_main :: "turns \<Rightarrow> bool" where
  "print_main s \<longleftrightarrow> s = \<lparr>num = 0, tpc = (\<lambda>_. AtLoop), printed = []\<rparr>"

inductive_cases print_stepE: "print_step p s t"

definition in_wait :: "turn_pc \<Rightarrow> nat" where "in_wait c = (if c = InWait then 1 else 0)"
definition turn_weight :: "turn_pc \<Rightarrow> nat" where "turn_weight c = (case c of AtLoop \<Rightarrow> 2 | InWait \<Rightarrow> 1 | Returned \<Rightarrow> 0)"

definition turns_inv :: "nat \<Rightarrow> turns \<Rightarrow> bool" where
  "turns_inv p s \<longleftrightarrow> printed s = map (\<lambda>n. (n mod p, n)) [0..<num s] \<and>
     (num s \<le> 100 \<or> num s + (\<Sum>i<p. in_wait (tpc s i)) \<le> 100 + p) \<and>
     (num s \<le> 100 \<longrightarrow> (\<forall>i<p. tpc s i \<noteq> Returned))"

definition turns_rank :: "nat \<Rightarrow> turns \<Rightarrow> nat" where
  "turns_rank p s = 3 * (101 + p - num s) + (\<Sum>i<p. turn_weight (tpc s i))"

lemma turns_sum:
  assumes "k < p"
  shows "(\<Sum>i<p. (f :: turn_pc \<Rightarrow> nat) (((tpc s)(k := c)) i)) + f (tpc s k) = (\<Sum>i<p. f (tpc s i)) + f c"
  using sum_moved[OF assms, of "\<lambda>i. f (((tpc s)(k := c)) i)" "\<lambda>i. f (tpc s i)"] by simp

lemma turns_inv_step:
  assumes inv: "turns_inv p s" and step: "print_step p s t"
  shows "turns_inv p t"
  using step
proof cases
  case (loop_in k)
  with inv show ?thesis by (auto simp: turns_inv_def)
next
  case (loop_out k)
  with inv turns_sum[of k p in_wait s Returned] show ?thesis by (auto simp: turns_inv_def in_wait_def)
next
  case (print_num k)
  have m: "(\<Sum>i<p. in_wait (((tpc s)(k := AtLoop)) i)) + 1 = (\<Sum>i<p. in_wait (tpc s i))"
    using turns_sum[of k p in_wait s AtLoop] print_num by (simp add: in_wait_def)
  have "(\<Sum>i<p. in_wait (tpc s i)) \<le> (\<Sum>i<p. 1)" by (rule sum_mono) (simp add: in_wait_def)
  with m print_num inv show ?thesis by (cases "num s \<le> 99") (auto simp: turns_inv_def)
qed

lemma turns_rank_step:
  assumes inv: "turns_inv p s" and step: "print_step p s t"
  shows "turns_rank p t < turns_rank p s"
  using step
proof cases
  case (loop_in k)
  with turns_sum[of k p turn_weight s InWait] show ?thesis by (simp add: turns_rank_def turn_weight_def)
next
  case (loop_out k)
  with turns_sum[of k p turn_weight s Returned] show ?thesis by (simp add: turns_rank_def turn_weight_def)
next
  case (print_num k)
  have "in_wait (tpc s k) \<le> (\<Sum>i<p. in_wait (tpc s i))" using print_num by (intro member_le_sum) auto
  then have "num s < 101 + p" using inv print_num by (auto simp: turns_inv_def in_wait_def)
  with print_num turns_sum[of k p turn_weight s AtLoop] show ?thesis by (simp add: turns_rank_def turn_weight_def)
qed

text \<open>While a number up to 100 is missing, the thread whose turn it is can go on.\<close>

lemma turns_progress:
  assumes "0 < p" and inv: "turns_inv p s" and "num s \<le> 100"
  shows "\<exists>t. print_step p s t"
proof -
  let ?i = "num s mod p"
  have i: "?i < p" using assms(1) by simp
  with inv assms(3) have "tpc s ?i \<noteq> Returned" by (simp add: turns_inv_def)
  then consider "tpc s ?i = AtLoop" | "tpc s ?i = InWait" by (cases "tpc s ?i") auto
  then show ?thesis using i assms(3) by cases (blast intro: print_step.intros)+
qed

interpretation turns: ranked_system print_main "print_step p" "turns_inv p" "turns_rank p" for p
proof
  show "print_main s \<Longrightarrow> turns_inv p s" for s by (simp add: print_main_def turns_inv_def)
  show "turns_inv p s \<Longrightarrow> print_step p s t \<Longrightarrow> turns_inv p t" for s t by (rule turns_inv_step)
  show "turns_inv p s \<Longrightarrow> print_step p s t \<Longrightarrow> turns_rank p t < turns_rank p s" for s t by (rule turns_rank_step)
qed

text \<open>
  With three threads the program can hang at its end: thread 2 prints 98 and tests the loop
  only after 100 is printed, so it returns while thread 0 waits for the turn after the next.
\<close>

definition all_wait :: "nat \<Rightarrow> turns" where
  "all_wait n = \<lparr>num = n, tpc = (\<lambda>i. if i < 3 then InWait else AtLoop), printed = map (\<lambda>n. (n mod 3, n)) [0..<n]\<rparr>"

lemma all_wait_sel: "num (all_wait n) = n" "tpc (all_wait n) = (\<lambda>i. if i < 3 then InWait else AtLoop)"
  by (simp_all add: all_wait_def)

lemma reach_loop_in:
  "reach ini (print_step p) s \<Longrightarrow> k < p \<Longrightarrow> tpc s k = AtLoop \<Longrightarrow> num s \<le> 100 \<Longrightarrow>
     reach ini (print_step p) (s\<lparr>tpc := (tpc s)(k := InWait)\<rparr>)"
  by (blast intro: reach_nxt loop_in)

lemma reach_loop_out:
  "reach ini (print_step p) s \<Longrightarrow> k < p \<Longrightarrow> tpc s k = AtLoop \<Longrightarrow> 100 < num s \<Longrightarrow>
     reach ini (print_step p) (s\<lparr>tpc := (tpc s)(k := Returned)\<rparr>)"
  by (rule reach_nxt, assumption, rule loop_out) auto

lemma reach_print_num:
  "reach ini (print_step p) s \<Longrightarrow> k < p \<Longrightarrow> tpc s k = InWait \<Longrightarrow> num s mod p = k \<Longrightarrow>
     reach ini (print_step p) (s\<lparr>printed := printed s @ [(k, num s)], num := num s + 1, tpc := (tpc s)(k := AtLoop)\<rparr>)"
  by (blast intro: reach_nxt print_num)

lemma reach_all_wait: "n \<le> 100 \<Longrightarrow> reach print_main (print_step 3) (all_wait n)"
proof (induction n)
  case 0
  define s where "s = \<lparr>num = 0, tpc = (\<lambda>_. AtLoop), printed = []\<rparr>"
  have "reach print_main (print_step 3) s" by (rule reach_ini) (simp add: print_main_def s_def)
  note 1 = reach_loop_in[OF this, of 0]
  note 2 = reach_loop_in[OF 1, of 1]
  note 3 = reach_loop_in[OF 2, of 2]
  have "tpc (s\<lparr>tpc := (tpc s)(0 := InWait, 1 := InWait, 2 := InWait)\<rparr>) = tpc (all_wait 0)"
    by (auto simp: s_def all_wait_def fun_eq_iff)
  with 3 show ?case by (simp add: s_def all_wait_def)
next
  case (Suc n)
  let ?k = "n mod 3"
  have a: "reach print_main (print_step 3) (all_wait n)" using Suc by simp
  note b = reach_print_num[OF a, of ?k]
  note c = reach_loop_in[OF b, of ?k]
  have "(\<lambda>i. if i < 3 then InWait else AtLoop)(?k := InWait) = (\<lambda>i::nat. if i < 3 then InWait else AtLoop)"
    by (simp add: fun_eq_iff)
  with c Suc.prems show ?case by (simp add: all_wait_def)
qed

lemma alternate_nt_hangs:
  "\<exists>s. reach print_main (print_step 3) s \<and> (\<forall>t. \<not> print_step 3 s t) \<and> tpc s 0 = InWait"
proof -
  note a = reach_print_num[OF reach_all_wait[of 98], of 2]
  note b = reach_print_num[OF a, of 0]
  note c = reach_loop_in[OF b, of 0]
  note d = reach_print_num[OF c, of 1]
  note e = reach_loop_out[OF d, of 1]
  note f = reach_loop_out[OF e, of 2]
  define s where "s = (all_wait 98)\<lparr>printed := printed (all_wait 98) @ [(2, 98), (0, 99), (1, 100)], num := 101,
    tpc := (\<lambda>i. if i < 3 then InWait else AtLoop)
      (2 := AtLoop, 0 := AtLoop, 0 := InWait, 1 := AtLoop, 1 := Returned, 2 := Returned)\<rparr>"
  have "reach print_main (print_step 3) s" using f by (simp add: all_wait_sel s_def)
  moreover have sel: "num s = 101" "tpc s 0 = InWait" "tpc s 1 = Returned" "tpc s 2 = Returned" by (simp_all add: s_def)
  moreover have "\<not> print_step 3 s t" for t
  proof
    have pos: "k = 0 \<and> tpc s k = InWait \<or> tpc s k = Returned" if k: "k < 3" for k
    proof -
      have "k = 0 \<or> k = 1 \<or> k = 2" using k by linarith
      then consider "k = 0" | "k = 1" | "k = 2" by blast
      then show ?thesis using sel by cases simp_all
    qed
    assume "print_step 3 s t"
    then show False
    proof cases
      case (print_num k)
      moreover have "num s mod 3 = 2" using sel(1) by simp
      ultimately show False using sel(4) by simp
    qed (use pos in force)+
  qed
  ultimately show ?thesis by blast
qed

subsection \<open>\<open>consume.cpp\<close>\<close>

text \<open>
  \<open>factorial\<close> on 32-bit \<open>int\<close>: a product out of range is a signed overflow; for arguments
  below 1 the recursion has no end (\<open>None\<close>).
\<close>

definition int_max :: int where "int_max = 2 ^ 31 - 1"

partial_function (option) factorial :: "int \<Rightarrow> (c_error + int) option" where
  "factorial x =
     (if x = 1 then Some (Inr x)
      else Option.bind (factorial (x - 1)) (\<lambda>r. Some (case r of
        Inl e \<Rightarrow> Inl e
      | Inr v \<Rightarrow> if \<bar>x * v\<bar> \<le> int_max then Inr (x * v) else Inl SignedOverflow)))"

lemmas [code] = factorial.simps

datatype taker_pc = Checking | Asleep | Running int | Finished

text \<open>
  \<open>mpc\<close> counts what \<open>main\<close> has done after starting the thread: 0 nothing, 1 pushed, 2 notified,
  3 joined, 4 printed.
\<close>

record consume =
  task_q :: "int list"
  taker :: taker_pc
  mpc :: nat
  result :: "(c_error + int) option"
  shown :: "int list"

inductive consume_step :: "consume \<Rightarrow> consume \<Rightarrow> bool" where
  thread_wait: "taker s = Checking \<Longrightarrow> task_q s = [] \<Longrightarrow> consume_step s (s\<lparr>taker := Asleep\<rparr>)"
| thread_take: "taker s = Checking \<Longrightarrow> task_q s = x # q \<Longrightarrow> consume_step s (s\<lparr>taker := Running x, task_q := q\<rparr>)"
| thread_run: "taker s = Running x \<Longrightarrow> factorial x = Some r \<Longrightarrow> consume_step s (s\<lparr>taker := Finished, result := Some r\<rparr>)"
| main_push: "mpc s = 0 \<Longrightarrow> consume_step s (s\<lparr>task_q := task_q s @ [6], mpc := 1\<rparr>)"
| main_notify: "mpc s = 1 \<Longrightarrow>
     consume_step s (s\<lparr>taker := (if taker s = Asleep then Checking else taker s), mpc := 2\<rparr>)"
| main_join: "mpc s = 2 \<Longrightarrow> taker s = Finished \<Longrightarrow> consume_step s (s\<lparr>mpc := 3\<rparr>)"
| main_get: "mpc s = 3 \<Longrightarrow> result s = Some (Inr v) \<Longrightarrow> consume_step s (s\<lparr>shown := shown s @ [v], mpc := 4\<rparr>)"

inductive_cases consume_stepE: "consume_step s t"

definition consume_main :: "consume \<Rightarrow> bool" where
  "consume_main s \<longleftrightarrow> s = \<lparr>task_q = [], taker = Checking, mpc = 0, result = None, shown = []\<rparr>"

lemma factorial_small:
  "1 \<le> n \<Longrightarrow> n \<le> 12 \<Longrightarrow> factorial (int n) = Some (Inr (int (fact n)))"
proof (induction n rule: nat_induct_at_least)
  case base
  then show ?case by (subst factorial.simps) simp
next
  case (Suc n)
  have "(fact (Suc n) :: nat) \<le> fact 12" using Suc.prems by (rule fact_mono_nat)
  then have "int (fact (Suc n)) \<le> int (fact 12)" by (rule of_nat_mono)
  also have "\<dots> \<le> int_max" by (simp add: int_max_def fact_numeral)
  finally have le: "int (fact (Suc n)) \<le> int_max" .
  have "\<bar>int (Suc n) * int (fact n)\<bar> = int (fact (Suc n))" "int (Suc n) * int (fact n) = int (fact (Suc n))"
    by (simp_all only: fact_Suc of_nat_mult abs_of_nat abs_mult of_nat_id)
  with le Suc show ?case by (subst factorial.simps) simp
qed

lemma factorial_big:
  assumes "13 \<le> n"
  shows "factorial (int n) = Some (Inl SignedOverflow)"
  using assms
proof (induction n rule: nat_induct_at_least)
  case base
  have "factorial 12 = Some (Inr (fact 12))" using factorial_small[of 12] by (simp add: fact_numeral)
  then show ?case by (subst factorial.simps) (simp add: int_max_def fact_numeral)
next
  case (Suc n)
  then show ?case by (subst factorial.simps) simp
qed

lemma factorial_positive: "factorial x = Some r \<Longrightarrow> 1 \<le> x"
  by (erule factorial.raw_induct[rotated]) (auto split: if_splits Option.bind_splits, fastforce)

definition consume_inv :: "consume \<Rightarrow> bool" where
  "consume_inv s \<longleftrightarrow> mpc s \<le> 4 \<and>
     task_q s = (if 1 \<le> mpc s \<and> taker s \<in> {Checking, Asleep} then [6] else []) \<and>
     (mpc s = 0 \<longrightarrow> taker s \<in> {Checking, Asleep}) \<and> (2 \<le> mpc s \<longrightarrow> taker s \<noteq> Asleep) \<and>
     (\<forall>x. taker s = Running x \<longrightarrow> x = 6) \<and> (3 \<le> mpc s \<longrightarrow> taker s = Finished) \<and>
     (taker s = Finished \<longrightarrow> result s = Some (Inr 720)) \<and> shown s = (if mpc s = 4 then [720] else [])"

definition taker_weight :: "taker_pc \<Rightarrow> nat" where
  "taker_weight c = (case c of Checking \<Rightarrow> 3 | Asleep \<Rightarrow> 2 | Running x \<Rightarrow> 1 | Finished \<Rightarrow> 0)"

definition consume_rank :: "consume \<Rightarrow> nat" where
  "consume_rank s = 4 * (4 - mpc s) + taker_weight (taker s)"

lemma factorial_6: "factorial 6 = Some (Inr 720)"
  using factorial_small[of 6] by (simp add: fact_numeral)

lemma consume_inv_step: "consume_inv s \<Longrightarrow> consume_step s t \<Longrightarrow> consume_inv t"
  by (erule consume_stepE) (auto simp: consume_inv_def factorial_6 split: if_splits)

lemma consume_rank_step: "consume_inv s \<Longrightarrow> consume_step s t \<Longrightarrow> consume_rank t < consume_rank s"
  by (erule consume_stepE) (auto simp: consume_inv_def consume_rank_def taker_weight_def split: taker_pc.splits)

lemma consume_progress:
  assumes inv: "consume_inv s" and "mpc s \<noteq> 4"
  shows "\<exists>t. consume_step s t"
proof -
  have "mpc s = 0 \<or> mpc s = 1 \<or> mpc s = 2 \<or> mpc s = 3" using assms by (auto simp: consume_inv_def)
  then consider "mpc s = 0" | "mpc s = 1" | "mpc s = 2" "taker s = Checking" | x where "mpc s = 2" "taker s = Running x" "x = 6"
    | "mpc s = 2" "taker s = Finished" | "mpc s = 3"
    using inv by (cases "taker s") (auto simp: consume_inv_def)
  then show ?thesis
  proof cases
    case 3
    with inv show ?thesis by (auto simp: consume_inv_def intro: thread_take)
  next
    case 4
    with factorial_6 show ?thesis by (blast intro: thread_run)
  next
    case 6
    with inv show ?thesis by (auto simp: consume_inv_def intro: main_get)
  qed (blast intro: main_push main_notify main_join)+
qed

interpretation consume: terminating_system consume_main consume_step consume_inv consume_rank "\<lambda>s. mpc s = 4"
proof
  show "consume_main s \<Longrightarrow> consume_inv s" for s by (simp add: consume_main_def consume_inv_def)
qed (use consume_inv_step consume_rank_step consume_progress in blast)+

subsection \<open>\<open>notify.cpp\<close>\<close>

datatype gate_pc = Entering | Sleeping | Woken | Printed

record gate =
  ready :: bool
  gpc :: "nat \<Rightarrow> gate_pc"
  gone :: bool
  joined :: bool
  gout :: "nat list"

definition gate_threads :: nat where "gate_threads = 10"

inductive gate_step :: "gate \<Rightarrow> gate \<Rightarrow> bool" where
  gate_wait: "k < gate_threads \<Longrightarrow> gpc s k \<in> {Entering, Woken} \<Longrightarrow> \<not> ready s \<Longrightarrow>
     gate_step s (s\<lparr>gpc := (gpc s)(k := Sleeping)\<rparr>)"
| gate_print: "k < gate_threads \<Longrightarrow> gpc s k \<in> {Entering, Woken} \<Longrightarrow> ready s \<Longrightarrow>
     gate_step s (s\<lparr>gpc := (gpc s)(k := Printed), gout := gout s @ [k]\<rparr>)"
| go_wakes: "\<not> gone s \<Longrightarrow> k < gate_threads \<Longrightarrow> gpc s k = Sleeping \<Longrightarrow>
     gate_step s (s\<lparr>ready := True, gone := True, gpc := (gpc s)(k := Woken)\<rparr>)"
| go_alone: "\<not> gone s \<Longrightarrow> \<forall>k<gate_threads. gpc s k \<noteq> Sleeping \<Longrightarrow> gate_step s (s\<lparr>ready := True, gone := True\<rparr>)"
| gate_join: "gone s \<Longrightarrow> \<forall>k<gate_threads. gpc s k = Printed \<Longrightarrow> gate_step s (s\<lparr>joined := True\<rparr>)"

inductive_cases gate_stepE: "gate_step s t"

definition gate_main :: "gate \<Rightarrow> bool" where
  "gate_main s \<longleftrightarrow> s = \<lparr>ready = False, gpc = (\<lambda>_. Entering), gone = False, joined = False, gout = []\<rparr>"

definition stranded :: "nat \<Rightarrow> gate \<Rightarrow> bool" where
  "stranded k s \<longleftrightarrow> gone s \<and> k < gate_threads \<and> gpc s k = Sleeping \<and> \<not> joined s"

lemma stranded_step: "stranded k s \<Longrightarrow> gate_step s t \<Longrightarrow> stranded k t"
  by (erule gate_stepE) (auto simp: stranded_def)

interpretation stranded: inductive_invariant "stranded k" gate_step "stranded k" for k
  by unfold_locales (auto intro: stranded_step)

subsection \<open>Properties\<close>

text \<open>
  \<open>alternate_print_nt.cpp\<close> with \<open>max_p > 0\<close> threads prints the numbers from 0 upward, each once, in order
  and by the thread whose turn it is; every run ends, at the end all numbers up to 100 are
  printed, and at most \<open>max_p - 1\<close> beyond 100 (the loop test is made before the turn comes).
\<close>

theorem alternate_nt_complete:
  assumes "0 < max_p" and "reach print_main (print_step max_p) s" and "\<forall>t. \<not> print_step max_p s t"
  shows "101 \<le> num s \<and> num s \<le> 100 + max_p \<and> printed s = map (\<lambda>n. (n mod max_p, n)) [0..<num s]"
proof -
  have inv: "turns_inv max_p s" using assms(2) by (rule turns.reach_holds)
  have "\<not> num s \<le> 100" using turns_progress[OF assms(1) inv] assms(3) by blast
  with inv show ?thesis by (auto simp: turns_inv_def)
qed

theorem alternate_nt_complete_witness:
  "\<exists>s. reach print_main (print_step 3) s \<and> (\<forall>t. \<not> print_step 3 s t) \<and> num s \<in> {101, 102, 103}"
proof -
  obtain s where s: "reach print_main (print_step 3) s" "\<forall>t. \<not> print_step 3 s t"
    using turns.reach_end[of _ 3] by (metis print_main_def)
  then have "101 \<le> num s \<and> num s \<le> 103" using alternate_nt_complete[of 3 s] by simp
  with s show ?thesis by (intro exI[of _ s]) auto
qed

text \<open>
  \<open>consume.cpp\<close>: under every interleaving of \<open>main\<close> with the thread the notification is not lost; a run that can
  go no further has printed the factorial of 6, once.
\<close>

theorem consume_prints:
  assumes "reach consume_main consume_step s" and "\<forall>t. \<not> consume_step s t"
  shows "mpc s = 4 \<and> shown s = [720]"
proof -
  have "mpc s = 4" using assms by (blast intro: consume.stuck_is_final)
  moreover have "consume_inv s" using assms(1) by (rule consume.reach_holds)
  ultimately show ?thesis by (simp add: consume_inv_def)
qed

theorem consume_prints_witness:
  "\<exists>s. reach consume_main consume_step s \<and> shown s = [720]"
proof -
  obtain s where "reach consume_main consume_step s" "\<forall>t. \<not> consume_step s t"
    using consume.reach_end by (metis consume_main_def)
  with consume_prints[of s] show ?thesis by blast
qed

text \<open>
  \<open>factorial\<close> of \<open>consume.cpp\<close> on 32-bit \<open>int\<close>: it returns exactly for arguments from 1 on, with the
  factorial up to 12 and a signed overflow from 13 on.
\<close>

theorem factorial_range:
  "factorial x =
     (if x < 1 then None else if x \<le> 12 then Some (Inr (int (fact (nat x)))) else Some (Inl SignedOverflow))"
proof (cases "x < 1")
  case True
  then show ?thesis using factorial_positive[of x] by (cases "factorial x") auto
next
  case False
  then obtain n where "x = int n" "1 \<le> n" by (intro that[of "nat x"]) auto
  then show ?thesis using factorial_small[of n] factorial_big[of n] by auto
qed

text \<open>
  \<open>notify.cpp\<close>: \<open>go\<close> wakes one thread; every other thread that had gone to sleep sleeps for
  ever and \<open>main\<close> never gets through its joins.
\<close>

lemma notify_strands:
  assumes "stranded k s" and "gate_step\<^sup>*\<^sup>* s t"
  shows "\<not> joined t \<and> gpc t k = Sleeping"
  using stranded.run_holds[OF assms(2,1)] by (simp add: stranded_def)

lemma notify_can_strand: "\<exists>s. reach gate_main gate_step s \<and> stranded 1 s"
proof -
  let ?s = "\<lambda>f r. \<lparr>ready = r, gpc = f, gone = r, joined = False, gout = []\<rparr>"
  let ?f = "\<lambda>_::nat. Entering"
  have 0: "reach gate_main gate_step (?s ?f False)" by (rule reach_ini) (simp add: gate_main_def)
  have 1: "reach gate_main gate_step (?s (?f(0 := Sleeping)) False)"
    by (rule reach_nxt[OF 0]) (use gate_wait[of 0 "?s ?f False"] in \<open>simp add: gate_threads_def\<close>)
  have 2: "reach gate_main gate_step (?s (?f(0 := Sleeping, 1 := Sleeping)) False)"
    by (rule reach_nxt[OF 1]) (use gate_wait[of 1 "?s (?f(0 := Sleeping)) False"] in \<open>simp add: gate_threads_def\<close>)
  have 3: "reach gate_main gate_step (?s (?f(0 := Sleeping, 1 := Sleeping, 0 := Woken)) True)"
    by (rule reach_nxt[OF 2]) (use go_wakes[of "?s (?f(0 := Sleeping, 1 := Sleeping)) False" 0] in \<open>simp add: gate_threads_def\<close>)
  then show ?thesis by (intro exI conjI, assumption) (simp add: stranded_def gate_threads_def)
qed

end
