(* ===== verification/Log_Source.thy ===== *)
theory Log_Source
  imports Prelude
begin

text \<open>
  The logging classes of \<open>code/boost_doc/log/src/detailed/sources.cpp\<close> (\<open>network_connection\<close> with one logger,
  \<open>network_connection_channel\<close> with two).

  Boost.Log is not part of the repository. What the classes use of it is the record \<open>attr_lib\<close>,
  an argument of every definition: the attribute set of a logger with \<open>add_attribute\<close>
  (\<open>as_insert\<close>), \<open>remove_attribute\<close> (\<open>as_erase\<close>) and its contents (\<open>as_values\<close>); \<open>as_key\<close> is
  the attribute a valid iterator refers to. \<open>opens\<close> is the answer of the core's filters to
  \<open>open_record\<close>, and \<open>globals\<close> the global and thread-specific attributes. The documented laws are
  the predicate \<open>attr_laws\<close>, a named hypothesis: the set behaves like a \<open>std::map\<close>, in
  particular an insertion under a name that is present changes nothing and returns the
  iterator to the old element, and an iterator is invalid once its element is erased.
  Removing through an invalid iterator is undefined (\<open>BadIterator\<close>).
\<close>

datatype aval = AString string | ASize nat

type_synonym avals = "string \<rightharpoonup> aval"

record ('a, 'i) attr_lib =
  as_empty :: 'a
  as_insert :: "'a \<Rightarrow> string \<Rightarrow> aval \<Rightarrow> 'a \<times> 'i"
  as_erase :: "'a \<Rightarrow> 'i \<Rightarrow> 'a"
  as_values :: "'a \<Rightarrow> avals"
  as_key :: "'a \<Rightarrow> 'i \<Rightarrow> string option"

definition insert_absent :: "string \<Rightarrow> aval \<Rightarrow> avals \<Rightarrow> avals" where
  "insert_absent n v m = (if n \<in> dom m then m else m(n \<mapsto> v))"

definition attr_laws :: "('a, 'i) attr_lib \<Rightarrow> bool" where
  "attr_laws lib \<longleftrightarrow>
     as_values lib (as_empty lib) = Map.empty \<and>
     (\<forall>a n v. as_values lib (fst (as_insert lib a n v)) = insert_absent n v (as_values lib a)) \<and>
     (\<forall>a n v. as_key lib (fst (as_insert lib a n v)) (snd (as_insert lib a n v)) = Some n) \<and>
     (\<forall>a i n. as_key lib a i = Some n \<longrightarrow> as_values lib (as_erase lib a i) = (as_values lib a)(n := None)) \<and>
     (\<forall>a i. as_key lib a i \<noteq> None \<longrightarrow> as_key lib (as_erase lib a i) i = None)"

datatype log_error = BadIterator

subsection \<open>A logger and the records it pushes\<close>

text \<open>A logger with the iterator its owner keeps (\<open>None\<close>: never assigned).\<close>

record ('a, 'i) source =
  attributes :: 'a
  remote_addr :: "'i option"

text \<open>\<open>x_remote_addr = x.add_attribute("RemoteAddress", constant(addr)).first\<close>\<close>

definition add_remote :: "('a, 'i) attr_lib \<Rightarrow> string \<Rightarrow> ('a, 'i) source \<Rightarrow> ('a, 'i) source" where
  "add_remote lib addr l =
     (let (a, i) = as_insert lib (attributes l) ''RemoteAddress'' (AString addr)
      in l\<lparr>attributes := a, remote_addr := Some i\<rparr>)"

text \<open>\<open>x.remove_attribute(x_remote_addr)\<close>\<close>

definition remove_remote :: "('a, 'i) attr_lib \<Rightarrow> ('a, 'i) source \<Rightarrow> log_error + ('a, 'i) source" where
  "remove_remote lib l =
     (case remote_addr l of
        None \<Rightarrow> Inl BadIterator
      | Some i \<Rightarrow> (case as_key lib (attributes l) i of
          None \<Rightarrow> Inl BadIterator
        | Some n \<Rightarrow> Inr (l\<lparr>attributes := as_erase lib (attributes l) i\<rparr>)))"

text \<open>
  \<open>BOOST_LOG(x) << add_value(...) << text\<close>: the record is opened with the attributes of the logger
  over the global ones; if the filters let it pass, the values and the message are attached
  and it is pushed.
\<close>

definition opened :: "('a, 'i) attr_lib \<Rightarrow> avals \<Rightarrow> ('a, 'i) source \<Rightarrow> avals" where
  "opened lib globals l = globals ++ as_values lib (attributes l)"

definition boost_log ::
  "('a, 'i) attr_lib \<Rightarrow> avals \<Rightarrow> (avals \<Rightarrow> bool) \<Rightarrow> (string \<times> aval) list \<Rightarrow> string \<Rightarrow> ('a, 'i) source \<Rightarrow> avals list" where
  "boost_log lib globals opens extra msg l =
     (let rec = opened lib globals l
      in if opens rec
         then [insert_absent ''Message'' (AString msg) (fold (\<lambda>(n, v). insert_absent n v) extra rec)] else [])"

subsection \<open>\<open>network_connection\<close>\<close>

record ('a, 'i) network_connection =
  m_logger :: "('a, 'i) source"
  pushed :: "avals list"

definition nc_new :: "('a, 'i) attr_lib \<Rightarrow> ('a, 'i) network_connection" where
  "nc_new lib = \<lparr>m_logger = \<lparr>attributes = as_empty lib, remote_addr = None\<rparr>, pushed = []\<rparr>"

definition on_connection where
  "on_connection lib globals opens addr s =
     (let l = add_remote lib addr (m_logger s)
      in s\<lparr>m_logger := l, pushed := pushed s @ boost_log lib globals opens [] ''Connection established'' l\<rparr>)"

definition on_disconnect where
  "on_disconnect lib globals opens s =
     (let recs = pushed s @ boost_log lib globals opens [] ''Connection shut down'' (m_logger s)
      in case remove_remote lib (m_logger s) of
           Inl e \<Rightarrow> Inl e
         | Inr l \<Rightarrow> Inr (s\<lparr>m_logger := l, pushed := recs\<rparr>))"

definition on_data_received where
  "on_data_received lib globals opens n s =
     s\<lparr>pushed := pushed s @ boost_log lib globals opens [(''ReceivedSize'', ASize n)] ''Some data received'' (m_logger s)\<rparr>"

definition on_data_send where
  "on_data_send lib globals opens n s =
     s\<lparr>pushed := pushed s @ boost_log lib globals opens [(''SendSize'', ASize n)] ''Some data sent'' (m_logger s)\<rparr>"

datatype net_event = Connect string | Received nat | Sent nat | Disconnect

fun nc_event where
  "nc_event lib globals opens (Connect addr) s = Inr (on_connection lib globals opens addr s)"
| "nc_event lib globals opens (Received n) s = Inr (on_data_received lib globals opens n s)"
| "nc_event lib globals opens (Sent n) s = Inr (on_data_send lib globals opens n s)"
| "nc_event lib globals opens Disconnect s = on_disconnect lib globals opens s"

definition nc_run ::
  "('a, 'i) attr_lib \<Rightarrow> avals \<Rightarrow> (avals \<Rightarrow> bool) \<Rightarrow> net_event list \<Rightarrow> log_error + ('a, 'i) network_connection" where
  "nc_run lib globals opens es = foldE (nc_event lib globals opens) es (nc_new lib)"

text \<open>\<open>test_simple_logger\<close>\<close>

definition test_simple_logger where
  "test_simple_logger lib globals opens =
     nc_run lib globals opens [Connect ''192.168.1.1:1000'', Received 100, Sent 200, Disconnect]"

subsection \<open>\<open>network_connection_channel\<close>\<close>

record ('a, 'i) network_connection_channel =
  m_net :: "('a, 'i) source"
  m_stat :: "('a, 'i) source"
  chan_pushed :: "avals list"

text \<open>A channel logger has the attribute \<open>Channel\<close>.\<close>

definition channel_logger :: "('a, 'i) attr_lib \<Rightarrow> string \<Rightarrow> ('a, 'i) source" where
  "channel_logger lib ch =
     \<lparr>attributes = fst (as_insert lib (as_empty lib) ''Channel'' (AString ch)), remote_addr = None\<rparr>"

definition ncc_new :: "('a, 'i) attr_lib \<Rightarrow> ('a, 'i) network_connection_channel" where
  "ncc_new lib = \<lparr>m_net = channel_logger lib ''net'', m_stat = channel_logger lib ''stat'', chan_pushed = []\<rparr>"

fun ncc_event where
  "ncc_event lib globals opens (Connect addr) s =
     (let net = add_remote lib addr (m_net s); stat = add_remote lib addr (m_stat s)
      in Inr (s\<lparr>m_net := net, m_stat := stat,
        chan_pushed := chan_pushed s @ boost_log lib globals opens [] ''default: Connection established'' net\<rparr>))"
| "ncc_event lib globals opens Disconnect s =
     (let recs = chan_pushed s @ boost_log lib globals opens [] ''Connection shut down'' (m_net s)
      in case remove_remote lib (m_net s) of
           Inl e \<Rightarrow> Inl e
         | Inr net \<Rightarrow> (case remove_remote lib (m_stat s) of
             Inl e \<Rightarrow> Inl e
           | Inr stat \<Rightarrow> Inr (s\<lparr>m_net := net, m_stat := stat, chan_pushed := recs\<rparr>)))"
| "ncc_event lib globals opens (Received n) s =
     Inr (s\<lparr>chan_pushed := chan_pushed s @
       boost_log lib globals opens [(''ReceivedSize'', ASize n)] ''Some data received'' (m_stat s)\<rparr>)"
| "ncc_event lib globals opens (Sent n) s =
     Inr (s\<lparr>chan_pushed := chan_pushed s @
       boost_log lib globals opens [(''SendSize'', ASize n)] ''Some data sent'' (m_stat s)\<rparr>)"

definition ncc_run where
  "ncc_run lib globals opens es = foldE (ncc_event lib globals opens) es (ncc_new lib)"

subsection \<open>The abstract logger\<close>

text \<open>
  What the classes promise: the abstract state is the address of the connection in progress
  and the records pushed. \<open>base\<close> are the attributes of the logger that do not change.
\<close>

type_synonym conn = "string option \<times> avals list"

definition with_addr :: "avals \<Rightarrow> string option \<Rightarrow> avals" where
  "with_addr base cur = (case cur of None \<Rightarrow> base | Some addr \<Rightarrow> base(''RemoteAddress'' \<mapsto> AString addr))"

definition spec_log :: "avals \<Rightarrow> (avals \<Rightarrow> bool) \<Rightarrow> avals \<Rightarrow> string option \<Rightarrow> (string \<times> aval) list \<Rightarrow> string \<Rightarrow> avals list" where
  "spec_log globals opens base cur extra msg =
     (let rec = globals ++ with_addr base cur
      in if opens rec
         then [insert_absent ''Message'' (AString msg) (fold (\<lambda>(n, v). insert_absent n v) extra rec)] else [])"

text \<open>
  \<open>None\<close>: undefined. A second connection keeps the address of the first. \<open>net\<close> and \<open>stat\<close> are the
  attributes of the loggers for the connection and for the traffic.
\<close>

fun spec_event :: "string \<Rightarrow> avals \<Rightarrow> (avals \<Rightarrow> bool) \<Rightarrow> avals \<Rightarrow> avals \<Rightarrow> net_event \<Rightarrow> conn \<Rightarrow> conn option" where
  "spec_event hello globals opens net stat (Connect addr) (cur, out) =
     (let cur' = Some (case cur of None \<Rightarrow> addr | Some old \<Rightarrow> old)
      in Some (cur', out @ spec_log globals opens net cur' [] hello))"
| "spec_event hello globals opens net stat Disconnect (cur, out) =
     (if cur = None then None
      else Some (None, out @ spec_log globals opens net cur [] ''Connection shut down''))"
| "spec_event hello globals opens net stat (Received n) (cur, out) =
     Some (cur, out @ spec_log globals opens stat cur [(''ReceivedSize'', ASize n)] ''Some data received'')"
| "spec_event hello globals opens net stat (Sent n) (cur, out) =
     Some (cur, out @ spec_log globals opens stat cur [(''SendSize'', ASize n)] ''Some data sent'')"

fun spec_run :: "string \<Rightarrow> avals \<Rightarrow> (avals \<Rightarrow> bool) \<Rightarrow> avals \<Rightarrow> avals \<Rightarrow> net_event list \<Rightarrow> conn \<Rightarrow> conn option" where
  "spec_run hello globals opens net stat [] t = Some t"
| "spec_run hello globals opens net stat (e # es) t =
     Option.bind (spec_event hello globals opens net stat e t) (spec_run hello globals opens net stat es)"


subsection \<open>Refinement\<close>

locale event_refinement =
  fixes step :: "'e \<Rightarrow> 's \<Rightarrow> 'x + 's" and spec :: "'e \<Rightarrow> 't \<Rightarrow> 't option" and R :: "'s \<Rightarrow> 't \<Rightarrow> bool"
  assumes step_error: "R s t \<Longrightarrow> spec e t = None \<Longrightarrow> \<exists>x. step e s = Inl x"
    and step_ok: "R s t \<Longrightarrow> spec e t = Some t' \<Longrightarrow> \<exists>s'. step e s = Inr s' \<and> R s' t'"
begin

lemma run_refines:
  assumes "R s t"
  shows "case fold (\<lambda>e u. Option.bind u (spec e)) es (Some t) of
      None \<Rightarrow> (\<exists>x. foldE step es s = Inl x)
    | Some t' \<Rightarrow> (\<exists>s'. foldE step es s = Inr s' \<and> R s' t')"
  using assms
proof (induction es arbitrary: s t)
  case (Cons e es)
  have none: "fold (\<lambda>e u. Option.bind u (spec e)) es None = None" by (induction es) auto
  show ?case
  proof (cases "spec e t")
    case None
    then show ?thesis using step_error[OF Cons.prems, of e] none by auto
  next
    case (Some t')
    then obtain s' where "step e s = Inr s'" "R s' t'" using step_ok[OF Cons.prems] by blast
    with Some Cons.IH[of s' t'] show ?thesis by (simp split: option.splits)
  qed
qed simp

end

lemma spec_run_fold:
  "spec_run hello globals opens net stat es t = fold (\<lambda>e u. Option.bind u (spec_event hello globals opens net stat e)) es (Some t)"
proof (induction es arbitrary: t)
  case (Cons e es)
  have "fold (\<lambda>e u. Option.bind u (spec_event hello globals opens net stat e)) xs None = None" for xs by (induction xs) auto
  with Cons show ?case by (cases "spec_event hello globals opens net stat e t") auto
qed simp

definition src_ok :: "('a, 'i) attr_lib \<Rightarrow> avals \<Rightarrow> ('a, 'i) source \<Rightarrow> string option \<Rightarrow> bool" where
  "src_ok lib base l cur \<longleftrightarrow> as_values lib (attributes l) = with_addr base cur \<and>
     (case cur of
        None \<Rightarrow> (\<forall>i. remote_addr l = Some i \<longrightarrow> as_key lib (attributes l) i = None)
      | Some _ \<Rightarrow> (\<exists>i. remote_addr l = Some i \<and> as_key lib (attributes l) i = Some ''RemoteAddress''))"

lemma add_remote_ok:
  assumes "attr_laws lib" and "''RemoteAddress'' \<notin> dom base" and "src_ok lib base l cur"
  shows "src_ok lib base (add_remote lib addr l) (Some (case cur of None \<Rightarrow> addr | Some old \<Rightarrow> old))"
proof -
  obtain a i where ai: "as_insert lib (attributes l) ''RemoteAddress'' (AString addr) = (a, i)" by fastforce
  then have "as_key lib a i = Some ''RemoteAddress''"
    "as_values lib a = insert_absent ''RemoteAddress'' (AString addr) (as_values lib (attributes l))"
    using assms(1) unfolding attr_laws_def by (metis fst_conv snd_conv)+
  with ai assms(2,3) show ?thesis
    by (auto simp: src_ok_def add_remote_def with_addr_def insert_absent_def split: option.splits)
qed

lemma remove_remote_ok:
  assumes "attr_laws lib" and "''RemoteAddress'' \<notin> dom base" and "src_ok lib base l cur"
  shows "(cur = None \<longrightarrow> remove_remote lib l = Inl BadIterator) \<and>
    (cur \<noteq> None \<longrightarrow> (\<exists>l'. remove_remote lib l = Inr l' \<and> src_ok lib base l' None))"
proof (cases cur)
  case None
  with assms(3) show ?thesis by (auto simp: src_ok_def remove_remote_def split: option.splits)
next
  case (Some addr)
  with assms(3) obtain i where i: "remote_addr l = Some i" "as_key lib (attributes l) i = Some ''RemoteAddress''"
    and v: "as_values lib (attributes l) = base(''RemoteAddress'' \<mapsto> AString addr)"
    by (auto simp: src_ok_def with_addr_def)
  let ?a = "as_erase lib (attributes l) i"
  have "as_values lib ?a = (as_values lib (attributes l))(''RemoteAddress'' := None)" "as_key lib ?a i = None"
    using assms(1) i(2) unfolding attr_laws_def by (metis option.distinct(1))+
  moreover have "(base(''RemoteAddress'' \<mapsto> AString addr))(''RemoteAddress'' := None) = base"
    using assms(2) by (auto simp: fun_eq_iff)
  ultimately show ?thesis using Some i v by (simp add: src_ok_def remove_remote_def with_addr_def)
qed

lemma boost_log_spec:
  "src_ok lib base l cur \<Longrightarrow> boost_log lib globals opens extra msg l = spec_log globals opens base cur extra msg"
  by (simp add: src_ok_def boost_log_def spec_log_def opened_def)

definition nc_rel :: "('a, 'i) attr_lib \<Rightarrow> ('a, 'i) network_connection \<Rightarrow> conn \<Rightarrow> bool" where
  "nc_rel lib s t \<longleftrightarrow> attr_laws lib \<and> src_ok lib Map.empty (m_logger s) (fst t) \<and> pushed s = snd t"

definition ncc_rel :: "('a, 'i) attr_lib \<Rightarrow> ('a, 'i) network_connection_channel \<Rightarrow> conn \<Rightarrow> bool" where
  "ncc_rel lib s t \<longleftrightarrow> attr_laws lib \<and> src_ok lib [''Channel'' \<mapsto> AString ''net''] (m_net s) (fst t) \<and>
     src_ok lib [''Channel'' \<mapsto> AString ''stat''] (m_stat s) (fst t) \<and> chan_pushed s = snd t"

lemma nc_step:
  assumes "nc_rel lib s t"
  shows "case spec_event ''Connection established'' globals opens Map.empty Map.empty e t of
      None \<Rightarrow> (\<exists>x. nc_event lib globals opens e s = Inl x)
    | Some t' \<Rightarrow> (\<exists>s'. nc_event lib globals opens e s = Inr s' \<and> nc_rel lib s' t')"
proof -
  obtain cur out where t: "t = (cur, out)" by fastforce
  have laws: "attr_laws lib" and ok: "src_ok lib Map.empty (m_logger s) cur" and out: "pushed s = out"
    using assms by (auto simp: nc_rel_def t)
  note log = boost_log_spec[OF ok]
  note add = add_remote_ok[OF laws _ ok, simplified] and rem = remove_remote_ok[OF laws _ ok, simplified]
  show ?thesis
  proof (cases e)
    case (Connect addr)
    then show ?thesis using laws out boost_log_spec[OF add[of addr]] add[of addr]
      by (simp add: t nc_rel_def on_connection_def Let_def)
  next
    case Disconnect
    then show ?thesis using laws out log rem
      by (auto simp: t nc_rel_def on_disconnect_def Let_def)
  qed (use laws out log ok in \<open>simp_all add: t nc_rel_def on_data_received_def on_data_send_def\<close>)
qed

lemma ncc_step:
  assumes "ncc_rel lib s t"
  shows "case spec_event ''default: Connection established'' globals opens
        [''Channel'' \<mapsto> AString ''net''] [''Channel'' \<mapsto> AString ''stat''] e t of
      None \<Rightarrow> (\<exists>x. ncc_event lib globals opens e s = Inl x)
    | Some t' \<Rightarrow> (\<exists>s'. ncc_event lib globals opens e s = Inr s' \<and> ncc_rel lib s' t')"
proof -
  obtain cur out where t: "t = (cur, out)" by fastforce
  let ?n = "[''Channel'' \<mapsto> AString ''net'']" and ?s = "[''Channel'' \<mapsto> AString ''stat'']"
  have laws: "attr_laws lib" and net: "src_ok lib ?n (m_net s) cur" and stat: "src_ok lib ?s (m_stat s) cur"
    and out: "chan_pushed s = out" using assms by (auto simp: ncc_rel_def t)
  have fresh: "''RemoteAddress'' \<notin> dom ?n" "''RemoteAddress'' \<notin> dom ?s" by simp_all
  note add = add_remote_ok[OF laws fresh(1) net] add_remote_ok[OF laws fresh(2) stat]
  note rem = remove_remote_ok[OF laws fresh(1) net] remove_remote_ok[OF laws fresh(2) stat]
  show ?thesis
  proof (cases e)
    case (Connect addr)
    then show ?thesis using laws out boost_log_spec[OF add(1)[of addr]] add[of addr]
      by (simp add: t ncc_rel_def Let_def)
  next
    case Disconnect
    then show ?thesis using laws out boost_log_spec[OF net] rem by (auto simp: t ncc_rel_def Let_def)
  qed (use laws out net stat boost_log_spec[OF stat] in \<open>simp_all add: t ncc_rel_def\<close>)
qed

interpretation nc: event_refinement "nc_event lib globals opens"
  "spec_event ''Connection established'' globals opens Map.empty Map.empty" "nc_rel lib" for lib globals opens
proof
  show "nc_rel lib s t \<Longrightarrow> spec_event ''Connection established'' globals opens Map.empty Map.empty e t = None \<Longrightarrow>
      \<exists>x. nc_event lib globals opens e s = Inl x" for s t e
    using nc_step[of lib s t globals opens e] by simp
  show "nc_rel lib s t \<Longrightarrow> spec_event ''Connection established'' globals opens Map.empty Map.empty e t = Some t' \<Longrightarrow>
      \<exists>s'. nc_event lib globals opens e s = Inr s' \<and> nc_rel lib s' t'" for s t e t'
    using nc_step[of lib s t globals opens e] by simp
qed

interpretation ncc: event_refinement "ncc_event lib globals opens"
  "spec_event ''default: Connection established'' globals opens [''Channel'' \<mapsto> AString ''net''] [''Channel'' \<mapsto> AString ''stat'']"
  "ncc_rel lib" for lib globals opens
proof
  show "ncc_rel lib s t \<Longrightarrow> spec_event ''default: Connection established'' globals opens
      [''Channel'' \<mapsto> AString ''net''] [''Channel'' \<mapsto> AString ''stat''] e t = None \<Longrightarrow>
      \<exists>x. ncc_event lib globals opens e s = Inl x" for s t e
    using ncc_step[of lib s t globals opens e] by simp
  show "ncc_rel lib s t \<Longrightarrow> spec_event ''default: Connection established'' globals opens
      [''Channel'' \<mapsto> AString ''net''] [''Channel'' \<mapsto> AString ''stat''] e t = Some t' \<Longrightarrow>
      \<exists>s'. ncc_event lib globals opens e s = Inr s' \<and> ncc_rel lib s' t'" for s t e t'
    using ncc_step[of lib s t globals opens e] by simp
qed

text \<open>The start.\<close>

lemma nc_start: "attr_laws lib \<Longrightarrow> nc_rel lib (nc_new lib) (None, [])"
  by (simp add: nc_rel_def nc_new_def src_ok_def with_addr_def attr_laws_def)

lemma ncc_start: "attr_laws lib \<Longrightarrow> ncc_rel lib (ncc_new lib) (None, [])"
  by (simp add: ncc_rel_def ncc_new_def src_ok_def with_addr_def attr_laws_def channel_logger_def insert_absent_def)

subsection \<open>Properties\<close>

text \<open>
  C35. The connection loggers refine the abstract one: for every library with the documented laws, all
  filters and every sequence of calls, the records pushed are those of a logger that knows
  the address of the connection in progress and nothing else; and the calls are undefined
  exactly where \<open>on_disconnect\<close> comes without a connection in progress.
\<close>

theorem connection_log_refines:
  assumes "attr_laws lib"
  shows "(case spec_run ''Connection established'' globals opens Map.empty Map.empty es (None, []) of
      None \<Rightarrow> (\<exists>x. nc_run lib globals opens es = Inl x)
    | Some (cur, out) \<Rightarrow> (\<exists>s. nc_run lib globals opens es = Inr s \<and> pushed s = out)) \<and>
   (case spec_run ''default: Connection established'' globals opens
        [''Channel'' \<mapsto> AString ''net''] [''Channel'' \<mapsto> AString ''stat''] es (None, []) of
      None \<Rightarrow> (\<exists>x. ncc_run lib globals opens es = Inl x)
    | Some (cur, out) \<Rightarrow> (\<exists>s. ncc_run lib globals opens es = Inr s \<and> chan_pushed s = out))"
  using nc.run_refines[OF nc_start[OF assms], of globals opens es]
    ncc.run_refines[OF ncc_start[OF assms], of globals opens es]
  by (auto simp: nc_run_def ncc_run_def spec_run_fold nc_rel_def ncc_rel_def split: option.splits)

text \<open>The laws hold of a map with a counter for its iterators.\<close>

definition map_lib :: "(avals \<times> (nat \<rightharpoonup> string) \<times> nat, nat) attr_lib" where
  "map_lib = \<lparr>as_empty = (Map.empty, Map.empty, 0),
     as_insert = (\<lambda>(m, k, c) n v. ((insert_absent n v m, k(c \<mapsto> n), c + 1), c)),
     as_erase = (\<lambda>(m, k, c) i. (case k i of None \<Rightarrow> (m, k, c)
       | Some n \<Rightarrow> (m(n := None), (\<lambda>j. if k j = Some n then None else k j), c))),
     as_values = fst, as_key = (\<lambda>(m, k, c) i. k i)\<rparr>"

lemma map_lib_laws: "attr_laws map_lib"
  by (auto simp: attr_laws_def map_lib_def split: option.splits)

theorem connection_log_refines_witness:
  "\<exists>s. test_simple_logger map_lib Map.empty (\<lambda>_. True) = Inr s \<and> length (pushed s) = 4 \<and>
    (\<forall>r \<in> set (pushed s). r ''RemoteAddress'' = Some (AString ''192.168.1.1:1000''))"
  using connection_log_refines[OF map_lib_laws, of Map.empty "\<lambda>_. True"
      "[Connect ''192.168.1.1:1000'', Received 100, Sent 200, Disconnect]"]
  by (auto simp: test_simple_logger_def spec_log_def with_addr_def insert_absent_def Let_def)

text \<open>The second of two connections is logged under the address of the first.\<close>

lemma second_connection_keeps_address:
  assumes "attr_laws lib"
  shows "\<exists>s. nc_run lib Map.empty (\<lambda>_. True) [Connect a, Connect b] = Inr s \<and>
    (last (pushed s)) ''RemoteAddress'' = Some (AString a)"
  using nc.run_refines[OF nc_start[OF assms], of Map.empty "\<lambda>_. True" "[Connect a, Connect b]"]
  by (auto simp: nc_run_def nc_rel_def spec_log_def with_addr_def insert_absent_def Let_def)

end
