(* ===== verification/Log_Filter.thy ===== *)
theory Log_Filter
  imports Time_Stamp Stock_Quote "HOL-Library.Sublist"
begin

text \<open>
  Filters and formatters of the logging samples:
  \<open>code/boost_doc/log/src/tutorial/complex_filter.cpp\<close> (two files, one of them filtered),
  \<open>code/lang/log.cpp\<close> (scopes, tags and timers as attributes),
  \<open>tutorial/formatter.cpp\<close> (\<open>custom_formatter\<close> and the program that uses it), the
  typed visitors of \<open>log/src/utilities.cpp\<close> and the accesses to a record of \<open>log/src/detailed/record.cpp\<close>.

  Boost.Log is an argument: \<open>deliver\<close> is what the core writes to a file, given the sinks and the
  records in the order they are logged, with its documented behaviour as the hypothesis
  \<open>core_law\<close>: a record goes to every sink whose filter accepts it and is written there as one line, in the
  sink's format; \<open>add_common_attributes\<close> numbers the records from 1, as far as each of them is accepted by
  some sink. A missing attribute is \<open>None\<close>; comparing it gives \<open>false\<close> and printing
  it nothing. Messages in Chinese are given in English.
\<close>

record log_rec =
  line_id :: nat
  severity :: "int option"
  tag_attr :: "string option"
  scope :: "string list"
  timeline :: "string option"
  message :: string

record sink =
  stream :: string
  accepts :: "log_rec \<Rightarrow> bool"
  formatter :: "log_rec \<Rightarrow> string"

definition numbered :: "log_rec list \<Rightarrow> log_rec list" where
  "numbered recs = map (\<lambda>(n, r). r\<lparr>line_id := n + 1\<rparr>) (enumerate 0 recs)"

type_synonym core = "sink list \<Rightarrow> log_rec list \<Rightarrow> string \<Rightarrow> string list"

definition core_law :: "core \<Rightarrow> bool" where
  "core_law deliver \<longleftrightarrow> (\<forall>sinks recs.
     distinct (map stream sinks) \<longrightarrow> (\<forall>r \<in> set (numbered recs). \<exists>k \<in> set sinks. accepts k r) \<longrightarrow>
     (\<forall>k \<in> set sinks. deliver sinks recs (stream k) = map (formatter k) (filter (accepts k) (numbered recs))))"

subsection \<open>Severity levels\<close>

text \<open>An \<open>enum\<close>; \<open>operator<<\<close> prints what is no enumerator as a number.\<close>

definition normal :: int where "normal = 0"
definition notification :: int where "notification = 1"
definition warning :: int where "warning = 2"
definition error_level :: int where "error_level = 3"
definition critical :: int where "critical = 4"

definition level_strings :: "string list" where
  "level_strings = [''normal'', ''notification'', ''warning'', ''error'', ''critical'']"

definition put_level :: "int \<Rightarrow> string" where
  "put_level level =
     (if 0 \<le> level \<and> nat level < length level_strings then level_strings ! nat level
      else if level < 0 then ''-'' @ dec (nat (- level)) else dec (nat level))"

definition put_opt :: "('a \<Rightarrow> string) \<Rightarrow> 'a option \<Rightarrow> string" where
  "put_opt f x = (case x of None \<Rightarrow> '''' | Some v \<Rightarrow> f v)"

subsection \<open>\<open>complex_filter.cpp\<close>\<close>

definition at_least :: "int \<Rightarrow> int option \<Rightarrow> bool" where
  "at_least k level = (case level of None \<Rightarrow> False | Some l \<Rightarrow> k \<le> l)"

definition custom_filter :: "int option \<Rightarrow> string option \<Rightarrow> bool" where
  "custom_filter level tag \<longleftrightarrow> at_least warning level \<or> tag = Some ''NOTICE''"

text \<open>The first method, left in a comment: \<open>severity >= warning || (has_attr(tag_attr) && tag_attr == "NOTICE")\<close>.\<close>

definition filter_method1 :: "log_rec \<Rightarrow> bool" where
  "filter_method1 r \<longleftrightarrow> at_least warning (severity r) \<or>
     (tag_attr r \<noteq> None \<and> (case tag_attr r of None \<Rightarrow> False | Some t \<Rightarrow> t = ''NOTICE''))"

definition fmt :: "log_rec \<Rightarrow> string" where
  "fmt r = pad0 3 (line_id r) @ '': <'' @ put_opt put_level (severity r) @ ''>'' @ [CHR 0x09] @
     (if tag_attr r \<noteq> None then ''['' @ put_opt (\<lambda>t. t) (tag_attr r) @ '']'' else '''') @ message r"

definition init_sinks :: "sink list" where
  "init_sinks =
     [\<lparr>stream = ''full.log'', accepts = (\<lambda>_. True), formatter = fmt\<rparr>,
      \<lparr>stream = ''important.log'', accepts = (\<lambda>r. custom_filter (severity r) (tag_attr r)), formatter = fmt\<rparr>]"

definition log_sev :: "string option \<Rightarrow> string list \<Rightarrow> string option \<Rightarrow> int \<Rightarrow> string \<Rightarrow> log_rec" where
  "log_sev tag sc tline level msg =
     \<lparr>line_id = 0, severity = Some level, tag_attr = tag, scope = sc, timeline = tline, message = msg\<rparr>"

text \<open>\<open>gen_logging\<close>: the tag is a thread attribute from its declaration to the end of the function.\<close>

definition gen_logging :: "log_rec list" where
  "gen_logging =
     [log_sev None [] None normal ''level normal'', log_sev None [] None warning ''level warning'',
      log_sev None [] None critical ''level critical''] @
     (let tag = Some ''NOTICE'' in [log_sev tag [] None normal ''level normal''])"

subsection \<open>\<open>log.cpp\<close>\<close>

text \<open>
  The functions of \<open>log.cpp\<close>, given the scopes and the thread attribute \<open>Timeline\<close> in force; \<open>clock\<close> is
  the text of the timer for a message. \<open>BOOST_LOG_NAMED_SCOPE\<close> and \<open>BOOST_LOG_SCOPED_THREAD_ATTR\<close> hold to
  the end of the function they are in.
\<close>

type_synonym ctx = "string list \<times> bool"

definition rec_in :: "(string \<Rightarrow> string) \<Rightarrow> ctx \<Rightarrow> string option \<Rightarrow> int \<Rightarrow> string \<Rightarrow> log_rec" where
  "rec_in clock c tag level msg = log_sev tag (fst c) (if snd c then Some (clock msg) else None) level msg"

definition logging_function :: "(string \<Rightarrow> string) \<Rightarrow> ctx \<Rightarrow> log_rec list" where
  "logging_function clock c =
     [rec_in clock c None normal ''A regular message'',
      rec_in clock c None warning ''Something bad is going on but I can handle it'',
      rec_in clock c None critical ''Everything crumbles, shoot me now!'']"

definition named_scope_logging :: "(string \<Rightarrow> string) \<Rightarrow> ctx \<Rightarrow> log_rec list" where
  "named_scope_logging clock c =
     (let c = (fst c @ [''named_scope_logging''], snd c)
      in [rec_in clock c None normal ''Hello from the function named_scope_logging!''])"

definition tagged_logging :: "(string \<Rightarrow> string) \<Rightarrow> ctx \<Rightarrow> log_rec list" where
  "tagged_logging clock c = [rec_in clock c (Some ''My tag value'') normal ''Here goes the tagged record'']"

definition timed_logging :: "(string \<Rightarrow> string) \<Rightarrow> ctx \<Rightarrow> log_rec list" where
  "timed_logging clock c =
     (let c = (fst c, True)
      in [rec_in clock c None normal ''Starting to time nested functions''] @ logging_function clock c @
         [rec_in clock c None normal ''Stopping to time nested functions''])"

definition hex8 :: "nat \<Rightarrow> string" where
  "hex8 n = replicate (8 - length (to_hex n)) CHR ''0'' @ to_hex n"

definition sample_format :: "(string list \<Rightarrow> string) \<Rightarrow> log_rec \<Rightarrow> string" where
  "sample_format put_scope r = hex8 (line_id r) @ '': <'' @ put_opt put_level (severity r) @ ''>'' @ [CHR 0x09] @
     ''('' @ put_scope (scope r) @ '') '' @
     (if tag_attr r \<noteq> None then ''['' @ put_opt (\<lambda>t. t) (tag_attr r) @ ''] '' else '''') @
     (if timeline r \<noteq> None then ''['' @ put_opt (\<lambda>t. t) (timeline r) @ ''] '' else '''') @ message r"

definition sample_sinks :: "(string list \<Rightarrow> string) \<Rightarrow> sink list" where
  "sample_sinks put_scope = [\<lparr>stream = ''sample.log'', accepts = (\<lambda>_. True), formatter = sample_format put_scope\<rparr>]"

definition sample_main :: "(string \<Rightarrow> string) \<Rightarrow> log_rec list" where
  "sample_main clock = (let c = ([], False) in named_scope_logging clock c @ tagged_logging clock c @ timed_logging clock c)"

subsection \<open>\<open>formatter.cpp\<close>\<close>

text \<open>\<open>put_trivial\<close> prints the levels of \<open>boost::log::trivial\<close>, which count from \<open>trace\<close> = 0 to \<open>fatal\<close> = 5.\<close>

definition custom_formatter :: "(int \<Rightarrow> string) \<Rightarrow> log_rec \<Rightarrow> string" where
  "custom_formatter put_trivial rec = dec (line_id rec) @ '': '' @ ''<'' @ put_opt put_trivial (severity rec) @ ''>'' @ message rec"

definition init_custom_formatter :: "(int \<Rightarrow> string) \<Rightarrow> sink list" where
  "init_custom_formatter put_trivial =
     [\<lparr>stream = ''formater_%2N.log'', accepts = (\<lambda>_. True), formatter = custom_formatter put_trivial\<rparr>]"

text \<open>The initialisers \<open>main\<close> does not call; \<open>ts\<close> is the text of the time stamp of a record.\<close>

definition init_method1 :: "(int \<Rightarrow> string) \<Rightarrow> sink list" where
  "init_method1 put_trivial =
     [\<lparr>stream = ''formatter_%N.log'', accepts = (\<lambda>_. True),
       formatter = (\<lambda>r. dec (line_id r) @ '': '' @ put_opt put_trivial (severity r) @ ''> '' @ message r)\<rparr>]"

definition init_method2 :: "(int \<Rightarrow> string) \<Rightarrow> sink list" where
  "init_method2 put_trivial =
     [\<lparr>stream = ''formater_%2N.log'', accepts = (\<lambda>_. True),
       formatter = (\<lambda>r. hex8 (line_id r) @ '': '' @ put_opt put_trivial (severity r) @ ''> '' @ message r)\<rparr>]"

definition init_style2 :: "(log_rec \<Rightarrow> string) \<Rightarrow> (int \<Rightarrow> string) \<Rightarrow> sink list" where
  "init_style2 ts put_trivial =
     [\<lparr>stream = ''style2_%N.log'', accepts = (\<lambda>_. True),
       formatter = (\<lambda>r. ts r @ '': '' @ put_opt put_trivial (severity r) @ ''> '' @ message r)\<rparr>]"

definition text_style_formatter :: "(log_rec \<Rightarrow> string) \<Rightarrow> sink list" where
  "text_style_formatter ts =
     [\<lparr>stream = ''log/tex_style_%N.log'', accepts = (\<lambda>_. True), formatter = (\<lambda>r. ''['' @ ts r @ '':] '' @ message r)\<rparr>]"

definition formatter_main :: "log_rec list" where
  "formatter_main =
     [log_sev None [] None 0 ''level: trace'', log_sev None [] None 1 ''level: debug'', log_sev None [] None 2 ''level: info'',
      log_sev None [] None 3 ''level: warning'', log_sev None [] None 4 ''level: error'', log_sev None [] None 5 ''level: fatal'']"

subsection \<open>\<open>utilities.cpp\<close>\<close>

text \<open>
  A value of static type \<open>int\<close>, \<open>double\<close>, \<open>string\<close> or another, behind \<open>my_base\<close>. The dispatchers of
  the library are the record \<open>disp_lib\<close>: \<open>get_callback\<close> is the callback a dispatcher has for a type.
\<close>

datatype vtype = TInt | TDouble | TString | TOther nat

datatype ('d, 'x) my_value = IntV int | DoubleV 'd | StringV string | OtherV nat 'x

datatype 'd received = GotInt int | GotDouble 'd | GotString string

fun type_of :: "('d, 'x) my_value \<Rightarrow> vtype" where
  "type_of (IntV i) = TInt" | "type_of (DoubleV d) = TDouble" | "type_of (StringV s) = TString" | "type_of (OtherV n x) = TOther n"

record ('b, 'd, 'x) disp_lib =
  static_dispatcher :: "vtype list \<Rightarrow> (('d, 'x) my_value \<Rightarrow> 'd received list) \<Rightarrow> 'b"
  dynamic_dispatcher :: 'b
  register_type :: "vtype \<Rightarrow> (('d, 'x) my_value \<Rightarrow> 'd received list) \<Rightarrow> 'b \<Rightarrow> 'b"
  get_callback :: "'b \<Rightarrow> vtype \<Rightarrow> (('d, 'x) my_value \<Rightarrow> 'd received list) option"

definition disp_laws :: "('b, 'd, 'x) disp_lib \<Rightarrow> bool" where
  "disp_laws lib \<longleftrightarrow>
     (\<forall>ts f t. get_callback lib (static_dispatcher lib ts f) t = (if t \<in> set ts then Some f else None)) \<and>
     (\<forall>t. get_callback lib (dynamic_dispatcher lib) t = None) \<and>
     (\<forall>t f b u. get_callback lib (register_type lib t f b) u = (if u = t then Some f else get_callback lib b u))"

text \<open>\<open>my_value<T>::dispatch\<close>: the lines printed and the result.\<close>

definition dispatch :: "('b, 'd, 'x) disp_lib \<Rightarrow> 'b \<Rightarrow> ('d, 'x) my_value \<Rightarrow> 'd received list \<times> bool" where
  "dispatch lib dispatcher v =
     (case get_callback lib dispatcher (type_of v) of Some cb \<Rightarrow> (cb v, True) | None \<Rightarrow> ([], False))"

text \<open>The overloads of \<open>print_visitor\<close> and the functions \<open>on_int\<close>, \<open>on_double\<close>, \<open>on_string\<close>.\<close>

fun print_visitor :: "('d, 'x) my_value \<Rightarrow> 'd received list" where
  "print_visitor (IntV i) = [GotInt i]"
| "print_visitor (DoubleV d) = [GotDouble d]"
| "print_visitor (StringV s) = [GotString s]"
| "print_visitor (OtherV n x) = []"

definition on_int :: "('d, 'x) my_value \<Rightarrow> 'd received list" where
  "on_int v = (case v of IntV i \<Rightarrow> [GotInt i] | _ \<Rightarrow> [])"
definition on_double :: "('d, 'x) my_value \<Rightarrow> 'd received list" where
  "on_double v = (case v of DoubleV d \<Rightarrow> [GotDouble d] | _ \<Rightarrow> [])"
definition on_string :: "('d, 'x) my_value \<Rightarrow> 'd received list" where
  "on_string v = (case v of StringV s \<Rightarrow> [GotString s] | _ \<Rightarrow> [])"

definition print_static :: "('b, 'd, 'x) disp_lib \<Rightarrow> ('d, 'x) my_value \<Rightarrow> 'd received list \<times> bool" where
  "print_static lib v = dispatch lib (static_dispatcher lib [TInt, TDouble, TString] print_visitor) v"

definition init_disp :: "('b, 'd, 'x) disp_lib \<Rightarrow> 'b \<Rightarrow> 'b" where
  "init_disp lib b = register_type lib TString on_string (register_type lib TDouble on_double (register_type lib TInt on_int b))"

definition print1 :: "('b, 'd, 'x) disp_lib \<Rightarrow> ('d, 'x) my_value \<Rightarrow> 'd received list \<times> bool" where
  "print1 lib v = dispatch lib (init_disp lib (dynamic_dispatcher lib)) v"

subsection \<open>\<open>record.cpp\<close>\<close>

text \<open>
  Four ways to print the severity of a record (\<open>log/src/detailed/record.cpp\<close>). What they use of the library is \<open>rec_lib\<close>:
  \<open>find_attr\<close> in the attribute values, \<open>value_extract\<close> of one value as a level (\<open>None\<close>: of another type), and visiting,
  extraction and the subscript, which the documentation defines by them. An empty reference prints nothing.
\<close>

record ('r, 'v) rec_lib =
  find_attr :: "'r \<Rightarrow> string \<Rightarrow> 'v option"
  value_extract :: "'v \<Rightarrow> int option"
  visit_attr :: "string \<Rightarrow> 'r \<Rightarrow> (int \<Rightarrow> string list) \<Rightarrow> string list"
  extract_attr :: "string \<Rightarrow> 'r \<Rightarrow> int option"
  subscript :: "'r \<Rightarrow> string \<Rightarrow> int option"

definition rec_laws :: "('r, 'v) rec_lib \<Rightarrow> bool" where
  "rec_laws lib \<longleftrightarrow>
     (\<forall>n r f. visit_attr lib n r f = (case extract_attr lib n r of None \<Rightarrow> [] | Some l \<Rightarrow> f l)) \<and>
     (\<forall>n r. extract_attr lib n r = Option.bind (find_attr lib r n) (value_extract lib)) \<and>
     (\<forall>n r. subscript lib r n = extract_attr lib n r)"

definition via_visitation :: "('r, 'v) rec_lib \<Rightarrow> (int \<Rightarrow> string) \<Rightarrow> 'r \<Rightarrow> string list" where
  "via_visitation lib put rec = visit_attr lib ''Severity'' rec (\<lambda>level. [put level])"

definition via_extract :: "('r, 'v) rec_lib \<Rightarrow> (int \<Rightarrow> string) \<Rightarrow> 'r \<Rightarrow> string list" where
  "via_extract lib put rec = (let level = extract_attr lib ''Severity'' rec in [put_opt put level])"

definition via_lookup :: "('r, 'v) rec_lib \<Rightarrow> (int \<Rightarrow> string) \<Rightarrow> 'r \<Rightarrow> string list" where
  "via_lookup lib put rec =
     (case find_attr lib rec ''Severity'' of None \<Rightarrow> [] | Some v \<Rightarrow> [put_opt put (value_extract lib v)])"

definition via_subscript :: "('r, 'v) rec_lib \<Rightarrow> (int \<Rightarrow> string) \<Rightarrow> 'r \<Rightarrow> string list" where
  "via_subscript lib put rec = (let level = subscript lib rec ''Severity'' in [put_opt put level])"

definition via_record :: "('r, 'v) rec_lib \<Rightarrow> (int \<Rightarrow> string) \<Rightarrow> 'r \<Rightarrow> string list" where
  "via_record lib put rec = via_visitation lib put rec @ via_extract lib put rec @ via_lookup lib put rec @ via_subscript lib put rec"

subsection \<open>Lemmas\<close>

lemma core_lawD:
  assumes "core_law deliver" and "distinct (map stream sinks)" and "\<And>r. \<exists>k \<in> set sinks. accepts k r" and "k \<in> set sinks"
  shows "deliver sinks recs (stream k) = map (formatter k) (filter (accepts k) (numbered recs))"
  using assms unfolding core_law_def by blast

lemma in_init_sinks: "\<exists>k \<in> set init_sinks. accepts k r"
  by (simp add: init_sinks_def)

lemma init_files:
  assumes "core_law deliver"
  shows "deliver init_sinks recs ''full.log'' = map fmt (numbered recs)"
    and "deliver init_sinks recs ''important.log'' =
      map fmt (filter (\<lambda>r. custom_filter (severity r) (tag_attr r)) (numbered recs))"
proof -
  have d: "distinct (map stream init_sinks)" by (simp add: init_sinks_def)
  have k: "deliver init_sinks recs (stream k) = map (formatter k) (filter (accepts k) (numbered recs))"
    if "k \<in> set init_sinks" for k
    by (rule core_lawD[OF assms d in_init_sinks that])
  show "deliver init_sinks recs ''full.log'' = map fmt (numbered recs)"
    using k[of "init_sinks ! 0"] by (simp add: init_sinks_def)
  show "deliver init_sinks recs ''important.log'' =
      map fmt (filter (\<lambda>r. custom_filter (severity r) (tag_attr r)) (numbered recs))"
    using k[of "init_sinks ! 1"] by (simp add: init_sinks_def)
qed

lemma filter_methods_agree: "custom_filter (severity r) (tag_attr r) = filter_method1 r"
  by (auto simp: custom_filter_def filter_method1_def split: option.splits)

text \<open>A core with the documented behaviour.\<close>

definition plain_core :: core where
  "plain_core sinks recs f =
     concat (map (\<lambda>k. if stream k = f then map (formatter k) (filter (accepts k) (numbered recs)) else []) sinks)"

lemma plain_core_law: "core_law plain_core"
proof -
  have other: "stream k \<notin> set (map stream ks) \<Longrightarrow> plain_core ks recs (stream k) = []" for ks recs k
    by (induction ks) (auto simp: plain_core_def)
  have "distinct (map stream ks) \<Longrightarrow> k \<in> set ks \<Longrightarrow>
      plain_core ks recs (stream k) = map (formatter k) (filter (accepts k) (numbered recs))" for ks recs k
  proof (induction ks)
    case (Cons j ks)
    show ?case
    proof (cases "k = j")
      case True
      with Cons.prems other[of k ks recs] show ?thesis by (simp add: plain_core_def)
    next
      case False
      with Cons have "stream j \<noteq> stream k" by auto
      with Cons False show ?thesis by (simp add: plain_core_def)
    qed
  qed simp
  then show ?thesis by (simp add: core_law_def)
qed

lemma formatter_log:
  assumes "core_law deliver"
  shows "deliver (init_custom_formatter put_trivial) formatter_main ''formater_%2N.log'' =
    map (\<lambda>(n, l, m). dec n @ '': <'' @ put_trivial l @ ''>level: '' @ m)
      [(1, 0, ''trace''), (2, 1, ''debug''), (3, 2, ''info''), (4, 3, ''warning''), (5, 4, ''error''), (6, 5, ''fatal'')]"
  using core_lawD[OF assms, of "init_custom_formatter put_trivial" "hd (init_custom_formatter put_trivial)" formatter_main]
  by (simp add: init_custom_formatter_def custom_formatter_def formatter_main_def numbered_def log_sev_def put_opt_def eval_nat_numeral)

text \<open>The other formats of the file for a record with a level: none of them opens the bracket before the level.\<close>

lemma formatter_formats:
  assumes "core_law deliver" and "severity r = Some l"
  shows "deliver (init_method1 put_trivial) [r] ''formatter_%N.log'' = [''1: '' @ put_trivial l @ ''> '' @ message r]"
    and "deliver (init_method2 put_trivial) [r] ''formater_%2N.log'' = [hex8 1 @ '': '' @ put_trivial l @ ''> '' @ message r]"
proof -
  have "char_of (49::nat) = CHR ''1''" by code_simp
  then have d: "dec (Suc 0) = ''1''" by (simp add: dec.simps)
  show "deliver (init_method1 put_trivial) [r] ''formatter_%N.log'' = [''1: '' @ put_trivial l @ ''> '' @ message r]"
    using core_lawD[OF assms(1), of "init_method1 put_trivial" "hd (init_method1 put_trivial)" "[r]"] assms(2) d
    by (simp add: init_method1_def numbered_def put_opt_def)
  show "deliver (init_method2 put_trivial) [r] ''formater_%2N.log'' = [hex8 1 @ '': '' @ put_trivial l @ ''> '' @ message r]"
    using core_lawD[OF assms(1), of "init_method2 put_trivial" "hd (init_method2 put_trivial)" "[r]"] assms(2)
    by (simp add: init_method2_def numbered_def put_opt_def)
qed

lemma dispatch_callbacks:
  assumes "disp_laws lib"
  shows "print_static lib v = (print_visitor v, \<not> (\<exists>n x. v = OtherV n x))" and "print1 lib v = print_static lib v"
  using assms
  by (cases v; simp add: disp_laws_def print_static_def print1_def init_disp_def dispatch_def on_int_def on_double_def on_string_def)+

subsection \<open>Properties\<close>

text \<open>
  The two files of \<open>complex_filter.cpp\<close>, for every sequence of log statements and every core with the
  documented behaviour: \<open>full.log\<close> has one line per record; \<open>important.log\<close> has, in the same order
  and with the same text and number, exactly the lines of the records of severity
  \<open>warning\<close> or higher or with the tag \<open>NOTICE\<close>, so that it is a subsequence of \<open>full.log\<close>; the
  filter bound with \<open>phoenix::bind\<close> and the one left in the comment accept the same records.
\<close>

theorem important_log:
  assumes "core_law deliver"
  shows "length (deliver init_sinks recs ''full.log'') = length recs \<and>
    deliver init_sinks recs ''important.log'' = map fmt (filter filter_method1 (numbered recs)) \<and>
    subseq (deliver init_sinks recs ''important.log'') (deliver init_sinks recs ''full.log'')"
proof -
  have "length (deliver init_sinks recs ''full.log'') = length recs"
    unfolding init_files[OF assms] by (simp add: numbered_def)
  moreover have "deliver init_sinks recs ''important.log'' = map fmt (filter filter_method1 (numbered recs))"
    unfolding init_files[OF assms] by (simp add: filter_methods_agree)
  moreover have "subseq (deliver init_sinks recs ''important.log'') (deliver init_sinks recs ''full.log'')"
    unfolding init_files[OF assms] by (intro subseq_map subseq_filter_left)
  ultimately show ?thesis by blast
qed

theorem important_log_witness:
  "plain_core init_sinks gen_logging ''important.log'' =
     [''002: <warning>'' @ [CHR 0x09] @ ''level warning'', ''003: <critical>'' @ [CHR 0x09] @ ''level critical'',
      ''004: <normal>'' @ [CHR 0x09] @ ''[NOTICE]level normal'']"
proof -
  have d: "pad0 3 2 = ''002''" "pad0 3 3 = ''003''" "pad0 3 4 = ''004''" by code_simp+
  have "plain_core init_sinks gen_logging ''important.log'' = map fmt (filter filter_method1 (numbered gen_logging))"
    using important_log[OF plain_core_law] by blast
  also have "filter filter_method1 (numbered gen_logging) =
      [(log_sev None [] None warning ''level warning'')\<lparr>line_id := 2\<rparr>, (log_sev None [] None critical ''level critical'')\<lparr>line_id := 3\<rparr>,
       (log_sev (Some ''NOTICE'') [] None normal ''level normal'')\<lparr>line_id := 4\<rparr>]"
    by (simp add: gen_logging_def numbered_def filter_method1_def log_sev_def at_least_def normal_def warning_def critical_def)
  finally show ?thesis
    by (simp add: fmt_def log_sev_def d put_opt_def put_level_def level_strings_def warning_def critical_def normal_def)
qed

text \<open>
  The two visitors of \<open>utilities.cpp\<close> agree, for every dispatcher library with the documented laws: \<open>print\<close>
  (static dispatch on the types \<open>int\<close>, \<open>double\<close>, \<open>string\<close>) and \<open>print1\<close> (callbacks registered at run
  time) print the same line and give the same result for every value; the result is \<open>false\<close>,
  with nothing printed, exactly for a value of another type, and a value is only ever handed
  to the callback of its own type.
\<close>

theorem visitors_agree:
  assumes "disp_laws lib"
  shows "print1 lib v = print_static lib v \<and>
    print_static lib v = (case v of IntV i \<Rightarrow> ([GotInt i], True) | DoubleV d \<Rightarrow> ([GotDouble d], True)
      | StringV s \<Rightarrow> ([GotString s], True) | OtherV n x \<Rightarrow> ([], False))"
  using dispatch_callbacks[OF assms, of v] by (cases v) simp_all

definition fun_disp :: "(vtype \<Rightarrow> (('d, 'x) my_value \<Rightarrow> 'd received list) option, 'd, 'x) disp_lib" where
  "fun_disp = \<lparr>static_dispatcher = (\<lambda>ts f t. if t \<in> set ts then Some f else None), dynamic_dispatcher = (\<lambda>_. None),
     register_type = (\<lambda>t f b. b(t := Some f)), get_callback = (\<lambda>b. b)\<rparr>"

theorem visitors_agree_witness:
  "print1 fun_disp (StringV ''a'' :: (nat, nat) my_value) = ([GotString ''a''], True)"
proof -
  have "disp_laws fun_disp" by (simp add: disp_laws_def fun_disp_def)
  from visitors_agree[OF this, of "StringV ''a'' :: (nat, nat) my_value"] show ?thesis by simp
qed

text \<open>
  \<open>sample.log\<close> of \<open>log.cpp\<close>: seven records; the scope shows in the first, the tag in the second and the
  timer in the other five, those of the nested function included.
\<close>

lemma sample_log:
  assumes "core_law deliver"
  shows "deliver (sample_sinks put_scope) (sample_main clock) ''sample.log'' =
      map (sample_format put_scope) (numbered (sample_main clock)) \<and>
    map (\<lambda>r. (line_id r, scope r, tag_attr r, timeline r \<noteq> None)) (numbered (sample_main clock)) =
      [(1, [''named_scope_logging''], None, False), (2, [], Some ''My tag value'', False),
       (3, [], None, True), (4, [], None, True), (5, [], None, True), (6, [], None, True), (7, [], None, True)]"
proof
  show "deliver (sample_sinks put_scope) (sample_main clock) ''sample.log'' =
      map (sample_format put_scope) (numbered (sample_main clock))"
    using core_lawD[OF assms, of "sample_sinks put_scope" "hd (sample_sinks put_scope)"] by (simp add: sample_sinks_def)
qed (simp add: numbered_def sample_main_def named_scope_logging_def tagged_logging_def timed_logging_def logging_function_def
    rec_in_def log_sev_def)

text \<open>
  The four ways agree on a record with a severity of the right type. Without one, as in \<open>main\<close>, whose record has no
  attribute, the visitor and the lookup print nothing and the other two an empty line.
\<close>

lemma record_access:
  assumes "rec_laws lib"
  shows "find_attr lib rec ''Severity'' = Some v \<Longrightarrow> value_extract lib v = Some level \<Longrightarrow>
      via_record lib put rec = replicate 4 (put level)"
    and "find_attr lib rec ''Severity'' = None \<Longrightarrow> via_record lib put rec = ['''', '''']"
    and "find_attr lib rec ''Severity'' = Some v \<Longrightarrow> value_extract lib v = None \<Longrightarrow> via_record lib put rec = ['''', '''', '''']"
  using assms
  by (simp_all add: rec_laws_def via_record_def via_visitation_def via_extract_def via_lookup_def via_subscript_def put_opt_def eval_nat_numeral)

end
