(* ===== verification/Log_Ipc.thy ===== *)
theory Log_Ipc
  imports Time_Stamp
begin

text \<open>
  The two processes of \<open>code/boost_doc/log/src/detailed/text_ipc_backend.cpp\<close>: \<open>process1\<close> logs ten messages to a
  message queue, \<open>process2\<close> prints what it receives from it.

  The queue (\<open>boost::log::ipc::reliable_message_queue\<close>) is not part of the repository: its operations are the
  record \<open>queue_lib\<close>, an argument, with \<open>q_items\<close> the messages in it. Its documented behaviour is
  \<open>queue_laws\<close>: first in, first out; a message takes \<open>q_blocks\<close> blocks, and \<open>send\<close> goes through as
  long as the queue of capacity 256 has room for them (with \<open>block_on_overflow\<close> it waits
  otherwise, \<open>None\<close>); \<open>receive\<close> waits on an empty queue, and appends what it takes to the string it is given. The runs
  are those of two processes of which one executes \<open>process1\<close> and the other \<open>process2\<close>, after both have opened the
  queue and it is empty; \<open>main\<close> of the file calls \<open>process1\<close> only. \<open>prefix\<close> is the text of the three attributes in front of a
  message. The processes are interleaved in any order.
\<close>

record 'q queue_lib =
  q_send :: "'q \<Rightarrow> string \<Rightarrow> 'q option"
  q_receive :: "'q \<Rightarrow> (string \<times> 'q) option"
  q_items :: "'q \<Rightarrow> string list"
  q_blocks :: "string \<Rightarrow> nat"

definition capacity :: nat where "capacity = 256"

definition queue_laws :: "'q queue_lib \<Rightarrow> bool" where
  "queue_laws lib \<longleftrightarrow>
     (\<forall>q m q'. q_send lib q m = Some q' \<longrightarrow> q_items lib q' = q_items lib q @ [m]) \<and>
     (\<forall>q m. sum_list (map (q_blocks lib) (q_items lib q)) + q_blocks lib m \<le> capacity \<longrightarrow> q_send lib q m \<noteq> None) \<and>
     (\<forall>q. q_items lib q = [] \<longrightarrow> q_receive lib q = None) \<and>
     (\<forall>q m ms. q_items lib q = m # ms \<longrightarrow> (\<exists>q'. q_receive lib q = Some (m, q') \<and> q_items lib q' = ms))"

text \<open>The formatter of \<open>process1\<close> and its \<open>i\<close>-th message.\<close>

definition ipc_message :: "(nat \<Rightarrow> string) \<Rightarrow> nat \<Rightarrow> string" where
  "ipc_message prefix i = prefix i @ ''Message #'' @ dec i"

text \<open>\<open>viewed\<close> are the messages \<open>process2\<close> has printed, after its first line.\<close>

record 'q ipc =
  queue :: 'q
  sent :: nat
  message :: string
  viewed :: "string list"

definition process2_output :: "'q ipc \<Rightarrow> string list" where
  "process2_output s = ''Viewer process running...'' # viewed s"

text \<open>The body of the loop of \<open>process2\<close>: \<open>cout << message\<close> and \<open>message.clear()\<close>.\<close>

definition view_message :: "'q ipc \<Rightarrow> 'q ipc" where
  "view_message s = s\<lparr>viewed := viewed s @ [message s], message := []\<rparr>"

inductive ipc_step :: "'q queue_lib \<Rightarrow> (nat \<Rightarrow> string) \<Rightarrow> 'q ipc \<Rightarrow> 'q ipc \<Rightarrow> bool" for lib prefix where
  process1_log: "sent s < 10 \<Longrightarrow> q_send lib (queue s) (ipc_message prefix (sent s)) = Some q \<Longrightarrow>
     ipc_step lib prefix s (s\<lparr>queue := q, sent := sent s + 1\<rparr>)"
| process2_print: "q_receive lib (queue s) = Some (m, q) \<Longrightarrow>
     ipc_step lib prefix s (view_message (s\<lparr>queue := q, message := message s @ m\<rparr>))"

text \<open>
  The start, when neither process failed to open the queue; a process that fails prints the
  exception and takes no further part.
\<close>

definition ipc_init :: "'q queue_lib \<Rightarrow> (nat \<Rightarrow> string) \<Rightarrow> 'q ipc \<Rightarrow> bool" where
  "ipc_init lib prefix s \<longleftrightarrow> queue_laws lib \<and> (\<forall>i<10. q_blocks lib (ipc_message prefix i) \<le> 25) \<and>
     q_items lib (queue s) = [] \<and> sent s = 0 \<and> message s = [] \<and> viewed s = []"

inductive_cases ipc_stepE: "ipc_step lib prefix s t"

definition ipc_inv :: "'q queue_lib \<Rightarrow> (nat \<Rightarrow> string) \<Rightarrow> 'q ipc \<Rightarrow> bool" where
  "ipc_inv lib prefix s \<longleftrightarrow> queue_laws lib \<and> (\<forall>i<10. q_blocks lib (ipc_message prefix i) \<le> 25) \<and> sent s \<le> 10 \<and> message s = [] \<and>
     viewed s @ q_items lib (queue s) = map (ipc_message prefix) [0..<sent s]"

definition ipc_rank :: "'q queue_lib \<Rightarrow> 'q ipc \<Rightarrow> nat" where
  "ipc_rank lib s = 2 * (10 - sent s) + length (q_items lib (queue s))"

lemma received:
  assumes "queue_laws lib" and "q_receive lib q = Some (m, q')"
  shows "q_items lib q = m # q_items lib q'"
proof (cases "q_items lib q")
  case Nil
  with assms have "q_receive lib q = None" by (simp add: queue_laws_def)
  with assms(2) show ?thesis by simp
next
  case (Cons x xs)
  with assms obtain r where "q_receive lib q = Some (x, r)" "q_items lib r = xs" unfolding queue_laws_def by blast
  with assms(2) Cons show ?thesis by simp
qed

lemma sent_items:
  assumes "queue_laws lib" and "q_send lib q m = Some q'"
  shows "q_items lib q' = q_items lib q @ [m]"
  using assms unfolding queue_laws_def by blast

lemma ipc_inv_step:
  assumes inv: "ipc_inv lib prefix s" and step: "ipc_step lib prefix s t"
  shows "ipc_inv lib prefix t"
  using step
proof cases
  case (process1_log q)
  have "q_items lib q = q_items lib (queue s) @ [ipc_message prefix (sent s)]"
    using inv by (intro sent_items process1_log(3)) (simp add: ipc_inv_def)
  with inv process1_log show ?thesis by (simp add: ipc_inv_def)
next
  case (process2_print m q)
  have "q_items lib (queue s) = m # q_items lib q"
    using inv by (intro received process2_print(2)) (simp add: ipc_inv_def)
  with inv process2_print show ?thesis by (simp add: ipc_inv_def view_message_def)
qed

lemma ipc_rank_step:
  assumes inv: "ipc_inv lib prefix s" and step: "ipc_step lib prefix s t"
  shows "ipc_rank lib t < ipc_rank lib s"
  using step
proof cases
  case (process1_log q)
  have "q_items lib q = q_items lib (queue s) @ [ipc_message prefix (sent s)]"
    using inv by (intro sent_items process1_log(3)) (simp add: ipc_inv_def)
  with process1_log show ?thesis by (simp add: ipc_rank_def)
next
  case (process2_print m q)
  have "q_items lib (queue s) = m # q_items lib q"
    using inv by (intro received process2_print(2)) (simp add: ipc_inv_def)
  with process2_print show ?thesis by (simp add: ipc_rank_def view_message_def)
qed

text \<open>The ten messages never fill the queue, so the logging process is never held up.\<close>

lemma blocks_sum: "\<forall>m \<in> set ms. b m \<le> (25::nat) \<Longrightarrow> sum_list (map b ms) \<le> 25 * length ms"
  by (induction ms) auto

lemma ipc_room:
  assumes inv: "ipc_inv lib prefix s" and "sent s < 10"
  shows "\<exists>q. q_send lib (queue s) (ipc_message prefix (sent s)) = Some q"
proof -
  let ?b = "q_blocks lib"
  have b: "\<forall>i<10. ?b (ipc_message prefix i) \<le> 25" and laws: "queue_laws lib"
    and q: "viewed s @ q_items lib (queue s) = map (ipc_message prefix) [0..<sent s]" using inv by (simp_all add: ipc_inv_def)
  have "set (q_items lib (queue s)) \<subseteq> set (map (ipc_message prefix) [0..<sent s])"
    unfolding q[symmetric] by simp
  then have "\<forall>m \<in> set (q_items lib (queue s)). ?b m \<le> 25" using b assms(2) by auto
  then have "sum_list (map ?b (q_items lib (queue s))) \<le> 25 * length (q_items lib (queue s))" by (rule blocks_sum)
  moreover have "length (q_items lib (queue s)) \<le> sent s" using arg_cong[OF q, of length] by simp
  moreover have "?b (ipc_message prefix (sent s)) \<le> 25" using b assms(2) by blast
  ultimately have "sum_list (map ?b (q_items lib (queue s))) + ?b (ipc_message prefix (sent s)) \<le> capacity"
    using assms(2) by (simp add: capacity_def)
  with laws have "q_send lib (queue s) (ipc_message prefix (sent s)) \<noteq> None" unfolding queue_laws_def by blast
  then show ?thesis by simp
qed

lemma ipc_progress:
  assumes inv: "ipc_inv lib prefix s" and "\<not> (sent s = 10 \<and> q_items lib (queue s) = [])"
  shows "\<exists>t. ipc_step lib prefix s t"
proof (cases "q_items lib (queue s)")
  case Nil
  with assms have "sent s < 10" by (auto simp: ipc_inv_def)
  with ipc_room[OF inv this] show ?thesis by (blast intro: process1_log)
next
  case (Cons m ms)
  with inv obtain q where "q_receive lib (queue s) = Some (m, q)" unfolding ipc_inv_def queue_laws_def by blast
  then show ?thesis by (blast intro: process2_print)
qed

interpretation ipc: terminating_system "ipc_init lib prefix" "ipc_step lib prefix" "ipc_inv lib prefix" "ipc_rank lib"
  "\<lambda>s. sent s = 10 \<and> q_items lib (queue s) = []" for lib prefix
proof
  show "ipc_init lib prefix s \<Longrightarrow> ipc_inv lib prefix s" for s by (simp add: ipc_init_def ipc_inv_def)
qed (use ipc_inv_step ipc_rank_step ipc_progress in blast)+

subsection \<open>Properties\<close>

text \<open>
  The log reaches the viewer: for every queue with the documented laws and messages of at most 25 blocks,
  under every interleaving of the two processes, the viewer prints the messages in
  the order they are logged, none twice and none left out; the logging process is never held up by a full
  queue; and a run that can go no further has all ten messages printed.
\<close>

theorem ipc_log_delivered:
  assumes "reach (ipc_init lib prefix) (ipc_step lib prefix) s"
  shows "(\<exists>rest. viewed s @ rest = map (ipc_message prefix) [0..<10]) \<and>
    (sent s < 10 \<longrightarrow> (\<exists>t. ipc_step lib prefix s t \<and> sent t = sent s + 1)) \<and>
    ((\<forall>t. \<not> ipc_step lib prefix s t) \<longrightarrow> viewed s = map (ipc_message prefix) [0..<10])"
proof (intro conjI impI)
  have inv: "ipc_inv lib prefix s" using assms by (rule ipc.reach_holds)
  then have q: "viewed s @ q_items lib (queue s) = map (ipc_message prefix) [0..<sent s]" and le: "sent s \<le> 10"
    by (simp_all add: ipc_inv_def)
  have "[0..<10] = [0..<sent s] @ [sent s..<10]" using le upt_add_eq_append[of 0 "sent s" "10 - sent s"] by simp
  then have "viewed s @ (q_items lib (queue s) @ map (ipc_message prefix) [sent s..<10]) = map (ipc_message prefix) [0..<10]"
    using q by (simp flip: append_assoc map_append)
  then show "\<exists>rest. viewed s @ rest = map (ipc_message prefix) [0..<10]" by blast
  show "\<exists>t. ipc_step lib prefix s t \<and> sent t = sent s + 1" if lt: "sent s < 10"
  proof -
    obtain p where "q_send lib (queue s) (ipc_message prefix (sent s)) = Some p" using ipc_room[OF inv lt] by blast
    from process1_log[OF lt this] show ?thesis by (intro exI conjI) (assumption, simp)
  qed
  show "viewed s = map (ipc_message prefix) [0..<10]" if "\<forall>t. \<not> ipc_step lib prefix s t"
    using ipc.stuck_is_final[OF assms] that q by auto
qed

definition list_queue :: "string list queue_lib" where
  "list_queue = \<lparr>q_send = (\<lambda>q m. if length q < capacity then Some (q @ [m]) else None),
     q_receive = (\<lambda>q. case q of [] \<Rightarrow> None | m # ms \<Rightarrow> Some (m, ms)), q_items = (\<lambda>q. q), q_blocks = (\<lambda>_. 1)\<rparr>"

lemma list_queue_laws: "queue_laws list_queue"
  by (auto simp: queue_laws_def list_queue_def sum_list_triv split: list.splits)

theorem ipc_log_delivered_witness:
  "\<exists>s. reach (ipc_init list_queue (\<lambda>_. ''x'')) (ipc_step list_queue (\<lambda>_. ''x'')) s \<and>
    viewed s = map (ipc_message (\<lambda>_. ''x'')) [0..<10]"
proof -
  have "ipc_init list_queue (\<lambda>_. ''x'') \<lparr>queue = [], sent = 0, message = [], viewed = []\<rparr>"
    using list_queue_laws by (simp add: ipc_init_def) (simp add: list_queue_def)
  then obtain s where "reach (ipc_init list_queue (\<lambda>_. ''x'')) (ipc_step list_queue (\<lambda>_. ''x'')) s"
    "\<forall>t. \<not> ipc_step list_queue (\<lambda>_. ''x'') s t" using ipc.reach_end by blast
  with ipc_log_delivered[of list_queue "\<lambda>_. ''x''" s] show ?thesis by blast
qed

end
