(* ===== verification/Log_Attributes.thy ===== *)
theory Log_Attributes
  imports Prelude
begin

text \<open>
  Attributes, scopes and the global filter of the logging samples:
  \<open>code/boost_doc/log/src/tutorial/Attributes.cpp\<close>, \<open>trivial.cpp\<close>, \<open>simple_filter.cpp\<close>, \<open>sinks.cpp\<close>, and the
  backends of \<open>detailed/sink_backend.cpp\<close>.

  A function of these files is the list of the calls it makes on Boost.Log (\<open>log_call\<close>); the destructors of
  the scope sentries are calls at the end of the function. Boost.Log is an argument (\<open>log_lib\<close>):
  its state, its calls, and what can be observed of it (\<open>obs\<close>). \<open>log_laws\<close> says that a call has its
  documented effect (\<open>effect\<close>) on what can be observed: a record is opened with the attributes of the logger, the
  thread and the core, where the more specific wins, and with the names of the scopes only where a \<open>named_scope\<close> attribute is registered; an attribute is not added under a name that is taken,
  and a sentry removes only what it has added; a record is pushed if the filters, which do not see the message, let it pass. \<open>sinks\<close> stands for
  the filters of the sinks. Messages and names in Chinese are given in English.
\<close>

datatype attr = Constant string | Counter | LocalClock | NamedScope | Timer

type_synonym attrs = "string \<rightharpoonup> attr"

record entry =
  level :: nat
  message :: string
  attributes :: attrs
  scope :: "string \<rightharpoonup> string list"

datatype log_call =
    AddGlobal string attr
  | SetFilter nat                     \<comment> \<open>\<open>severity >= k\<close>\<close>
  | AddSink string
  | NewLogger nat
  | AddAttribute nat string attr
  | EnterThread string attr           \<comment> \<open>a scoped thread attribute\<close>
  | LeaveThread
  | EnterScope string
  | LeaveScope
  | Log nat nat string                \<comment> \<open>\<open>BOOST_LOG_SEV\<close>: the logger, the level, the message\<close>

record log_obs =
  globals :: attrs
  threads :: attrs
  sentries :: "string option list"    \<comment> \<open>the names the live sentries have added\<close>
  scopes :: "string list"
  loggers :: "nat \<Rightarrow> attrs"
  min_level :: "nat option"
  sink_names :: "string list"
  pushed :: "entry list"

definition obs_start :: log_obs where
  "obs_start = \<lparr>globals = Map.empty, threads = Map.empty, sentries = [], scopes = [], loggers = (\<lambda>_. Map.empty),
     min_level = None, sink_names = [], pushed = []\<rparr>"

definition add_absent :: "string \<Rightarrow> attr \<Rightarrow> attrs \<Rightarrow> attrs" where
  "add_absent n a m = (if m n = None then m(n \<mapsto> a) else m)"

text \<open>
  A record has the names of the scopes only as the value of a \<open>named_scope\<close> attribute that is registered
  for it, under the name of that attribute.
\<close>

definition scope_values :: "attrs \<Rightarrow> string list \<Rightarrow> string \<rightharpoonup> string list" where
  "scope_values m sc n = (if m n = Some NamedScope then Some sc else None)"

definition opened :: "log_obs \<Rightarrow> nat \<Rightarrow> nat \<Rightarrow> string \<Rightarrow> entry" where
  "opened v lg l msg = (let m = globals v ++ threads v ++ loggers v lg in
     \<lparr>level = l, message = msg, attributes = m, scope = scope_values m (scopes v)\<rparr>)"

definition passes :: "(entry \<Rightarrow> bool) \<Rightarrow> nat option \<Rightarrow> entry \<Rightarrow> bool" where
  "passes sinks min_lev e \<longleftrightarrow> sinks e \<and> (case min_lev of None \<Rightarrow> True | Some k \<Rightarrow> k \<le> level e)"

fun effect :: "(entry \<Rightarrow> bool) \<Rightarrow> log_call \<Rightarrow> log_obs \<Rightarrow> log_obs" where
  "effect sinks (AddGlobal n a) v = v\<lparr>globals := add_absent n a (globals v)\<rparr>"
| "effect sinks (SetFilter k) v = v\<lparr>min_level := Some k\<rparr>"
| "effect sinks (AddSink n) v = v\<lparr>sink_names := sink_names v @ [n]\<rparr>"
| "effect sinks (NewLogger lg) v = v\<lparr>loggers := (loggers v)(lg := Map.empty)\<rparr>"
| "effect sinks (AddAttribute lg n a) v = v\<lparr>loggers := (loggers v)(lg := add_absent n a (loggers v lg))\<rparr>"
| "effect sinks (EnterThread n a) v =
     v\<lparr>threads := add_absent n a (threads v), sentries := (if threads v n = None then Some n else None) # sentries v\<rparr>"
| "effect sinks LeaveThread v =
     (case sentries v of
        [] \<Rightarrow> v
      | None # ns \<Rightarrow> v\<lparr>sentries := ns\<rparr>
      | Some n # ns \<Rightarrow> v\<lparr>threads := (threads v)(n := None), sentries := ns\<rparr>)"
| "effect sinks (EnterScope n) v = v\<lparr>scopes := scopes v @ [n]\<rparr>"
| "effect sinks LeaveScope v = v\<lparr>scopes := butlast (scopes v)\<rparr>"
| "effect sinks (Log lg l msg) v =
     (if passes sinks (min_level v) (opened v lg l []) then v\<lparr>pushed := pushed v @ [opened v lg l msg]\<rparr> else v)"

text \<open>\<open>open_rec\<close> and \<open>push_rec\<close> are the two halves of a \<open>Log\<close> that \<open>manual_loggong\<close> calls itself.\<close>

record ('s, 'r) log_lib =
  start :: 's
  call :: "log_call \<Rightarrow> 's \<Rightarrow> 's"
  open_rec :: "nat \<Rightarrow> nat \<Rightarrow> 's \<Rightarrow> 'r option"
  stream_to :: "'r \<Rightarrow> string \<Rightarrow> 'r"
  push_rec :: "'r \<Rightarrow> 's \<Rightarrow> 's"
  obs :: "'s \<Rightarrow> log_obs"
  rec_of :: "'r \<Rightarrow> entry"

definition log_laws :: "(entry \<Rightarrow> bool) \<Rightarrow> ('s, 'r) log_lib \<Rightarrow> bool" where
  "log_laws sinks lib \<longleftrightarrow>
     obs lib (start lib) = obs_start \<and>
     (\<forall>c s. obs lib (call lib c s) = effect sinks c (obs lib s)) \<and>
     (\<forall>lg l s. map_option (rec_of lib) (open_rec lib lg l s) =
        (let e = opened (obs lib s) lg l [] in if passes sinks (min_level (obs lib s)) e then Some e else None)) \<and>
     (\<forall>r msg. rec_of lib (stream_to lib r msg) = (rec_of lib r)\<lparr>message := message (rec_of lib r) @ msg\<rparr>) \<and>
     (\<forall>r s. obs lib (push_rec lib r s) = (obs lib s)\<lparr>pushed := pushed (obs lib s) @ [rec_of lib r]\<rparr>)"

subsection \<open>\<open>Attributes.cpp\<close>\<close>

definition normal :: nat where "normal = 0"
definition notification :: nat where "notification = 1"
definition warning :: nat where "warning = 2"
definition error_level :: nat where "error_level = 3"
definition critical :: nat where "critical = 4"

text \<open>The functions; \<open>d\<close> is the logger a function declares, and those it calls declare the next ones.\<close>

definition init :: "nat \<Rightarrow> log_call list" where
  "init d = [NewLogger d, Log d normal ''level normal'', Log d notification ''level notification'', Log d warning ''level warning'',
     Log d error_level ''level error'', Log d critical ''level critical'']"

text \<open>The expansion of the macro, which \<open>manual_loggong\<close> and \<open>severity_logger_impl\<close> write out.\<close>

definition manual_log :: "('s, 'r) log_lib \<Rightarrow> nat \<Rightarrow> nat \<Rightarrow> string \<Rightarrow> 's \<Rightarrow> 's" where
  "manual_log lib lg l msg s =
     (case open_rec lib lg l s of
        None \<Rightarrow> s
      | Some rec \<Rightarrow> push_rec lib (stream_to lib rec msg) s)"

definition manual_loggong :: "('s, 'r) log_lib \<Rightarrow> nat \<Rightarrow> 's \<Rightarrow> 's" where
  "manual_loggong lib d s = manual_log lib d normal ''Some Message'' (call lib (NewLogger d) s)"

definition add_common_attributes :: "log_call list" where
  "add_common_attributes = [AddGlobal ''LineID'' Counter, AddGlobal ''TimeStamp'' LocalClock, AddGlobal ''Scope'' NamedScope]"

definition name_scope_logging :: "nat \<Rightarrow> log_call list" where
  "name_scope_logging d = [EnterScope ''name space'', NewLogger d, Log d critical ''named scope'', LeaveScope]"

definition tagged_logging :: "nat \<Rightarrow> log_call list" where
  "tagged_logging d = [NewLogger d, AddAttribute d ''Tag'' (Constant ''my tag''), Log d critical ''tagged'']"

definition timed_logging :: "nat \<Rightarrow> log_call list" where
  "timed_logging d = [EnterThread ''TimeLine'' Timer, NewLogger d, Log d normal ''Starting to time nested functions''] @
     init (d + 1) @ [Log d normal ''Stopping to time nested functions'', LeaveThread]"

subsection \<open>\<open>severity_logger_impl\<close> and \<open>via_global_logger\<close> of \<open>sources.cpp\<close>\<close>

text \<open>A record without a level gets the one the logger was made with (\<open>normal\<close>). The global logger \<open>g\<close> is made at its first use.\<close>

definition severity_logger_impl :: "('s, 'r) log_lib \<Rightarrow> nat \<Rightarrow> 's \<Rightarrow> 's" where
  "severity_logger_impl lib d s =
     manual_log lib d normal ''level normal''
       (fold (call lib) [NewLogger d, Log d normal ''default level'', Log d error_level ''level error'', Log d critical ''level critical''] s)"

definition via_global_logger :: "nat \<Rightarrow> log_call list" where
  "via_global_logger g = [AddAttribute g ''Channel'' (Constant ''custom_logger''), Log g normal ''Hello World'']"

subsection \<open>\<open>trivial.cpp\<close>, \<open>simple_filter.cpp\<close>, \<open>sinks.cpp\<close>\<close>

text \<open>The levels of \<open>boost::log::trivial\<close>; \<open>BOOST_LOG_TRIVIAL\<close> logs to a logger of the library (number 0).\<close>

datatype trivial_level = Trace | Debug | Info | Warning | Error | Fatal

fun trivial_num :: "trivial_level \<Rightarrow> nat" where
  "trivial_num Trace = 0" | "trivial_num Debug = 1" | "trivial_num Info = 2"
| "trivial_num Warning = 3" | "trivial_num Error = 4" | "trivial_num Fatal = 5"

fun level_name :: "trivial_level \<Rightarrow> string" where
  "level_name Trace = ''trace''" | "level_name Debug = ''debug''" | "level_name Info = ''info''"
| "level_name Warning = ''warning''" | "level_name Error = ''error''" | "level_name Fatal = ''fatal''"

definition log_trivial :: "trivial_level \<Rightarrow> log_call" where
  "log_trivial l = Log 0 (trivial_num l) (''this is a '' @ level_name l @ '' message'')"

definition all_levels :: "trivial_level list" where
  "all_levels = [Trace, Debug, Info, Warning, Error, Fatal]"

definition trivial_main :: "log_call list" where
  "trivial_main = SetFilter (trivial_num Warning) # map log_trivial all_levels"

definition simple_filter_main :: "log_call list" where
  "simple_filter_main = [SetFilter (trivial_num Error)]"

definition sinks_init :: "log_call list" where
  "sinks_init = [AddSink ''log_%3N.log'', SetFilter (trivial_num Info)]"

text \<open>\<open>logging::add_common_attributes\<close> of the library adds the number, the time, the process and the thread.\<close>

definition lib_common_attributes :: "log_call list" where
  "lib_common_attributes = [AddGlobal ''LineID'' Counter, AddGlobal ''TimeStamp'' LocalClock,
     AddGlobal ''ProcessID'' (Constant ''process''), AddGlobal ''ThreadID'' (Constant ''thread'')]"

definition sinks_main :: "log_call list" where
  "sinks_main = sinks_init @ lib_common_attributes @ [Log 0 (trivial_num Error) ''no time stamp''] @ map log_trivial all_levels"

subsection \<open>\<open>sink_backend.cpp\<close>\<close>

text \<open>
  The text backends: what a backend writes to each of its streams or files, given the records in the
  order they are consumed, is an argument with its documented law. \<open>t_f_b\<close> (rotation of files) configures the library only.
\<close>

record request_rec =
  RequestID :: "string option"
  smessage :: string

type_synonym streams_backend = "string list \<Rightarrow> (request_rec \<Rightarrow> string) \<Rightarrow> request_rec list \<Rightarrow> string \<Rightarrow> string list"

type_synonym multifile_backend = "(request_rec \<Rightarrow> string) \<Rightarrow> (request_rec \<Rightarrow> string) \<Rightarrow> request_rec list \<Rightarrow> string \<Rightarrow> string list"

definition streams_law :: "streams_backend \<Rightarrow> bool" where
  "streams_law b \<longleftrightarrow> (\<forall>streams format recs f. b streams format recs f = (if f \<in> set streams then map format recs else []))"

definition multifile_law :: "multifile_backend \<Rightarrow> bool" where
  "multifile_law b \<longleftrightarrow> (\<forall>composer format recs f. b composer format recs f = map format (filter (\<lambda>r. composer r = f) recs))"

definition put_attr :: "string option \<Rightarrow> string" where
  "put_attr a = (case a of None \<Rightarrow> [] | Some t \<Rightarrow> t)"

text \<open>Without a formatter the message is written.\<close>

definition t_s_b :: "streams_backend \<Rightarrow> request_rec list \<Rightarrow> string \<Rightarrow> string list" where
  "t_s_b backend = backend [''clog'', ''sample.log''] smessage"

definition file_name_composer :: "request_rec \<Rightarrow> string" where
  "file_name_composer r = ''logs/'' @ put_attr (RequestID r) @ ''.log''"

definition request_format :: "request_rec \<Rightarrow> string" where
  "request_format r = ''[RequestID: '' @ put_attr (RequestID r) @ ''] '' @ smessage r"

definition t_mf_b :: "multifile_backend \<Rightarrow> request_rec list \<Rightarrow> string \<Rightarrow> string list" where
  "t_mf_b backend = backend file_name_composer request_format"

subsection \<open>What the functions log\<close>

text \<open>The records, given the attributes of the core.\<close>

datatype fn = AddCommon | NameScope | Tagged | Init | Timed

fun calls_of :: "nat \<Rightarrow> fn \<Rightarrow> log_call list" where
  "calls_of d AddCommon = add_common_attributes"
| "calls_of d NameScope = name_scope_logging d"
| "calls_of d Tagged = tagged_logging d"
| "calls_of d Init = init d"
| "calls_of d Timed = timed_logging d"

definition init_lines :: "(nat \<times> string) list" where
  "init_lines = [(normal, ''level normal''), (notification, ''level notification''), (warning, ''level warning''),
     (error_level, ''level error''), (critical, ''level critical'')]"

definition plain :: "attrs \<Rightarrow> string list \<Rightarrow> nat \<times> string \<Rightarrow> entry" where
  "plain g sc x = \<lparr>level = fst x, message = snd x, attributes = g, scope = scope_values g sc\<rparr>"

fun entries_of :: "attrs \<Rightarrow> fn \<Rightarrow> entry list" where
  "entries_of g AddCommon = []"
| "entries_of g NameScope = [plain g [''name space''] (critical, ''named scope'')]"
| "entries_of g Tagged = [plain (g(''Tag'' \<mapsto> Constant ''my tag'')) [] (critical, ''tagged'')]"
| "entries_of g Init = map (plain g []) init_lines"
| "entries_of g Timed = map (plain (g(''TimeLine'' \<mapsto> Timer)) [])
     ([(normal, ''Starting to time nested functions'')] @ init_lines @ [(normal, ''Stopping to time nested functions'')])"

definition common :: attrs where
  "common = [''LineID'' \<mapsto> Counter, ''TimeStamp'' \<mapsto> LocalClock, ''Scope'' \<mapsto> NamedScope]"

fun session_entries :: "attrs \<Rightarrow> fn list \<Rightarrow> entry list" where
  "session_entries g [] = []"
| "session_entries g (f # fs) = entries_of g f @ session_entries (if f = AddCommon then common else g) fs"

definition let_through :: "(entry \<Rightarrow> bool) \<Rightarrow> nat option \<Rightarrow> entry \<Rightarrow> bool" where
  "let_through sinks k e = passes sinks k (e\<lparr>message := []\<rparr>)"

lemma obs_run: "log_laws sinks lib \<Longrightarrow> obs lib (fold (call lib) cs s) = fold (effect sinks) cs (obs lib s)"
  by (induction cs arbitrary: s) (simp_all add: log_laws_def)

lemma effect_log:
  "effect sinks (Log lg l msg) v = v\<lparr>pushed := pushed v @ filter (let_through sinks (min_level v)) [opened v lg l msg]\<rparr>"
  by (simp add: let_through_def opened_def Let_def)

lemma effect_logs:
  "fold (effect sinks) (map (\<lambda>x. Log lg (fst x) (snd x)) xs) v =
     v\<lparr>pushed := pushed v @ filter (let_through sinks (min_level v)) (map (\<lambda>x. opened v lg (fst x) (snd x)) xs)\<rparr>"
proof (induction xs arbitrary: v)
  case (Cons x xs)
  have o: "opened (v\<lparr>pushed := p\<rparr>) = opened v" for p by (simp add: opened_def Let_def fun_eq_iff)
  show ?case unfolding list.map fold_Cons o_apply effect_log Cons.IH o by simp
qed simp

lemma init_calls: "init d = NewLogger d # map (\<lambda>x. Log d (fst x) (snd x)) init_lines"
  by (simp add: init_def init_lines_def)

definition idle :: "attrs \<Rightarrow> log_obs \<Rightarrow> bool" where
  "idle g v \<longleftrightarrow> globals v = g \<and> threads v = Map.empty \<and> sentries v = [] \<and> scopes v = []"

lemma add_common_globals:
  "g = Map.empty \<or> g = common \<Longrightarrow> add_absent ''Scope'' NamedScope (add_absent ''TimeStamp'' LocalClock (add_absent ''LineID'' Counter g)) = common"
  by (auto simp: add_absent_def common_def)

lemma plain_fun: "plain g sc = (\<lambda>x. \<lparr>level = fst x, message = snd x, attributes = g, scope = scope_values g sc\<rparr>)"
  by (simp add: fun_eq_iff plain_def)

lemma fn_effect:
  assumes "idle g v" and "g = Map.empty \<or> g = common"
  shows "\<exists>L. fold (effect sinks) (calls_of d f) v =
    v\<lparr>loggers := L, globals := (if f = AddCommon then common else g),
      pushed := pushed v @ filter (let_through sinks (min_level v)) (entries_of g f)\<rparr>"
proof (cases f)
  case AddCommon
  have "fold (effect sinks) (calls_of d f) v = v\<lparr>globals := common\<rparr>"
    using assms AddCommon by (simp add: add_common_attributes_def add_common_globals idle_def)
  then show ?thesis using AddCommon by (intro exI[of _ "loggers v"]) simp
next
  case NameScope
  then show ?thesis using assms(1)
    by (cases v, intro exI[of _ "(loggers v)(d := Map.empty)"])
      (simp add: name_scope_logging_def effect_log opened_def Let_def plain_fun idle_def del: effect.simps(10))
next
  case Tagged
  then show ?thesis using assms(1)
    by (cases v, intro exI[of _ "(loggers v)(d := [''Tag'' \<mapsto> Constant ''my tag''])"])
      (simp add: tagged_logging_def effect_log opened_def Let_def plain_fun idle_def add_absent_def del: effect.simps(10))
next
  case Init
  then show ?thesis using assms(1)
    by (cases v, intro exI[of _ "(loggers v)(d := Map.empty)"])
      (simp add: init_calls effect_logs opened_def Let_def plain_fun idle_def)
next
  case Timed
  then show ?thesis using assms(1)
    by (cases v, intro exI[of _ "(loggers v)(d := Map.empty, d + 1 := Map.empty)"])
      (simp add: timed_logging_def init_calls effect_logs effect_log opened_def Let_def plain_fun idle_def add_absent_def
         del: effect.simps(10))
qed

lemma session_effect:
  assumes "idle g v" and "g = Map.empty \<or> g = common"
  shows "\<exists>L g'. fold (effect sinks) (concat (map (calls_of d) fs)) v =
    v\<lparr>loggers := L, globals := g', pushed := pushed v @ filter (let_through sinks (min_level v)) (session_entries g fs)\<rparr>"
  using assms
proof (induction fs arbitrary: g v)
  case Nil
  then show ?case by (intro exI[of _ "loggers v"] exI[of _ "globals v"]) simp
next
  case (Cons f fs)
  obtain L where L: "fold (effect sinks) (calls_of d f) v =
      v\<lparr>loggers := L, globals := (if f = AddCommon then common else g),
        pushed := pushed v @ filter (let_through sinks (min_level v)) (entries_of g f)\<rparr>" (is "_ = ?w")
    using fn_effect[OF Cons.prems] by blast
  have w: "idle (if f = AddCommon then common else g) ?w" "(if f = AddCommon then common else g) = Map.empty \<or> (if f = AddCommon then common else g) = common"
    using Cons.prems by (auto simp: idle_def)
  from Cons.IH[OF w] obtain L' g' where "fold (effect sinks) (concat (map (calls_of d) fs)) ?w =
      ?w\<lparr>loggers := L', globals := g', pushed := pushed ?w @ filter (let_through sinks (min_level ?w))
        (session_entries (if f = AddCommon then common else g) fs)\<rparr>" by blast
  then show ?case unfolding list.map concat.simps fold_append comp_apply L by (intro exI[of _ L'] exI[of _ g']) simp
qed

lemma idle_start: "idle Map.empty obs_start"
  by (simp add: idle_def obs_start_def)

text \<open>The expansion has the effect of the macro.\<close>

lemma manual_log_effect:
  assumes "log_laws sinks lib"
  shows "obs lib (manual_log lib lg l msg s) = effect sinks (Log lg l msg) (obs lib s)"
proof -
  have law: "map_option (rec_of lib) (open_rec lib lg l s) =
      (if passes sinks (min_level (obs lib s)) (opened (obs lib s) lg l []) then Some (opened (obs lib s) lg l []) else None)"
    "rec_of lib (stream_to lib r m) = (rec_of lib r)\<lparr>message := message (rec_of lib r) @ m\<rparr>"
    "obs lib (push_rec lib r x) = (obs lib x)\<lparr>pushed := pushed (obs lib x) @ [rec_of lib r]\<rparr>" for x r m
    using assms unfolding log_laws_def Let_def by blast+
  show ?thesis
  proof (cases "open_rec lib lg l s")
    case None
    with law(1) show ?thesis by (auto simp: manual_log_def split: if_splits)
  next
    case (Some r)
    with law(1) have "passes sinks (min_level (obs lib s)) (opened (obs lib s) lg l [])"
      "rec_of lib r = opened (obs lib s) lg l []" by (auto split: if_splits)
    with Some law(2,3) show ?thesis by (simp add: manual_log_def opened_def Let_def)
  qed
qed

lemma manual_is_macro:
  assumes "log_laws sinks lib"
  shows "obs lib (manual_loggong lib d s) = fold (effect sinks) [NewLogger d, Log d normal ''Some Message''] (obs lib s)"
  using manual_log_effect[OF assms] assms by (simp add: manual_loggong_def log_laws_def)

lemma severity_logger_records:
  assumes "log_laws (\<lambda>_. True) lib" and "min_level (obs lib s) = None"
  shows "map (\<lambda>e. (level e, message e)) (pushed (obs lib (severity_logger_impl lib d s))) =
    map (\<lambda>e. (level e, message e)) (pushed (obs lib s)) @
    [(normal, ''default level''), (error_level, ''level error''), (critical, ''level critical''), (normal, ''level normal'')]"
  unfolding severity_logger_impl_def manual_log_effect[OF assms(1)] obs_run[OF assms(1)]
  using assms(2) by (simp add: passes_def opened_def Let_def)

text \<open>What the global filters of \<open>trivial.cpp\<close> and \<open>sinks.cpp\<close> leave, with sinks that accept everything.\<close>

lemma trivial_records:
  "log_laws (\<lambda>_. True) lib \<Longrightarrow> map message (pushed (obs lib (fold (call lib) trivial_main (start lib)))) =
     [''this is a warning message'', ''this is a error message'', ''this is a fatal message'']"
  by (simp add: obs_run log_laws_def trivial_main_def all_levels_def log_trivial_def obs_start_def opened_def Let_def passes_def)

lemma sinks_records:
  "log_laws (\<lambda>_. True) lib \<Longrightarrow> map (\<lambda>e. (message e, attributes e ''TimeStamp'')) (pushed (obs lib (fold (call lib) sinks_main (start lib)))) =
     map (\<lambda>m. (m, Some LocalClock)) [''no time stamp'', ''this is a info message'', ''this is a warning message'',
       ''this is a error message'', ''this is a fatal message'']"
  by (simp add: obs_run log_laws_def sinks_main_def sinks_init_def lib_common_attributes_def all_levels_def log_trivial_def obs_start_def
      opened_def Let_def passes_def add_absent_def)

text \<open>Each request has a file of its own with its records in order; those without an identifier share one with the empty identifier.\<close>

lemma requests_separated:
  assumes "multifile_law backend"
  shows "t_mf_b backend recs (''logs/'' @ q @ ''.log'') =
    map (\<lambda>r. ''[RequestID: '' @ q @ ''] '' @ smessage r) (filter (\<lambda>r. put_attr (RequestID r) = q) recs)"
  using assms by (simp add: t_mf_b_def multifile_law_def file_name_composer_def request_format_def)

lemma streams_agree:
  "streams_law backend \<Longrightarrow> t_s_b backend recs ''clog'' = map smessage recs \<and> t_s_b backend recs ''sample.log'' = t_s_b backend recs ''clog''"
  by (simp add: t_s_b_def streams_law_def)

subsection \<open>Properties\<close>

text \<open>
  C22. Attributes last as long as their scope. Whatever functions of \<open>Attributes.cpp\<close> are called, in whatever order
  and however often, over a library that behaves as documented and with any filters of the sinks: the records pushed are, in order, those of
  the calls that the filters accept; a record carries \<open>TimeLine\<close> exactly inside \<open>timed_logging\<close> (also in the
  function it calls), \<open>Tag\<close> exactly for the logger of \<open>tagged_logging\<close>, and the global attributes from the first
  \<open>add_common_attributes\<close> on, which is also what registers \<open>Scope\<close>: before it no record carries a scope, not even
  in \<open>name_scope_logging\<close>; from then on the value of \<open>Scope\<close> is the scope's name in \<open>name_scope_logging\<close> and empty
  elsewhere. After every sequence no scope and no thread attribute is left. \<open>manual_loggong\<close> has the effect of the macro it
  spells out. (\<open>main\<close> has its calls of these functions commented out.)
\<close>

theorem attributes_scoped:
  assumes "log_laws sinks lib"
  shows "(\<exists>v. obs lib (fold (call lib) (concat (map (calls_of d) fs)) (start lib)) = v \<and>
      pushed v = filter (\<lambda>e. sinks (e\<lparr>message := []\<rparr>)) (session_entries Map.empty fs) \<and> threads v = Map.empty \<and> scopes v = []) \<and>
    obs lib (manual_loggong lib d s) = obs lib (fold (call lib) [NewLogger d, Log d normal ''Some Message''] s)"
proof
  have st: "obs lib (start lib) = obs_start" using assms by (simp add: log_laws_def)
  have "let_through sinks (min_level obs_start) = (\<lambda>e. sinks (e\<lparr>message := []\<rparr>))"
    by (simp add: fun_eq_iff let_through_def passes_def obs_start_def)
  then show "\<exists>v. obs lib (fold (call lib) (concat (map (calls_of d) fs)) (start lib)) = v \<and>
      pushed v = filter (\<lambda>e. sinks (e\<lparr>message := []\<rparr>)) (session_entries Map.empty fs) \<and> threads v = Map.empty \<and> scopes v = []"
    using session_effect[OF idle_start, of sinks d fs] unfolding obs_run[OF assms] st by (auto simp: obs_start_def)
  show "obs lib (manual_loggong lib d s) = obs lib (fold (call lib) [NewLogger d, Log d normal ''Some Message''] s)"
    unfolding manual_is_macro[OF assms] obs_run[OF assms] ..
qed

definition obs_lib :: "(entry \<Rightarrow> bool) \<Rightarrow> (log_obs, entry) log_lib" where
  "obs_lib sinks = \<lparr>start = obs_start, call = effect sinks,
     open_rec = (\<lambda>lg l v. let e = opened v lg l [] in if passes sinks (min_level v) e then Some e else None),
     stream_to = (\<lambda>e m. e\<lparr>message := message e @ m\<rparr>), push_rec = (\<lambda>e v. v\<lparr>pushed := pushed v @ [e]\<rparr>),
     obs = (\<lambda>v. v), rec_of = (\<lambda>e. e)\<rparr>"

theorem attributes_scoped_witness:
  "map (\<lambda>e. (message e, attributes e ''Tag'', scope e ''Scope''))
     (pushed (obs (obs_lib (\<lambda>e. 4 \<le> level e)) (fold (call (obs_lib (\<lambda>e. 4 \<le> level e)))
       (concat (map (calls_of 1) [NameScope, Tagged, AddCommon, NameScope])) (start (obs_lib (\<lambda>e. 4 \<le> level e))))))
   = [(''named scope'', None, None), (''tagged'', Some (Constant ''my tag''), None), (''named scope'', None, Some [''name space''])]"
proof -
  let ?lib = "obs_lib (\<lambda>e. 4 \<le> level e)"
  have "log_laws (\<lambda>e. 4 \<le> level e) ?lib" by (simp add: log_laws_def obs_lib_def Let_def)
  from conjunct1[OF attributes_scoped[OF this, of 1 "[NameScope, Tagged, AddCommon, NameScope]"]] show ?thesis
    by (auto simp: plain_def critical_def common_def scope_values_def)
qed

end
