(* ===== verification/Shm_Map.thy ===== *)
theory Shm_Map
  imports Posix_IO
begin

text \<open>
  \<open>code/IPC/SHM/Posix/mmap.cpp\<close>: a parent and a child that map the same 8 KiB of a file.

  The child prints the mapping block by block, each block once its last byte is not zero, and
  moves its pointer on; nothing stops the pointer at the end of the mapping. The contents of
  the file at each pass are an argument, since other processes can change them; so is whether
  \<open>mmap\<close> succeeded (after a failure the code only prints the error and goes on with the
  pointer \<open>MAP_FAILED\<close>, whose use is \<open>NullDeref\<close> here). The loop of the parent, whose body is commented out, is a
  \<open>partial_function\<close>: \<open>None\<close> is that it never ends.
\<close>

definition map_size :: nat where "map_size = 2 * 4 * 1024"

record viewer =
  offset :: nat
  written :: string

text \<open>One pass of the child's loop, between \<open>sem_wait\<close> and \<open>sem_post\<close>.\<close>

definition child_pass :: "string \<Rightarrow> viewer \<Rightarrow> c_error + viewer" where
  "child_pass zone s =
     (let last = 1023 in
      if map_size \<le> offset s + last then Inl (IndexOutOfRange (offset s + last))
      else if zone ! (offset s + last) \<noteq> NUL
      then Inr (s\<lparr>written := written s @ take 1024 (drop (offset s) zone), offset := offset s + 1024\<rparr>)
      else Inr s)"

definition child_main :: "bool \<Rightarrow> string list \<Rightarrow> c_error + viewer" where
  "child_main mapped zones =
     (if \<not> mapped \<and> zones \<noteq> [] then Inl NullDeref
      else foldE child_pass zones \<lparr>offset = 0, written = []\<rparr>)"

text \<open>The parent's loop: \<open>count\<close> is never changed.\<close>

partial_function (option) parent_loop :: "nat \<Rightarrow> nat option" where
  "parent_loop n = (if n < map_size then parent_loop n else Some n)"

text \<open>
  \<open>main\<close>: the results of \<open>open\<close>, \<open>sem_open\<close>, \<open>fork\<close> and \<open>mmap\<close> are arguments. The failures are printed by their
  line and the program goes on; waiting on \<open>SEM_FAILED\<close> is \<open>NullDeref\<close>, like the use of \<open>MAP_FAILED\<close>.
\<close>

datatype map_run = InChild "c_error + viewer" | InParent "nat option" | NoFork

definition map_main :: "int \<Rightarrow> bool \<Rightarrow> int \<Rightarrow> bool \<Rightarrow> string list \<Rightarrow> nat list \<times> map_run" where
  "map_main share_fd sem_ok pid mapped zones =
     (let early = (if share_fd < 0 then [22] else []) @ (if sem_ok then [] else [29]) in
      if pid = 0 then
        (early @ (if mapped then [] else [36]),
         InChild (if \<not> sem_ok \<and> zones \<noteq> [] then Inl NullDeref else child_main mapped zones))
      else if pid > 0 then (early @ (if mapped then [] else [52]), InParent (parent_loop 0))
      else (early, NoFork))"

text \<open>The number of leading blocks of the mapping whose last byte is not zero.\<close>

definition full_blocks :: "string \<Rightarrow> nat" where
  "full_blocks zone = length (takeWhile (\<lambda>b. zone ! (1024 * b + 1023) \<noteq> NUL) [0..<8])"

lemma full_blocks_le: "full_blocks zone \<le> 8"
  unfolding full_blocks_def using length_takeWhile_le[of _ "[0..<8]"] by simp

lemma full_block: "b < full_blocks zone \<Longrightarrow> zone ! (1024 * b + 1023) \<noteq> NUL"
proof -
  let ?P = "\<lambda>b. zone ! (1024 * b + 1023) \<noteq> NUL"
  assume b: "b < full_blocks zone"
  then have "takeWhile ?P [0..<8] ! b = [0..<8] ! b" unfolding full_blocks_def by (rule takeWhile_nth)
  moreover have "b < 8" using b full_blocks_le[of zone] by simp
  moreover have "takeWhile ?P [0..<8] ! b \<in> set (takeWhile ?P [0..<8])"
    using b unfolding full_blocks_def by (rule nth_mem)
  then have "?P (takeWhile ?P [0..<8] ! b)" by (rule conjunct2[OF set_takeWhileD])
  ultimately show ?thesis by (simp only: nth_upt add_0_left not_False_eq_True)
qed

lemma next_block: "full_blocks zone < 8 \<Longrightarrow> zone ! (1024 * full_blocks zone + 1023) = NUL"
  unfolding full_blocks_def using nth_length_takeWhile[of "\<lambda>b. zone ! (1024 * b + 1023) \<noteq> NUL" "[0..<8]"] by simp

lemma take_block: "take (1024 * n) zone @ take 1024 (drop (1024 * n) zone) = take (1024 * Suc n) zone"
  using take_add[of "1024 * n" 1024 zone] by (simp add: add.commute)

lemma child_passes:
  "n \<le> full_blocks zone \<Longrightarrow>
     foldE child_pass (replicate n zone) \<lparr>offset = 0, written = []\<rparr> = Inr \<lparr>offset = 1024 * n, written = take (1024 * n) zone\<rparr>"
proof (induction n)
  case (Suc n)
  have "replicate (Suc n) zone = replicate n zone @ [zone]" by (simp add: replicate_append_same)
  moreover have "n < 8" using Suc.prems full_blocks_le[of zone] by simp
  ultimately show ?case using Suc full_block[of n zone] take_block[of n zone]
    by (simp add: foldE_append child_pass_def map_size_def)
qed simp

lemma child_waits:
  assumes "k = full_blocks zone" and "k < 8"
  shows "foldE child_pass (replicate n zone) \<lparr>offset = 1024 * k, written = w\<rparr> = Inr \<lparr>offset = 1024 * k, written = w\<rparr>"
  using next_block[of zone] assms by (induction n) (simp_all add: child_pass_def map_size_def)

text \<open>The parent never leaves its loop.\<close>

lemma parent_never_ends: "parent_loop 0 = None"
proof -
  have stop: "parent_loop n = Some m \<Longrightarrow> \<not> n < map_size" for n m
    by (erule parent_loop.raw_induct[rotated]) (auto split: if_splits)
  show ?thesis
  proof (cases "parent_loop 0")
    case (Some m)
    from stop[OF this] show ?thesis by (simp add: map_size_def)
  qed
qed

text \<open>
  A file that cannot be opened (so that \<open>mmap\<close> of its descriptor fails) is reported twice, and the child goes
  on to the invalid pointer; the parent never ends whatever the calls return.
\<close>

lemma map_main_failures:
  "map_main (-1) True 0 False (zone # zones) = ([22, 36], InChild (Inl NullDeref))"
  "0 < pid \<Longrightarrow> snd (map_main share_fd sem_ok pid mapped zones) = InParent None"
  by (simp_all add: map_main_def child_main_def parent_never_ends)

subsection \<open>Properties\<close>

text \<open>
  C36. The child of \<open>mmap.cpp\<close> on a mapping that does not change: it prints the leading blocks whose last byte is
  not zero, in order and once each, and then waits at the first block that is not
  complete; when all eight blocks are complete, its ninth pass reads past the mapping.
\<close>

theorem child_prints_blocks:
  assumes "length zone = map_size"
  shows "child_main True (replicate n zone) =
    (if n \<le> full_blocks zone \<or> full_blocks zone < 8
     then Inr \<lparr>offset = 1024 * min n (full_blocks zone), written = take (1024 * min n (full_blocks zone)) zone\<rparr>
     else Inl (IndexOutOfRange (map_size + 1023)))"
proof (cases "n \<le> full_blocks zone")
  case True
  then show ?thesis using child_passes by (simp add: child_main_def min_def)
next
  case False
  then obtain m where m: "n = full_blocks zone + Suc m" by (metis less_imp_Suc_add not_le add_Suc_right)
  let ?k = "full_blocks zone"
  have split: "child_main True (replicate n zone) =
      foldE child_pass (replicate (Suc m) zone) \<lparr>offset = 1024 * ?k, written = take (1024 * ?k) zone\<rparr>"
    unfolding m child_main_def replicate_add foldE_append by (simp add: child_passes)
  show ?thesis
  proof (cases "?k < 8")
    case True
    then show ?thesis unfolding split using child_waits[OF refl True, of "Suc m"] False by simp
  next
    case k: False
    then have "?k = 8" using full_blocks_le[of zone] by simp
    then show ?thesis unfolding split using False by (simp add: child_pass_def map_size_def)
  qed
qed

theorem child_prints_blocks_witness:
  "child_main True (replicate 9 (replicate map_size (CHR ''x''))) = Inl (IndexOutOfRange 9215)"
proof -
  have "full_blocks (replicate map_size (CHR ''x'')) = 8"
    by (simp add: full_blocks_def map_size_def takeWhile_eq_all_conv[THEN iffD2])
  then show ?thesis using child_prints_blocks[of "replicate map_size (CHR ''x'')" 9] by (simp add: map_size_def)
qed

end
