(* ===== verification/Shared_Ptr.thy ===== *)
theory Shared_Ptr
  imports Prelude "HOL-Library.Multiset"
begin

text \<open>
  Shared ownership: \<open>code/lang/shared_ptr.cpp\<close> (a \<open>shared_ptr<int>\<close> that is copied into a call and into a
  thread) and \<open>code/lang/static_template.cpp\<close> (static members of a class template).

  A program is the list of the calls it makes on \<open>shared_ptr\<close> objects, which have numbers; a
  null pointer is a number that is not an owner. The count is one that the operations
  change, as in the library, and not the size of the set of owners: that the two agree
  is what is shown. Reading through a null pointer or after the object is deleted is an
  error. The pauses are left out; the thread runs at any time after its start. Identifiers of
  threads are left out of the output and its text is the number of the line.
\<close>

subsection \<open>\<open>shared_ptr\<close>\<close>

datatype ptr_error = NullPointer | UseAfterDelete

datatype call = New nat int | CopyTo nat nat | MoveTo nat nat | Release nat | Show nat nat | Start

record ptr =
  owners :: "nat set"
  use_count :: nat
  pointee :: int
  deletions :: nat
  shown :: "(nat \<times> nat \<times> int) list"

fun exec :: "call \<Rightarrow> ptr \<Rightarrow> ptr_error + ptr" where
  "exec (New h v) s = Inr (s\<lparr>owners := {h}, use_count := 1, pointee := v\<rparr>)"
| "exec (CopyTo d h) s =
     Inr (if h \<in> owners s then s\<lparr>owners := insert d (owners s), use_count := use_count s + 1\<rparr> else s)"
| "exec (MoveTo d h) s = Inr (if h \<in> owners s then s\<lparr>owners := insert d (owners s - {h})\<rparr> else s)"
| "exec (Release h) s =
     Inr (if h \<in> owners s
          then s\<lparr>owners := owners s - {h}, use_count := use_count s - 1,
                 deletions := deletions s + (if use_count s = 1 then 1 else 0)\<rparr>
          else s)"
| "exec (Show line h) s =
     (if h \<notin> owners s then Inl NullPointer
      else if 0 < deletions s then Inl UseAfterDelete
      else Inr (s\<lparr>shown := shown s @ [(line, use_count s, pointee s)]\<rparr>))"
| "exec Start s = Inr s"

text \<open>
  The owners: \<open>sp\<close> is 0, \<open>sp1\<close> is 1, the parameter of the direct call 2, the copy kept by the
  \<open>std::thread\<close> 3, the parameter of \<open>sub_thread\<close> in the thread 4.
\<close>

definition sub_thread :: "nat \<Rightarrow> call list" where
  "sub_thread sp = [Show 5 sp, Release sp]"

definition main_calls :: "call list" where
  "main_calls =
     [New 0 3, Show 1 0, CopyTo 1 0, Show 2 0, CopyTo 2 1] @ sub_thread 2 @
     [Show 3 0, CopyTo 3 0, Start, Show 4 0, Release 1, Release 0]"

definition thread_calls :: "call list" where
  "thread_calls = MoveTo 4 3 # sub_thread 4 @ [Release 3]"

record sp_state = ptr +
  main_code :: "call list"
  thread_code :: "call list"

definition sp_init :: sp_state where
  "sp_init = \<lparr>owners = {}, use_count = 0, pointee = 0, deletions = 0, shown = [], main_code = main_calls, thread_code = []\<rparr>"

text \<open>The state after a call: \<open>exec\<close> on the pointer, the codes as given.\<close>

definition put :: "ptr \<Rightarrow> call list \<Rightarrow> call list \<Rightarrow> sp_state" where
  "put p mc tc = \<lparr>owners = owners p, use_count = use_count p, pointee = pointee p, deletions = deletions p, shown = shown p,
     main_code = mc, thread_code = tc\<rparr>"

definition ptr_of :: "sp_state \<Rightarrow> ptr" where
  "ptr_of s = \<lparr>owners = owners s, use_count = use_count s, pointee = pointee s, deletions = deletions s, shown = shown s\<rparr>"

inductive sp_step :: "sp_state \<Rightarrow> sp_state \<Rightarrow> bool" where
  main_call: "main_code s = c # cs \<Longrightarrow> exec c (ptr_of s) = Inr p \<Longrightarrow>
     sp_step s (put p cs (if c = Start then thread_calls else thread_code s))"
| thread_call: "thread_code s = c # cs \<Longrightarrow> exec c (ptr_of s) = Inr p \<Longrightarrow> sp_step s (put p (main_code s) cs)"

inductive_cases sp_stepE: "sp_step s t"

text \<open>The next call of a thread is undefined.\<close>

definition faults :: "sp_state \<Rightarrow> bool" where
  "faults s \<longleftrightarrow> (\<exists>c cs e. (main_code s = c # cs \<or> thread_code s = c # cs) \<and> exec c (ptr_of s) = Inl e)"

subsection \<open>\<open>static_template.cpp\<close>\<close>

text \<open>
  The static member \<open>rs\<close> of \<open>TS<ReturnType>\<close> belongs to the class, so the objects of the loop share it. The
  addition of the type is an argument; the integer stays far from the bounds of its type and the
  floating-point sums are exact. \<open>info\<close> prints before \<open>sRt_fun\<close> doubles and returns.
\<close>

datatype 'a tline = Info string 'a | StaticFun | Result 'a

definition sv_fun :: "('a \<Rightarrow> 'a \<Rightarrow> 'a) \<Rightarrow> 'a \<Rightarrow> 'a" where
  "sv_fun add rs = add rs rs"

definition sRt_fun :: "('a \<Rightarrow> 'a \<Rightarrow> 'a) \<Rightarrow> 'a \<Rightarrow> 'a tline list \<times> 'a" where
  "sRt_fun add rs = ([StaticFun], sv_fun add rs)"

definition info :: "string \<Rightarrow> 'a \<Rightarrow> 'a tline list" where
  "info ss rs = [Info ss rs]"

fun ts_loop :: "('a \<Rightarrow> 'a \<Rightarrow> 'a) \<Rightarrow> string \<Rightarrow> nat \<Rightarrow> 'a \<Rightarrow> 'a tline list \<times> 'a" where
  "ts_loop add ss 0 rs = ([], rs)"
| "ts_loop add ss (Suc n) rs =
     (let (out, rs') = sRt_fun add rs; (rest, rs'') = ts_loop add ss n rs'
      in (info ss rs @ out @ [Result rs'] @ rest, rs''))"

definition ts_int :: "int tline list" where "ts_int = fst (ts_loop (+) ''int :: 1'' 3 1)"
definition ts_float :: "int tline list" where "ts_float = fst (ts_loop (+) ''float:: 1'' 3 10)"
definition ts_string :: "string tline list" where "ts_string = fst (ts_loop (@) ''string 1'' 3 ''100'')"

text \<open>The counts printed: of \<open>asp_int[0]\<close>, after the pointer \<open>info\<close> returned is gone, and of \<open>x\<close> in \<open>simple_test\<close>.\<close>

definition null_ptr :: ptr where
  "null_ptr = \<lparr>owners = {}, use_count = 0, pointee = 0, deletions = 0, shown = []\<rparr>"

definition asp_count :: "ptr_error + ptr" where
  "asp_count = foldE exec [New 0 0, CopyTo 1 0, Release 1, Show 0 0] null_ptr"

definition simple_test :: "ptr_error + ptr" where
  "simple_test = foldE exec [New 0 0, CopyTo 1 0, Show 0 1, Release 1, Release 0] null_ptr"

text \<open>The \<open>i\<close>-th object finds the member doubled \<open>i\<close> times by the ones before it.\<close>

lemma ts_loop_doubles:
  "ts_loop add ss n rs =
     (concat (map (\<lambda>i. [Info ss ((sv_fun add ^^ i) rs), StaticFun, Result ((sv_fun add ^^ Suc i) rs)]) [0..<n]), (sv_fun add ^^ n) rs)"
proof (induction n arbitrary: rs)
  case (Suc n)
  have "[0..<Suc n] = 0 # map Suc [0..<n]" by (simp add: upt_conv_Cons map_Suc_upt del: upt_Suc)
  then show ?case using Suc[of "sv_fun add rs"]
    by (simp add: sRt_fun_def info_def funpow_swap1 comp_def del: upt_Suc)
qed simp

lemma ts_int_lines:
  "ts_int = [Info ''int :: 1'' 1, StaticFun, Result 2, Info ''int :: 1'' 2, StaticFun, Result 4, Info ''int :: 1'' 4, StaticFun, Result 8]"
  by (simp add: ts_int_def sRt_fun_def info_def sv_fun_def eval_nat_numeral)

lemma ts_counts:
  "(\<exists>p. asp_count = Inr p \<and> shown p = [(0, 1, 0)]) \<and> (\<exists>p. simple_test = Inr p \<and> shown p = [(0, 2, 0)] \<and> deletions p = 1)"
  by (simp add: asp_count_def simple_test_def null_ptr_def)

subsection \<open>The interleavings\<close>

text \<open>The owners when \<open>main\<close> has made \<open>m\<close> calls and the thread \<open>c\<close>.\<close>

definition owners_at :: "nat \<Rightarrow> nat \<Rightarrow> nat set" where
  "owners_at m c = (if 1 \<le> m \<and> m \<le> 12 then {0} else {}) \<union> (if 3 \<le> m \<and> m \<le> 11 then {1} else {}) \<union>
     (if 5 \<le> m \<and> m \<le> 6 then {2} else {}) \<union> (if 9 \<le> m \<and> c = 0 then {3} else {}) \<union> (if c = 1 \<or> c = 2 then {4} else {})"

text \<open>
  The lines: the first four are fixed; line 4 of \<open>main\<close> and line 5 of the thread come in any order,
  with the counts given.
\<close>

definition first_lines :: "(nat \<times> nat \<times> int) list" where
  "first_lines = [(1, 1, 3), (2, 2, 3), (5, 3, 3), (3, 2, 3)]"

definition line_ok :: "nat \<times> nat \<times> int \<Rightarrow> bool" where
  "line_ok l \<longleftrightarrow> l \<in> {(4, 2, 3), (4, 3, 3), (5, 1, 3), (5, 2, 3), (5, 3, 3)}"

definition lines_at :: "nat \<Rightarrow> nat \<Rightarrow> (nat \<times> nat \<times> int) list \<Rightarrow> bool" where
  "lines_at m c out \<longleftrightarrow>
     (if m \<le> 7 then out = take (if m \<le> 1 then 0 else if m \<le> 3 then 1 else if m \<le> 5 then 2 else 3) first_lines
      else \<exists>rest. out = first_lines @ rest \<and> list_all line_ok rest \<and>
        mset (map fst rest) = (if 11 \<le> m then {#4#} else {#}) + (if 2 \<le> c then {#5#} else {#}))"

definition uses_at :: "nat \<Rightarrow> nat \<Rightarrow> nat" where
  "uses_at m c = (if 1 \<le> m \<and> m \<le> 12 then 1 else 0) + (if 3 \<le> m \<and> m \<le> 11 then 1 else 0) +
     (if 5 \<le> m \<and> m \<le> 6 then 1 else 0) + (if 9 \<le> m \<and> c \<le> 2 then 1 else 0)"

definition ptr_at :: "nat \<Rightarrow> nat \<Rightarrow> (nat \<times> nat \<times> int) list \<Rightarrow> ptr" where
  "ptr_at m c out = \<lparr>owners = owners_at m c, use_count = uses_at m c, pointee = (if m = 0 then 0 else 3),
     deletions = (if m = 13 \<and> 3 \<le> c then 1 else 0), shown = out\<rparr>"

definition at_ok :: "nat \<Rightarrow> nat \<Rightarrow> (nat \<times> nat \<times> int) list \<Rightarrow> bool" where
  "at_ok m c out \<longleftrightarrow> m \<le> 13 \<and> c \<le> 4 \<and> (m < 10 \<longrightarrow> c = 0) \<and> lines_at m c out"

definition state_at :: "nat \<times> nat \<times> (nat \<times> nat \<times> int) list \<Rightarrow> sp_state" where
  "state_at = (\<lambda>(m, c, out). put (ptr_at m c out) (drop m main_calls) (if m < 10 then [] else drop c thread_calls))"

lemma calls_length: "length main_calls = 13" "length thread_calls = 4"
  by (simp_all add: main_calls_def thread_calls_def sub_thread_def)

lemma uses_card: "(m < 10 \<longrightarrow> c = 0) \<Longrightarrow> card (owners_at m c) = uses_at m c"
  by (auto simp: owners_at_def uses_at_def card_insert_if)

lemma upto_13: "m < 13 \<Longrightarrow> m = 0 \<or> m = 1 \<or> m = 2 \<or> m = 3 \<or> m = 4 \<or> m = 5 \<or> m = 6 \<or> m = 7 \<or> m = 8 \<or> m = 9 \<or> m = 10 \<or> m = 11 \<or> m = (12::nat)"
  by presburger

definition shows_at :: "call \<Rightarrow> nat \<Rightarrow> nat \<Rightarrow> (nat \<times> nat \<times> int) list" where
  "shows_at k m c = (case k of Show l h \<Rightarrow> [(l, uses_at m c, 3)] | _ \<Rightarrow> [])"

lemmas at_defs = main_calls_def thread_calls_def sub_thread_def ptr_at_def owners_at_def uses_at_def shows_at_def

lemma main_exec:
  assumes "m < 13" and "m < 10 \<longrightarrow> c = 0"
  shows "exec (main_calls ! m) (ptr_at m c out) = Inr (ptr_at (Suc m) c (out @ shows_at (main_calls ! m) m c))"
  using upto_13[OF assms(1)] assms(2) by (elim disjE) (auto simp: at_defs)

lemma main_lines:
  assumes "m < 13" and "m < 10 \<longrightarrow> c = 0" and "lines_at m c out"
  shows "lines_at (Suc m) c (out @ shows_at (main_calls ! m) m c)"
proof (cases "m = 10")
  case True
  with assms obtain rest where r: "out = first_lines @ rest" "list_all line_ok rest"
    "mset (map fst rest) = (if 2 \<le> c then {#5#} else {#})" by (auto simp: lines_at_def)
  have "shows_at (main_calls ! m) m c = [(4, if c \<le> 2 then 3 else 2, 3)]" using True by (simp add: at_defs)
  with True r show ?thesis
    by (intro lines_at_def[THEN iffD2]) (auto simp: line_ok_def intro!: exI[of _ "rest @ [(4, if c \<le> 2 then 3 else 2, 3)]"])
next
  case False
  then show ?thesis using upto_13[OF assms(1)] assms(2,3)
    by (elim disjE) (simp_all add: at_defs lines_at_def first_lines_def)
qed

lemma upto_4: "c < 4 \<Longrightarrow> c = 0 \<or> c = 1 \<or> c = 2 \<or> c = (3::nat)"
  by presburger

lemma from_10: "10 \<le> m \<Longrightarrow> m \<le> 13 \<Longrightarrow> m = 10 \<or> m = 11 \<or> m = 12 \<or> m = (13::nat)"
  by presburger

lemma thread_exec:
  assumes "c < 4" and "10 \<le> m" and "m \<le> 13"
  shows "exec (thread_calls ! c) (ptr_at m c out) = Inr (ptr_at m (Suc c) (out @ shows_at (thread_calls ! c) m c))"
  using upto_4[OF assms(1)] from_10[OF assms(2,3)] by (elim disjE) (auto simp: at_defs)

lemma thread_lines:
  assumes "c < 4" and "10 \<le> m" and "m \<le> 13" and "lines_at m c out"
  shows "lines_at m (Suc c) (out @ shows_at (thread_calls ! c) m c)"
proof (cases "c = 1")
  case True
  from assms True obtain rest where r: "out = first_lines @ rest" "list_all line_ok rest"
    "mset (map fst rest) = (if 11 \<le> m then {#4#} else {#})" by (auto simp: lines_at_def)
  have u: "shows_at (thread_calls ! c) m c = [(5, uses_at m c, 3)]" using True by (simp add: at_defs)
  have "line_ok (5, uses_at m c, 3)" using True from_10[OF assms(2,3)] by (elim disjE) (simp_all add: line_ok_def uses_at_def)
  with True r u assms(2) show ?thesis
    by (intro lines_at_def[THEN iffD2]) (auto intro!: exI[of _ "rest @ [(5, uses_at m c, 3)]"])
next
  case False
  then show ?thesis using upto_4[OF assms(1)] assms(2,4)
    by (elim disjE) (simp_all add: at_defs lines_at_def)
qed

lemma ptr_of_put [simp]: "ptr_of (put p mc tc) = p" and main_code_put [simp]: "main_code (put p mc tc) = mc"
  and thread_code_put [simp]: "thread_code (put p mc tc) = tc"
  by (simp_all add: ptr_of_def put_def)

lemma put_eq_iff [simp]: "put p mc tc = put p' mc' tc' \<longleftrightarrow> p = p' \<and> mc = mc' \<and> tc = tc'"
  by (metis ptr_of_put main_code_put thread_code_put)

lemma drop_main: "m < 13 \<Longrightarrow> drop m main_calls = main_calls ! m # drop (Suc m) main_calls"
  and drop_thread: "c < 4 \<Longrightarrow> drop c thread_calls = thread_calls ! c # drop (Suc c) thread_calls"
  by (simp_all add: Cons_nth_drop_Suc calls_length)

lemma main_start: "m < 13 \<Longrightarrow> main_calls ! m = Start \<longleftrightarrow> m = 9"
  by (drule upto_13, elim disjE) (simp_all add: main_calls_def sub_thread_def)

lemma drop_Cons_less: "drop n xs = y # ys \<Longrightarrow> n < length xs"
  by (metis drop_all linorder_not_less list.distinct(1))

text \<open>One step of \<open>main\<close> or of the thread moves the parameters.\<close>

lemma state_at_step:
  assumes ok: "at_ok m c out" and step: "sp_step (state_at (m, c, out)) t"
  shows "(\<exists>out'. at_ok (Suc m) c out' \<and> t = state_at (Suc m, c, out')) \<or> (\<exists>out'. at_ok m (Suc c) out' \<and> t = state_at (m, Suc c, out'))"
  using step
proof cases
  case (main_call k cs p)
  then have m: "m < 13" using drop_Cons_less[of m main_calls k cs] by (simp add: state_at_def calls_length)
  then have k: "k = main_calls ! m" "cs = drop (Suc m) main_calls" using main_call(2) by (simp_all add: state_at_def drop_main)
  let ?o = "out @ shows_at k m c"
  have "p = ptr_at (Suc m) c ?o" using main_call(3) main_exec[of m c out] ok m k by (simp add: state_at_def at_ok_def)
  moreover have "at_ok (Suc m) c ?o" using main_lines[of m c out] ok m k by (auto simp: at_ok_def)
  moreover have "(if k = Start then thread_calls else thread_code (state_at (m, c, out))) = (if Suc m < 10 then [] else drop c thread_calls)"
    using main_start[OF m] ok k by (auto simp: state_at_def at_ok_def)
  ultimately show ?thesis using main_call(1) k by (auto simp: state_at_def)
next
  case (thread_call k cs p)
  then have m: "10 \<le> m" and c: "c < 4" using drop_Cons_less[of c thread_calls k cs] by (auto simp: state_at_def calls_length split: if_splits)
  have m13: "m \<le> 13" using ok by (simp add: at_ok_def)
  from c m have k: "k = thread_calls ! c" "cs = drop (Suc c) thread_calls" using thread_call(2) by (simp_all add: state_at_def drop_thread)
  let ?o = "out @ shows_at k m c"
  have "p = ptr_at m (Suc c) ?o" using thread_call(3) thread_exec[OF c m m13, of out] k by (simp add: state_at_def)
  moreover have "at_ok m (Suc c) ?o" using thread_lines[OF c m m13, of out] ok m c k by (auto simp: at_ok_def)
  ultimately show ?thesis using thread_call(1) k m by (auto simp: state_at_def)
qed

lemma state_at_init: "state_at (0, 0, []) = sp_init" "at_ok 0 0 []"
  by (simp_all add: state_at_def put_def ptr_at_def owners_at_def uses_at_def sp_init_def at_ok_def lines_at_def)

interpretation sp: state_family "\<lambda>s. s = sp_init" sp_step state_at "\<lambda>(m, c, out). at_ok m c out"
proof
  show "s = sp_init \<Longrightarrow> \<exists>p. (case p of (m, c, out) \<Rightarrow> at_ok m c out) \<and> s = state_at p" for s
    using state_at_init by (intro exI[of _ "(0, 0, [])"]) simp
  show "(case p of (m, c, out) \<Rightarrow> at_ok m c out) \<Longrightarrow> sp_step (state_at p) t \<Longrightarrow>
      \<exists>q. (case q of (m, c, out) \<Rightarrow> at_ok m c out) \<and> t = state_at q" for p t
    using state_at_step[of "fst p" "fst (snd p)" "snd (snd p)" t] by (fastforce simp: case_prod_unfold)
qed

text \<open>Both programs end.\<close>

definition calls_left :: "sp_state \<Rightarrow> nat" where
  "calls_left s = length (main_code s) + (if length (main_code s) \<le> 3 then length (thread_code s) else 4)"

lemma calls_left_at: "m \<le> 13 \<Longrightarrow> c \<le> 4 \<Longrightarrow> (m < 10 \<longrightarrow> c = 0) \<Longrightarrow> calls_left (state_at (m, c, out)) = (13 - m) + (4 - c)"
  by (auto simp: calls_left_def state_at_def calls_length)

interpretation sp_live: ranked_system "\<lambda>s. s = sp_init" sp_step "\<lambda>s. \<exists>p. (case p of (m, c, out) \<Rightarrow> at_ok m c out) \<and> s = state_at p" calls_left
proof
  show "\<exists>p. (case p of (m, c, out) \<Rightarrow> at_ok m c out) \<and> s = state_at p \<Longrightarrow> sp_step s t \<Longrightarrow> calls_left t < calls_left s" for s t
  proof (elim exE conjE)
    fix p assume p: "case p of (m, c, out) \<Rightarrow> at_ok m c out" "s = state_at p" and step: "sp_step s t"
    obtain m c out where mco: "p = (m, c, out)" by (cases p)
    from state_at_step[of m c out t] p step mco consider
      (main) out' where "at_ok (Suc m) c out'" "t = state_at (Suc m, c, out')"
      | (sub) out' where "at_ok m (Suc c) out'" "t = state_at (m, Suc c, out')" by auto
    then show "calls_left t < calls_left s"
      using p mco by cases (auto simp: at_ok_def calls_left_at)
  qed
qed

subsection \<open>Properties\<close>

text \<open>
  C37. \<open>shared_ptr.cpp\<close> under every interleaving of \<open>main\<close> and its thread: no call is undefined; the count is the number of owners
  at every moment; the object is deleted when there is no owner left and not before, once; and when both have
  ended the lines printed are 1, 2, 5 and 3 with the counts 1, 2, 3, 2 as in the comment of the
  file, then 4 and the 5 of the thread in either order, where the comment's counts 3 and 1 are one of
  the possibilities.
\<close>

theorem shared_ptr_safe:
  assumes "reach (\<lambda>s. s = sp_init) sp_step s"
  shows "\<not> faults s \<and> use_count s = card (owners s) \<and> deletions s \<le> 1 \<and> (owners s \<noteq> {} \<longrightarrow> deletions s = 0) \<and>
    ((\<forall>t. \<not> sp_step s t) \<longrightarrow> owners s = {} \<and> deletions s = 1 \<and>
      (\<exists>a b. shown s = first_lines @ [a, b] \<and> line_ok a \<and> line_ok b \<and> {fst a, fst b} = {4, 5}))"
proof -
  obtain m c out where s: "s = state_at (m, c, out)" and ok: "at_ok m c out" using sp.reach_holds[OF assms] by auto
  have mc: "m \<le> 13" "c \<le> 4" "m < 10 \<longrightarrow> c = 0" using ok by (simp_all add: at_ok_def)
  have sel: "ptr_of s = ptr_at m c out" "owners s = owners_at m c" "use_count s = uses_at m c"
    "deletions s = (if m = 13 \<and> 3 \<le> c then 1 else 0)" "shown s = out"
    by (simp_all add: s state_at_def) (simp_all add: put_def ptr_at_def)
  have codes: "main_code s = drop m main_calls" "thread_code s = (if m < 10 then [] else drop c thread_calls)"
    by (simp_all add: s state_at_def)
  have run: "m < 13 \<Longrightarrow> \<exists>p. exec (main_calls ! m) (ptr_of s) = Inr p" "10 \<le> m \<Longrightarrow> c < 4 \<Longrightarrow> \<exists>p. exec (thread_calls ! c) (ptr_of s) = Inr p"
    using main_exec[of m c out] thread_exec[of c m out] mc sel(1) by auto
  have "\<not> faults s"
    using run drop_main[of m] drop_thread[of c] mc
    by (cases "m < 13"; cases "c < 4") (auto simp: faults_def codes calls_length split: if_splits)
  moreover have "use_count s = card (owners s)" using uses_card mc sel by simp
  moreover have "deletions s \<le> 1" "owners s \<noteq> {} \<longrightarrow> deletions s = 0" by (auto simp: sel owners_at_def)
  moreover have "owners s = {} \<and> deletions s = 1 \<and>
      (\<exists>a b. shown s = first_lines @ [a, b] \<and> line_ok a \<and> line_ok b \<and> {fst a, fst b} = {4, 5})" if stuck: "\<forall>t. \<not> sp_step s t"
  proof -
    have "m = 13" using run(1) main_call[of s "main_calls ! m"] stuck drop_main[of m] codes mc(1) by fastforce
    moreover have "c = 4" using run(2) thread_call[of s "thread_calls ! c"] stuck drop_thread[of c] codes mc(2) \<open>m = 13\<close> by fastforce
    moreover obtain rest where "out = first_lines @ rest" "list_all line_ok rest" "mset (map fst rest) = {#4, 5#}"
      using ok \<open>m = 13\<close> \<open>c = 4\<close> by (auto simp: at_ok_def lines_at_def add_mset_commute)
    moreover from this(3) obtain a b where r: "rest = [a, b]"
      by (metis length_map size_mset size_add_mset size_empty length_0_conv length_Suc_conv)
    moreover have "{fst a, fst b} = {4, 5}"
      using arg_cong[OF calculation(5), of set_mset] r by simp
    ultimately show ?thesis by (simp add: sel owners_at_def)
  qed
  ultimately show ?thesis by blast
qed

theorem shared_ptr_safe_witness:
  "\<exists>s. reach (\<lambda>s. s = sp_init) sp_step s \<and> deletions s = 1 \<and> length (shown s) = 6"
proof -
  obtain s where s: "reach (\<lambda>s. s = sp_init) sp_step s" "\<forall>t. \<not> sp_step s t" using sp_live.reach_end by blast
  from shared_ptr_safe[OF s(1)] s(2) obtain a b where "deletions s = 1" "shown s = first_lines @ [a, b]" by blast
  with s(1) show ?thesis by (auto simp: first_lines_def)
qed

end
