(* ===== verification/Value_Category.thy ===== *)
theory Value_Category
  imports Main
begin

text \<open>
  Overload resolution by value category: \<open>code/lang/forward.cpp\<close> (\<open>std::forward\<close> with three template arguments),
  \<open>code/lang/template_func_overload.cpp\<close> (specialisations and overloads of function templates) and
  \<open>code/lang/function_sig.cpp\<close> (overloads on \<open>const\<close>).

  The part of the language the files use is modelled: a type is a base type with at most one
  reference; references to references collapse; the parameter of a forwarding reference is deduced from
  the category of its argument; \<open>std::forward<T>(x)\<close> is \<open>static_cast<T&&>(x)\<close>; of two function templates that accept an
  argument equally well the more specialised is called. The name of a variable is an lvalue whatever its type. A
  function prints which of its versions was called.
\<close>

datatype base = CInt | CFloat | CChar
datatype ref = NoRef | LRef | RRef
datatype category = Lvalue | Rvalue

type_synonym ty = "base \<times> ref"

datatype expr = Lit base | Name base ref | MoveOf expr

fun base_of :: "expr \<Rightarrow> base" where
  "base_of (Lit b) = b"
| "base_of (Name b r) = b"
| "base_of (MoveOf e) = base_of e"

fun category_of :: "expr \<Rightarrow> category" where
  "category_of (Lit b) = Rvalue"
| "category_of (Name b r) = Lvalue"
| "category_of (MoveOf e) = Rvalue"

text \<open>\<open>T&\<close> and \<open>T&&\<close>\<close>

fun add_lref :: "ty \<Rightarrow> ty" where
  "add_lref (b, r) = (b, LRef)"

fun add_rref :: "ty \<Rightarrow> ty" where
  "add_rref (b, LRef) = (b, LRef)"
| "add_rref (b, r) = (b, RRef)"

text \<open>The deduction of \<open>P\<close> for a parameter \<open>P&&\<close>, and for a parameter \<open>P&\<close>, which no rvalue can bind to.\<close>

definition deduce_forwarding :: "base \<Rightarrow> category \<Rightarrow> ty" where
  "deduce_forwarding b c = (b, if c = Lvalue then LRef else NoRef)"

definition deduce_lvalue :: "base \<Rightarrow> category \<Rightarrow> ty option" where
  "deduce_lvalue b c = (if c = Lvalue then Some (b, NoRef) else None)"

text \<open>The category of \<open>std::forward<T>(parameter)\<close>.\<close>

definition std_forward :: "ty \<Rightarrow> category" where
  "std_forward T = (if snd (add_rref T) = LRef then Lvalue else Rvalue)"

subsection \<open>\<open>forward.cpp\<close>\<close>

text \<open>
  The two overloads of \<open>test_forward\<close> and the categories their parameters bind to; a call prints the version
  that is viable (\<open>None\<close>: no version or more than one, an error of compilation).
\<close>

datatype tf_version = IntLRef | IntRRef

definition binds :: "tf_version \<Rightarrow> category \<Rightarrow> bool" where
  "binds v c = (case v of IntLRef \<Rightarrow> c = Lvalue | IntRRef \<Rightarrow> c = Rvalue)"

definition test_forward :: "category \<Rightarrow> tf_version option" where
  "test_forward c = (case filter (\<lambda>v. binds v c) [IntLRef, IntRRef] of [v] \<Rightarrow> Some v | _ \<Rightarrow> None)"

definition forward_test :: "expr \<Rightarrow> tf_version option list" where
  "forward_test e =
     (let P = deduce_forwarding (base_of e) (category_of e)
      in [test_forward (std_forward (add_rref P)), test_forward (std_forward (add_lref P)), test_forward (std_forward P)])"

definition forward_main :: "tf_version option list list" where
  "forward_main = map forward_test
     [Lit CInt, Name CInt NoRef, Name CInt LRef, Name CInt RRef, MoveOf (Name CInt NoRef)]"

subsection \<open>\<open>template_func_overload.cpp\<close>\<close>

datatype version = RvalueTemplate | LvalueTemplate | Template | IntRvalue | IntLvalue

text \<open>
  \<open>fun\<close>: the template with \<open>ParamType&&\<close> accepts everything, the one with \<open>ParamType&\<close> the lvalues; both bind an
  lvalue alike, and then the second is more specialised.
\<close>

definition viable :: "base \<Rightarrow> category \<Rightarrow> version list" where
  "viable b c = RvalueTemplate # (if deduce_lvalue b c \<noteq> None then [LvalueTemplate] else [])"

definition more_specialised :: "version \<Rightarrow> version \<Rightarrow> bool" where
  "more_specialised v w \<longleftrightarrow> v = LvalueTemplate \<and> w = RvalueTemplate"

definition best :: "version list \<Rightarrow> version option" where
  "best vs = List.find (\<lambda>v. \<forall>w \<in> set vs. w = v \<or> more_specialised v w) vs"

definition fun_call :: "base \<Rightarrow> category \<Rightarrow> version list" where
  "fun_call b c = (case best (viable b c) of None \<Rightarrow> [] | Some v \<Rightarrow> [v])"

text \<open>\<open>test\<close>: the full specialisations are those for \<open>ParamType = int\<close> and \<open>ParamType = int&\<close>.\<close>

definition overload_test :: "expr \<Rightarrow> version list" where
  "overload_test e =
     (let P = deduce_forwarding (base_of e) (category_of e)
      in if P = (CInt, NoRef) then [IntRvalue]
         else if P = (CInt, LRef) then [IntLvalue]
         else Template # fun_call (base_of e) (std_forward P))"

definition overload_main :: "version list list" where
  "overload_main =
     (let a = Name CInt NoRef; b = Name CInt LRef; c = Name CInt RRef; x = Name CFloat NoRef; y = Name CChar NoRef
      in map overload_test
        [a, b, c, Lit CInt, MoveOf a, MoveOf b, MoveOf c, Lit CFloat, x, MoveOf x, Lit CChar, y, MoveOf y])"

subsection \<open>\<open>function_sig.cpp\<close>\<close>

datatype member = FunMutable int | FunConst int | JustOne

text \<open>The member called on an object that is \<open>const\<close> or not; \<open>just_one\<close> has only the \<open>const\<close> version.\<close>

definition Test_fun :: "bool \<Rightarrow> int \<Rightarrow> member" where
  "Test_fun is_const i = (if is_const then FunConst i else FunMutable i)"

definition sig_main :: "member list" where
  "sig_main = [Test_fun True 12, JustOne, Test_fun False 12, JustOne]"

subsection \<open>Properties\<close>

lemma forward_deduced: "std_forward (deduce_forwarding b c) = c"
  by (cases c) (simp_all add: std_forward_def deduce_forwarding_def)

lemma forward_rref: "std_forward (add_rref T) = std_forward T"
  by (cases T; cases "snd T") (simp_all add: std_forward_def)

lemma forward_lref: "std_forward (add_lref T) = Lvalue"
  by (cases T) (simp add: std_forward_def)

text \<open>
  Whatever the argument, \<open>std::forward<ParamType>\<close> hands on its value category, and so does
  \<open>std::forward<ParamType&&>\<close>; \<open>std::forward<ParamType&>\<close> always gives an lvalue.
\<close>

definition version_for :: "category \<Rightarrow> tf_version" where
  "version_for c = (if c = Lvalue then IntLRef else IntRRef)"

lemma test_forward_version: "test_forward c = Some (version_for c)"
  by (cases c) (simp_all add: test_forward_def binds_def version_for_def)

lemma forward_test_versions:
  "forward_test e = map Some [version_for (category_of e), IntLRef, version_for (category_of e)]"
  by (simp add: forward_test_def test_forward_version forward_rref forward_lref forward_deduced Let_def)
    (simp add: version_for_def)

text \<open>
  The version of \<open>test\<close> called is, for \<open>int\<close>, the specialisation of the category of the argument, and otherwise the
  template, which calls the version of \<open>fun\<close> for that category.
\<close>

lemma overload_test_versions:
  "overload_test e =
     (if base_of e = CInt then [if category_of e = Lvalue then IntLvalue else IntRvalue]
      else [Template, if category_of e = Lvalue then LvalueTemplate else RvalueTemplate])"
proof -
  have "fun_call b c = [if c = Lvalue then LvalueTemplate else RvalueTemplate]" for b c
    by (cases c) (simp_all add: fun_call_def best_def viable_def deduce_lvalue_def more_specialised_def)
  then show ?thesis
    by (cases "category_of e") (simp_all add: overload_test_def forward_deduced Let_def, simp_all add: deduce_forwarding_def)
qed

text \<open>What the two programs print: a variable of type \<open>int&&\<close> is forwarded as an lvalue.\<close>

lemma forward_main_lines:
  "forward_main = map (map Some) [[IntRRef, IntLRef, IntRRef], [IntLRef, IntLRef, IntLRef], [IntLRef, IntLRef, IntLRef],
     [IntLRef, IntLRef, IntLRef], [IntRRef, IntLRef, IntRRef]]"
  by code_simp

lemma overload_main_lines:
  "overload_main = [[IntLvalue], [IntLvalue], [IntLvalue], [IntRvalue], [IntRvalue], [IntRvalue], [IntRvalue],
     [Template, RvalueTemplate], [Template, LvalueTemplate], [Template, RvalueTemplate],
     [Template, RvalueTemplate], [Template, LvalueTemplate], [Template, RvalueTemplate]]"
  by code_simp

end
