(* ===== verification/Call_Once.thy ===== *)
theory Call_Once
  imports Prelude "HOL-Library.Multiset" "HOL-Library.Word"
begin

text \<open>
  \<open>code/concurrent/call_once.cpp\<close>: two rounds of detached threads and three \<open>call_once\<close> on one flag, all of which run the
  function that counts its calls in an atomic variable and prints the count.

  The threads differ only in their identifier, which is left out of the output: the ones started that have
  not counted yet are a number, the counts taken and not yet printed a multiset. The
  count and its printing are two steps, so the lines come in any order. The
  number of threads of the machine is an argument, as an unsigned word: with 0 (unknown) the bound of
  the loops wraps around, and their \<open>int\<close> index overflows before it is reached (\<open>None\<close>). The pauses are
  left out. The return of \<open>main\<close> ends the threads that are still running, so a run may stop in any
  state in which \<open>main\<close> is at its end.
\<close>

definition int_max :: int where "int_max = 2 ^ 31 - 1"

text \<open>\<open>for(int i = 0; i < std::thread::hardware_concurrency() - 1; ++i)\<close>: the number of passes.\<close>

definition passes :: "32 word \<Rightarrow> nat option" where
  "passes hw = (let n = unat (hw - 1) in if int n \<le> int_max then Some n else None)"

text \<open>\<open>++times\<close> on \<open>atomic<int>\<close> wraps around.\<close>

definition wrap32 :: "int \<Rightarrow> int" where
  "wrap32 x = (x + 2 ^ 31) mod 2 ^ 32 - 2 ^ 31"

text \<open>
  Where \<open>main\<close> is: in the first loop, with \<open>j\<close> calls of \<open>call_once\<close> to go, inside the function with a
  count to print, in the second loop.
\<close>

datatype pc = First nat | Calls nat | CallPrint nat int | Second nat

record once_state =
  pc :: pc
  flag :: bool
  times :: int
  ready :: nat
  holding :: "int multiset"
  printed :: "int list"

definition once_init :: "once_state \<Rightarrow> bool" where
  "once_init s \<longleftrightarrow> s = \<lparr>pc = First 0, flag = False, times = 0, ready = 0, holding = {#}, printed = []\<rparr>"

inductive once_step :: "nat \<Rightarrow> once_state \<Rightarrow> once_state \<Rightarrow> bool" for n where
  first_spawn: "pc s = First i \<Longrightarrow> i < n \<Longrightarrow> once_step n s (s\<lparr>pc := First (i + 1), ready := ready s + 1\<rparr>)"
| first_end: "pc s = First i \<Longrightarrow> \<not> i < n \<Longrightarrow> once_step n s (s\<lparr>pc := Calls 3\<rparr>)"
| call_again: "pc s = Calls (Suc j) \<Longrightarrow> flag s \<Longrightarrow> once_step n s (s\<lparr>pc := Calls j\<rparr>)"
| call_count: "pc s = Calls (Suc j) \<Longrightarrow> \<not> flag s \<Longrightarrow>
     once_step n s (s\<lparr>pc := CallPrint j (wrap32 (times s + 1)), times := wrap32 (times s + 1)\<rparr>)"
| call_print: "pc s = CallPrint j k \<Longrightarrow> once_step n s (s\<lparr>pc := Calls j, flag := True, printed := printed s @ [k]\<rparr>)"
| calls_end: "pc s = Calls 0 \<Longrightarrow> once_step n s (s\<lparr>pc := Second 0\<rparr>)"
| second_spawn: "pc s = Second i \<Longrightarrow> i < n \<Longrightarrow> once_step n s (s\<lparr>pc := Second (i + 1), ready := ready s + 1\<rparr>)"
| thread_count: "0 < ready s \<Longrightarrow> once_step n s (s\<lparr>ready := ready s - 1, times := wrap32 (times s + 1),
     holding := add_mset (wrap32 (times s + 1)) (holding s)\<rparr>)"
| thread_print: "k \<in># holding s \<Longrightarrow> once_step n s (s\<lparr>holding := holding s - {#k#}, printed := printed s @ [k]\<rparr>)"

inductive_cases once_stepE: "once_step n s t"

subsection \<open>Invariant\<close>

text \<open>The calls of the function that \<open>main\<close> and the threads it has not started will still make.\<close>

fun due :: "nat \<Rightarrow> pc \<Rightarrow> bool \<Rightarrow> nat" where
  "due n (First i) f = (n - i) + 1 + n"
| "due n (Calls j) f = (if f then n else n + 1)"
| "due n (CallPrint j k) f = n"
| "due n (Second i) f = n - i"

fun pc_ok :: "nat \<Rightarrow> pc \<Rightarrow> bool \<Rightarrow> bool" where
  "pc_ok n (First i) f \<longleftrightarrow> i \<le> n \<and> \<not> f"
| "pc_ok n (Calls j) f \<longleftrightarrow> (if f then j \<le> 2 else j = 3)"
| "pc_ok n (CallPrint j k) f \<longleftrightarrow> j = 2 \<and> \<not> f"
| "pc_ok n (Second i) f \<longleftrightarrow> i \<le> n \<and> f"

fun in_call :: "pc \<Rightarrow> int multiset" where
  "in_call (CallPrint j k) = {#k#}"
| "in_call _ = {#}"

definition once_inv :: "nat \<Rightarrow> once_state \<Rightarrow> bool" where
  "once_inv n s \<longleftrightarrow> 2 * int n + 1 \<le> int_max \<and> pc_ok n (pc s) (flag s) \<and> 0 \<le> times s \<and>
     times s + int (ready s) + int (due n (pc s) (flag s)) = 2 * int n + 1 \<and>
     mset (printed s) + holding s + in_call (pc s) = mset [1..times s]"

lemma wrap32_small: "0 \<le> x \<Longrightarrow> x \<le> int_max \<Longrightarrow> wrap32 x = x"
  by (simp add: wrap32_def int_max_def)

lemma upto_snoc: "0 \<le> t \<Longrightarrow> mset [1..t + 1] = add_mset (t + 1) (mset [1..(t::int)])"
  using upto_rec2[of 1 "t + 1"] by simp

lemma once_inv_step:
  assumes inv: "once_inv n s" and step: "once_step n s t"
  shows "once_inv n t"
  using step
proof cases
  case (call_count j)
  then have "wrap32 (times s + 1) = times s + 1" using inv by (intro wrap32_small) (auto simp: once_inv_def)
  with inv call_count show ?thesis by (auto simp: once_inv_def upto_snoc)
next
  case thread_count
  then have "wrap32 (times s + 1) = times s + 1" using inv by (intro wrap32_small) (auto simp: once_inv_def)
  with inv thread_count show ?thesis by (auto simp: once_inv_def upto_snoc)
next
  case (thread_print k)
  then obtain h where "holding s = add_mset k h" by (meson multi_member_split)
  with inv thread_print show ?thesis by (auto simp: once_inv_def)
qed (use inv in \<open>auto simp: once_inv_def split: if_splits\<close>)

text \<open>What is left to do.\<close>

fun pc_rank :: "nat \<Rightarrow> pc \<Rightarrow> nat" where
  "pc_rank n (First i) = 3 * (n - i) + 3 * n + 10"
| "pc_rank n (Calls j) = 3 * n + 2 * j + 2"
| "pc_rank n (CallPrint j k) = 3 * n + 2 * j + 3"
| "pc_rank n (Second i) = 3 * (n - i)"

definition once_rank :: "nat \<Rightarrow> once_state \<Rightarrow> nat" where
  "once_rank n s = pc_rank n (pc s) + 2 * ready s + size (holding s)"

definition once_final :: "nat \<Rightarrow> once_state \<Rightarrow> bool" where
  "once_final n s \<longleftrightarrow> pc s = Second n \<and> ready s = 0 \<and> holding s = {#}"

lemma once_rank_step: "once_inv n s \<Longrightarrow> once_step n s t \<Longrightarrow> once_rank n t < once_rank n s"
  by (erule once_stepE) (auto simp: once_rank_def size_Diff_singleton dest!: multi_member_split)

lemma once_progress:
  assumes inv: "once_inv n s" and "\<not> once_final n s"
  shows "\<exists>t. once_step n s t"
proof (cases "ready s = 0 \<and> holding s = {#}")
  case True
  show ?thesis
  proof (cases "pc s")
    case (First i)
    then show ?thesis by (cases "i < n") (blast intro: first_spawn first_end)+
  next
    case (Calls j)
    then show ?thesis by (cases j; cases "flag s") (blast intro: call_again call_count calls_end)+
  next
    case (CallPrint j k)
    then show ?thesis by (blast intro: call_print)
  next
    case (Second i)
    with assms True have "i < n" by (auto simp: once_final_def once_inv_def)
    with Second show ?thesis by (blast intro: second_spawn)
  qed
next
  case False
  then consider "0 < ready s" | k where "k \<in># holding s" by auto
  then show ?thesis by cases (blast intro: thread_count thread_print)+
qed

interpretation once: terminating_system "\<lambda>s. once_init s \<and> 2 * int n + 1 \<le> int_max" "once_step n" "once_inv n" "once_rank n" "once_final n"
  for n
proof
  show "once_init s \<and> 2 * int n + 1 \<le> int_max \<Longrightarrow> once_inv n s" for s by (simp add: once_init_def once_inv_def)
qed (use once_inv_step once_rank_step once_progress in blast)+

subsection \<open>Properties\<close>

lemma passes_word: "passes hw = (if hw = 0 \<or> 2 ^ 31 < unat hw then None else Some (unat hw - 1))"
proof (cases "hw = 0")
  case True
  have "unat (- 1 :: 32 word) = 2 ^ 32 - 1" by (simp add: unsigned_minus_1_eq_mask mask_eq_exp_minus_1)
  with True show ?thesis by (simp add: passes_def int_max_def)
next
  case False
  then have "0 < unat hw" by (simp add: unat_gt_0)
  moreover have "unat (hw - 1) = unat hw - 1" using False by (simp add: unat_minus_one)
  ultimately show ?thesis using False by (auto simp: passes_def int_max_def Let_def)
qed

text \<open>
  C38. \<open>call_once.cpp\<close> on a machine with \<open>hw\<close> threads, as long as the counter does not overflow: under every interleaving no
  count is printed twice and all are in range; a run that can go no further, whichever it is, has printed the
  counts from 1 to \<open>2 (hw - 1) + 1\<close>, each once: the threads' and, of the three calls of \<open>call_once\<close>, a single one.
\<close>

theorem once_counts:
  assumes "passes hw = Some n" and "unat hw \<le> 2 ^ 30" and "reach once_init (once_step n) s"
  shows "distinct (printed s) \<and> set (printed s) \<subseteq> {1..2 * int (unat hw) - 1} \<and>
    ((\<forall>t. \<not> once_step n s t) \<longrightarrow> mset (printed s) = mset [1..2 * int (unat hw) - 1])"
proof -
  have n: "n = unat hw - 1" "0 < unat hw" using assms(1) by (auto simp: passes_word unat_gt_0 split: if_splits)
  then have b: "2 * int n + 1 = 2 * int (unat hw) - 1" "2 * int n + 1 \<le> int_max"
    using assms(2) by (cases "unat hw"; simp del: of_nat_unat add: int_max_def)+
  then have r: "reach (\<lambda>s. once_init s \<and> 2 * int n + 1 \<le> int_max) (once_step n) s" using assms(3) by simp
  have inv: "once_inv n s" using r by (rule once.reach_holds)
  then have all: "mset (printed s) + holding s + in_call (pc s) = mset [1..times s]" and le: "times s \<le> 2 * int n + 1"
    by (auto simp: once_inv_def)
  have sub: "mset (printed s) \<subseteq># mset [1..times s]" unfolding all[symmetric] by (simp add: mset_subset_eq_add_left add.assoc)
  obtain rest where "mset rest = holding s + in_call (pc s)" using ex_mset by blast
  then have "mset (printed s @ rest) = mset [1..times s]" using all by (simp add: add.assoc)
  then have "distinct (printed s @ rest)" using mset_eq_imp_distinct_iff distinct_upto by blast
  then have "distinct (printed s)" by simp
  moreover have "set (printed s) \<subseteq> {1..2 * int (unat hw) - 1}" using set_mset_mono[OF sub] le b(1) by auto
  moreover have "mset (printed s) = mset [1..2 * int (unat hw) - 1]" if "\<forall>t. \<not> once_step n s t"
  proof -
    have "once_final n s" using once.stuck_is_final[OF r] that by blast
    then have "pc s = Second n" "ready s = 0" "holding s = {#}" by (simp_all add: once_final_def)
    moreover from this have "times s = 2 * int n + 1" using inv by (simp add: once_inv_def)
    ultimately show ?thesis using all b(1) by simp
  qed
  ultimately show ?thesis by blast
qed

theorem once_counts_witness:
  "\<exists>s. reach once_init (once_step 3) s \<and> mset (printed s) = mset [1, 2, 3, 4, 5, 6, 7]"
proof -
  have "once_init \<lparr>pc = First 0, flag = False, times = 0, ready = 0, holding = {#}, printed = []\<rparr>" by (simp add: once_init_def)
  then obtain s where s: "reach once_init (once_step 3) s" "\<forall>t. \<not> once_step 3 s t"
    using once.reach_end[of _ 3] by (auto simp: int_max_def)
  have "passes 4 = Some 3" by (simp add: passes_word)
  from once_counts[OF this _ s(1)] s(2) have "mset (printed s) = mset [1..7]" by simp
  moreover have "[1..7] = [1, 2, 3, 4, 5, 6, 7::int]" by (simp add: upto.simps)
  ultimately show ?thesis using s(1) by (intro exI[of _ s]) (simp only: simp_thms)
qed

end
