(* ===== verification/Containers.thy ===== *)
theory Containers
  imports Main "HOL-Library.Multiset" "HOL-Library.Monad_Syntax" "HOL-Library.Countable"
begin

text \<open>
  Small programs over containers: \<open>code/boost_doc/IO/serlizrlisze.cpp\<close> (an object written to an archive and read
  back), \<open>code/boost_doc/DS/any.cpp\<close> (a list of \<open>boost::any\<close>), \<open>code/lang/param_iter.cpp\<close> (sorting through
  reverse iterators) and \<open>code/boost_doc/Tool/progress_bar.cpp\<close> (a loop that indexes a vector with its own elements).

  Boost.Serialization is the record \<open>arch_lib\<close>, an argument: \<open>save\<close> is the text of an archive after the given
  values were written, \<open>open_in\<close> an archive over a text, \<open>load\<close> the next value of the kind
  asked for (\<open>None\<close>: an exception). Its documented behaviour is \<open>arch_laws\<close>: values loaded in the order
  and with the kinds they were saved with come back. A \<open>std::map\<close> is the list of its pairs in the order of the keys.
\<close>

subsection \<open>\<open>serlizrlisze.cpp\<close>\<close>

record data_obj =
  a_field :: int
  str_field :: string
  vi :: "int list"
  msi :: "(string \<times> int) list"

text \<open>\<open>Data::Data\<close>\<close>

definition new_data :: data_obj where
  "new_data = \<lparr>a_field = 1, str_field = ''Hello World'', vi = [1, 2, 3, 4, 5], msi = [(''1'', 1), (''2'', 2)]\<rparr>"

datatype item = IString string | IInts "int list" | IMap "(string \<times> int) list"
datatype kind = KString | KInts | KMap

fun kind_of :: "item \<Rightarrow> kind" where
  "kind_of (IString s) = KString" | "kind_of (IInts xs) = KInts" | "kind_of (IMap m) = KMap"

record 'i arch_lib =
  save :: "item list \<Rightarrow> string"
  open_in :: "string \<Rightarrow> 'i option"
  load :: "kind \<Rightarrow> 'i \<Rightarrow> (item \<times> 'i) option"

fun loads :: "'i arch_lib \<Rightarrow> kind list \<Rightarrow> 'i \<Rightarrow> item list option" where
  "loads lib [] i = Some []"
| "loads lib (k # ks) i = do { (x, i') \<leftarrow> load lib k i; xs \<leftarrow> loads lib ks i'; Some (x # xs) }"

definition arch_laws :: "'i arch_lib \<Rightarrow> bool" where
  "arch_laws lib \<longleftrightarrow> (\<forall>xs. Option.bind (open_in lib (save lib xs)) (loads lib (map kind_of xs)) = Some xs)"

text \<open>
  \<open>ar & x\<close> of either archive: an output archive notes the value and leaves it, an input archive gives
  the next value of that kind in its place. \<open>serialize\<close> is one function for both.
\<close>

datatype 'i archive = Out "item list" | In 'i

fun amp :: "'i arch_lib \<Rightarrow> item \<Rightarrow> 'i archive \<Rightarrow> (item \<times> 'i archive) option" where
  "amp lib x (Out xs) = Some (x, Out (xs @ [x]))"
| "amp lib x (In i) = do { (y, i') \<leftarrow> load lib (kind_of x) i; Some (y, In i') }"

fun the_string :: "item \<Rightarrow> string" where "the_string (IString s) = s" | "the_string _ = []"
fun the_ints :: "item \<Rightarrow> int list" where "the_ints (IInts xs) = xs" | "the_ints _ = []"
fun the_map :: "item \<Rightarrow> (string \<times> int) list" where "the_map (IMap m) = m" | "the_map _ = []"

definition serialize :: "'i arch_lib \<Rightarrow> 'i archive \<Rightarrow> data_obj \<Rightarrow> (data_obj \<times> 'i archive) option" where
  "serialize lib ar d =
     do { (x, ar) \<leftarrow> amp lib (IString (str_field d)) ar;
          (y, ar) \<leftarrow> amp lib (IInts (vi d)) ar;
          (z, ar) \<leftarrow> amp lib (IMap (msi d)) ar;
          Some (d\<lparr>str_field := the_string x, vi := the_ints y, msi := the_map z\<rparr>, ar) }"

text \<open>\<open>oa << a\<close>: the text in the file; \<open>oi >> b\<close>: the object after it.\<close>

definition write_data :: "'i arch_lib \<Rightarrow> data_obj \<Rightarrow> string option" where
  "write_data lib a = do { (_, ar) \<leftarrow> serialize lib (Out []) a; (case ar of Out xs \<Rightarrow> Some (save lib xs) | In _ \<Rightarrow> None) }"

definition read_data :: "'i arch_lib \<Rightarrow> string \<Rightarrow> data_obj \<Rightarrow> data_obj option" where
  "read_data lib text b = do { i \<leftarrow> open_in lib text; (b', _) \<leftarrow> serialize lib (In i) b; Some b' }"

text \<open>\<open>main\<close>, when both files can be opened: the line \<open>show\<close> prints.\<close>

definition data_main :: "'i arch_lib \<Rightarrow> string option" where
  "data_main lib = do { text \<leftarrow> write_data lib new_data; b \<leftarrow> read_data lib text new_data; Some (str_field b) }"

subsection \<open>\<open>any.cpp\<close>\<close>

text \<open>The values behind \<open>boost::any\<close>: an \<open>int\<close>, a \<open>std::string\<close>, or of another type.\<close>

datatype any = AnyInt int | AnyString string | AnyOther

fun show_list :: "any list \<Rightarrow> (int + string) list" where
  "show_list [] = []"
| "show_list (AnyInt i # la) = Inl i # show_list la"
| "show_list (AnyString s # la) = Inr s # show_list la"
| "show_list (AnyOther # la) = show_list la"

definition fill_list :: "any list \<Rightarrow> any list" where
  "fill_list la = la @ [AnyInt 10, AnyString ''dyunze'']"

definition any_main :: "(int + string) list" where
  "any_main = show_list (fill_list [])"

subsection \<open>\<open>param_iter.cpp\<close>\<close>

text \<open>
  \<open>func(v.rbegin(), v.rend())\<close>: the range from \<open>begin\<close> to \<open>end\<close> is the vector backwards, the one between their
  bases the vector forwards. The result is the vector and the two lines printed.
\<close>

definition func_reverse :: "int list \<Rightarrow> int list \<times> int list list" where
  "func_reverse v = (let w = rev (sort (rev v)) in (w, [rev w, w]))"

definition param_main :: "int list list" where
  "param_main = (let v = [1, 2, 3, 4, 5, 6]; (w, out) = func_reverse v in [v] @ out @ [w])"

subsection \<open>\<open>progress_bar.cpp\<close>\<close>

text \<open>\<open>for (auto& x : v) v[x]++\<close>: \<open>x\<close> is the element itself; \<open>None\<close> is an index out of range.\<close>

definition bump :: "nat \<Rightarrow> int list \<Rightarrow> int list option" where
  "bump k v = (let x = v ! k in if 0 \<le> x \<and> nat x < length v then Some (v[nat x := v ! nat x + 1]) else None)"

fun bumps :: "nat \<Rightarrow> nat \<Rightarrow> int list \<Rightarrow> int list option" where
  "bumps k 0 v = Some v"
| "bumps k (Suc m) v = Option.bind (bump k v) (bumps (k + 1) m)"

definition progress_main :: "int list option" where
  "progress_main = bumps 0 100 (replicate 100 0)"

subsection \<open>Properties\<close>

text \<open>
  The archive of \<open>serlizrlisze.cpp\<close>: for every library with the documented laws, any object and any object \<open>b\<close> to read into, what
  \<open>oi >> b\<close> leaves in \<open>b\<close> is the string, the vector and the map that \<open>oa << a\<close> wrote; the member \<open>a\<close>, which \<open>serialize\<close>
  leaves out, keeps the value it had in \<open>b\<close>.
\<close>

theorem data_round_trip:
  assumes "arch_laws lib"
  shows "\<exists>text. write_data lib a = Some text \<and> read_data lib text b = Some (a\<lparr>a_field := a_field b\<rparr>)"
proof -
  let ?xs = "[IString (str_field a), IInts (vi a), IMap (msi a)]"
  have "write_data lib a = Some (save lib ?xs)" by (simp add: write_data_def serialize_def)
  moreover obtain i where i: "open_in lib (save lib ?xs) = Some i" "loads lib [KString, KInts, KMap] i = Some ?xs"
    using assms[unfolded arch_laws_def, rule_format, of ?xs] by (auto simp: bind_eq_Some_conv simp del: loads.simps)
  from i(2) have "read_data lib (save lib ?xs) b = Some (a\<lparr>a_field := a_field b\<rparr>)"
    by (auto simp: read_data_def serialize_def i(1) bind_eq_Some_conv)
  ultimately show ?thesis by blast
qed

text \<open>An archive that meets the laws.\<close>

instance item :: countable
  by countable_datatype

definition nat_arch :: "item list arch_lib" where
  "nat_arch = \<lparr>save = (\<lambda>xs. replicate (to_nat xs) CHR ''x''), open_in = (\<lambda>text. Some (from_nat (length text))),
     load = (\<lambda>k xs. case xs of [] \<Rightarrow> None | x # ys \<Rightarrow> if kind_of x = k then Some (x, ys) else None)\<rparr>"

lemma nat_arch_laws: "arch_laws nat_arch"
proof -
  have "loads nat_arch (map kind_of xs) xs = Some xs" for xs
    by (induction xs) (simp_all add: nat_arch_def)
  then show ?thesis by (simp add: arch_laws_def) (simp add: nat_arch_def)
qed

theorem data_round_trip_witness:
  "data_main nat_arch = Some ''Hello World''"
  using data_round_trip[OF nat_arch_laws, of new_data new_data]
  by (auto simp: data_main_def) (simp add: new_data_def)

text \<open>
  Sorting through reverse iterators leaves the vector in descending order: the first line of \<open>func\<close> is the
  vector sorted, the second the same backwards.
\<close>

lemma reverse_sort:
  "fst (func_reverse v) = rev (sort v) \<and> snd (func_reverse v) = [sort v, rev (sort v)] \<and> mset (fst (func_reverse v)) = mset v"
proof -
  have "sort (rev v) = sort v" by (intro properties_for_sort) simp_all
  then show ?thesis by (simp add: func_reverse_def Let_def)
qed

lemma any_main_lines: "any_main = [Inl 10, Inr ''dyunze'']"
  by (simp add: any_main_def fill_list_def)

text \<open>The loop of \<open>progress_bar.cpp\<close> counts in the first element only, since all the others stay 0.\<close>

lemma bumps_first:
  assumes "1 \<le> k" and "k + m = length v" and "\<forall>j. 1 \<le> j \<and> j < length v \<longrightarrow> v ! j = 0"
  shows "bumps k m v = Some (v[0 := v ! 0 + int m])"
  using assms
proof (induction m arbitrary: k v)
  case (Suc m)
  have "v ! k = 0" "0 < length v" using Suc.prems by auto
  then have b: "bump k v = Some (v[0 := v ! 0 + 1])" by (simp add: bump_def)
  have "bumps (k + 1) m (v[0 := v ! 0 + 1]) = Some (v[0 := v ! 0 + 1, 0 := v[0 := v ! 0 + 1] ! 0 + int m])"
    using Suc.prems by (intro Suc.IH) auto
  with b \<open>0 < length v\<close> show ?case by (simp add: algebra_simps)
qed simp

lemma progress_result: "progress_main = Some (100 # replicate 99 0)"
proof -
  let ?v = "1 # replicate 99 (0::int)"
  have "bump 0 (replicate 100 0) = Some ?v" by (simp add: bump_def numeral_eq_Suc)
  then have "progress_main = bumps 1 99 ?v" by (simp add: progress_main_def eval_nat_numeral(3)[of "num.Bit1 n" for n] numeral_eq_Suc)
  also have "\<dots> = Some (?v[0 := ?v ! 0 + int 99])" by (intro bumps_first) auto
  finally show ?thesis by simp
qed

end
