(* ===== verification/Echo_Pairs.thy ===== *)
theory Echo_Pairs
  imports Epoll_Echo Poll_Server
begin

text \<open>
  Servers together with their clients: the epoll server with the epoll client, and the poll server with the poll
  client. The two programs of a pair are joined by what the sockets carry: the bytes one has written are those
  the other has read, followed by those that are still on their way. (The select client reads past its first
  message before it has any conversation, \<open>main_client_overread\<close>.)
\<close>

subsection \<open>What goes into the epoll server comes out\<close>

text \<open>The bytes written to a descriptor.\<close>

fun written_to :: "int \<Rightarrow> sysact list \<Rightarrow> string" where
  "written_to f [] = []"
| "written_to f (Write g d # as) = (if g = f then d else []) @ written_to f as"
| "written_to f (_ # as) = written_to f as"

lemma written_to_append [simp]: "written_to f (as @ bs) = written_to f as @ written_to f bs"
  by (induction f as rule: written_to.induct) auto

text \<open>The bytes an event takes from its client, and those of a client over a run (up to a NUL, as \<open>printf\<close> and \<open>strlen\<close> see them).\<close>

definition ep_taken :: "int \<Rightarrow> ep_ready \<Rightarrow> string" where
  "ep_taken l e = (if rfd e \<noteq> l \<and> rbits e AND EPOLLIN \<noteq> 0
     then (case ans_read e of ReadErr _ \<Rightarrow> [] | ReadOk d \<Rightarrow> c_string d) else [])"

definition ep_input :: "int \<Rightarrow> int \<Rightarrow> ep_ready list \<Rightarrow> string" where
  "ep_input l f es = concat (map (ep_taken l) (filter (\<lambda>e. rfd e = f) es))"

definition reply_due :: "spec_state \<Rightarrow> int \<Rightarrow> string" where
  "reply_due t f = (if sinterest t f = Some EPOLLOUT then pending t f else [])"

lemma c_string_Nil [simp]: "c_string [] = []"
  by (simp add: c_string_def)

lemma spec_event_conserves:
  assumes dir: "dir_inv l (sinterest t)" and ser: "serial_event l e t" and f: "f \<noteq> l"
  shows "written_to f (sacts (spec_event l e t)) @ reply_due (spec_event l e t) f =
    written_to f (sacts t) @ reply_due t f @ (if rfd e = f then ep_taken l e else [])"
proof -
  have ask: "asked (sinterest t) e" using ser by (simp add: serial_event_def)
  then obtain x where x: "sinterest t (rfd e) = Some x" by (auto simp: asked_def split: option.splits)
  with dir have "x = EPOLLIN \<or> x = EPOLLOUT" by (auto simp: dir_inv_def)
  with x ask asked_in_out[of "sinterest t" e]
  have out: "rbits e AND EPOLLOUT \<noteq> 0 \<Longrightarrow> sinterest t (rfd e) = Some EPOLLOUT"
    and inp: "rbits e AND EPOLLIN \<noteq> 0 \<Longrightarrow> sinterest t (rfd e) = Some EPOLLIN" by auto
  have l: "sinterest t l = Some EPOLLIN" using dir by (simp add: dir_inv_def)
  consider (acc) "rfd e = l" "rbits e AND EPOLLIN \<noteq> 0" | (rd) "rfd e \<noteq> l" "rbits e AND EPOLLIN \<noteq> 0"
    | (wr) "rbits e AND EPOLLIN = 0" "rbits e AND EPOLLOUT \<noteq> 0" | (none) "rbits e AND EPOLLIN = 0" "rbits e AND EPOLLOUT = 0" by blast
  then show ?thesis
  proof cases
    case acc
    with f show ?thesis by (cases "ans_accept e") (auto simp: spec_event_def reply_due_def Let_def)
  next
    case rd
    with inp f show ?thesis by (cases "ans_read e") (auto simp: spec_event_def reply_due_def ep_taken_def Let_def)
  next
    case wr
    with out l f show ?thesis by (auto simp: spec_event_def reply_due_def ep_taken_def Let_def)
  next
    case none
    with f show ?thesis by (auto simp: spec_event_def ep_taken_def Let_def)
  qed
qed

lemma spec_run_conserves:
  assumes "sim l s t" and "serial_run l es t" and "f \<noteq> l"
  shows "written_to f (sacts (fold (spec_event l) es t)) @ reply_due (fold (spec_event l) es t) f =
    written_to f (sacts t) @ reply_due t f @ ep_input l f es"
  using assms
proof (induction es arbitrary: s t)
  case (Cons e es)
  have ser: "serial_event l e t" "serial_run l es (spec_event l e t)" using Cons.prems(2) by simp_all
  obtain s' where s': "sim l s' (spec_event l e t)" using sim_event[OF Cons.prems(1) ser(1)] by blast
  have "dir_inv l (sinterest t)" using Cons.prems(1) by (simp add: sim_def)
  from spec_event_conserves[OF this ser(1) Cons.prems(3)] Cons.IH[OF s' ser(2) Cons.prems(3)]
  show ?case by (simp add: ep_input_def)
qed (simp add: ep_input_def)

subsection \<open>The epoll client over a session\<close>

text \<open>
  The events of a round: a line typed, the socket ready for it, the reply, standard output ready. The buffer of the
  client is not initialised, so its first line is followed by what the buffer had behind it, up to a NUL.
\<close>

definition round_events :: "int \<Rightarrow> string \<times> string \<Rightarrow> ep_ready list" where
  "round_events sockfd dr = [ev_read STDIN (fst dr), ev_write sockfd, ev_read sockfd (snd dr), ev_write STDOUT]"

definition stale :: "string \<Rightarrow> string \<Rightarrow> string" where
  "stale junk d = takeWhile (\<lambda>c. c \<noteq> NUL) (drop (length d) junk)"

fun sent_lines :: "string \<Rightarrow> string list \<Rightarrow> string list" where
  "sent_lines junk [] = []"
| "sent_lines junk (d # ds) = (d @ stale junk d) # ds"

lemma round_from:
  assumes "interest s = [STDIN \<mapsto> EPOLLIN]" and "strlen (blit d (buf s)) = Some k" and "c_line d" and "c_line r" and "1 < sockfd"
  shows "\<exists>t. foldE (cl_event sockfd) (round_events sockfd (d, r)) s = Inr t \<and>
    acts t = acts s @ [Write sockfd (take k (blit d (buf s))), Write STDOUT r] \<and> idle t"
  using assms take_blit[of r]
  by (simp add: round_events_def cl_read_event cl_write_event[where k = k]
      cl_write_event[where k = "length r"] strlen_line handler_defs idle_def fun_eq_iff)

lemma rounds_idle:
  assumes "\<forall>(d, r) \<in> set talk. c_line d \<and> c_line r" and "1 < sockfd" and "idle s"
  shows "\<exists>t. foldE (cl_event sockfd) (concat (map (round_events sockfd) talk)) s = Inr t \<and>
    acts t = acts s @ concat (map (\<lambda>(d, r). [Write sockfd d, Write STDOUT r]) talk) \<and> idle t"
  using assms(1,3)
proof (induction talk arbitrary: s)
  case (Cons x talk)
  obtain d r where x: "x = (d, r)" "c_line d" "c_line r" using Cons.prems(1) by (cases x) auto
  have "strlen (blit d (buf s)) = Some (length d)" "interest s = [STDIN \<mapsto> EPOLLIN]"
    using strlen_line[OF x(2)] Cons.prems(2) by (simp_all add: idle_def)
  from round_from[OF this(2,1) x(2,3) assms(2)] obtain u where
    u: "foldE (cl_event sockfd) (round_events sockfd x) s = Inr u" "acts u = acts s @ [Write sockfd d, Write STDOUT r]" "idle u"
    by (auto simp: x(1) take_blit)
  moreover obtain t where "foldE (cl_event sockfd) (concat (map (round_events sockfd) talk)) u = Inr t"
    "acts t = acts u @ concat (map (\<lambda>(d, r). [Write sockfd d, Write STDOUT r]) talk)" "idle t"
    using Cons.IH[OF _ u(3)] Cons.prems(1) by auto
  ultimately show ?case by (auto simp: foldE_append x(1))
qed simp

lemma strlen_stale:
  assumes "NUL \<notin> set d" and "NUL \<in> set (drop (length d) junk)"
  shows "strlen (blit d junk) = Some (length (d @ stale junk d)) \<and> take (length (d @ stale junk d)) (blit d junk) = d @ stale junk d"
proof -
  have tw: "takeWhile (\<lambda>c. c \<noteq> NUL) (blit d junk) = d @ stale junk d"
    unfolding blit_def stale_def using assms(1) by (subst takeWhile_append2) auto
  have "NUL \<in> set (blit d junk)" using assms(2) by (simp add: blit_def)
  with tw show ?thesis by (simp add: strlen_def) (metis takeWhile_eq_take length_append tw)
qed

lemma client_session:
  assumes "\<forall>(d, r) \<in> set talk. c_line d \<and> c_line r" and "1 < sockfd"
    and "\<forall>d \<in> set (map fst (take 1 talk)). NUL \<in> set (drop (length d) junk)"
    and "concat cwaits = concat (map (round_events sockfd) talk)"
  shows "\<exists>c. Epoll_Echo.main_client sockfd junk cwaits = Inr c \<and>
    acts c = Connect sockfd Epoll_Echo.IPADDRESS Epoll_Echo.PORT #
      concat (map (\<lambda>(d, r). [Write sockfd d, Write STDOUT r]) (zip (sent_lines junk (map fst talk)) (map snd talk)))"
proof -
  let ?s = "add_event STDIN EPOLLIN \<lparr>interest = Map.empty, buf = junk, acts = [Connect sockfd Epoll_Echo.IPADDRESS Epoll_Echo.PORT]\<rparr>"
  have run: "Epoll_Echo.main_client sockfd junk cwaits = foldE (cl_event sockfd) (concat (map (round_events sockfd) talk)) ?s"
  proof -
    have "cl_events sockfd = foldE (cl_event sockfd)" by (simp add: cl_events_def fun_eq_iff)
    then show ?thesis unfolding Epoll_Echo.main_client_def assms(4)[symmetric] foldE_concat[symmetric] by simp
  qed
  show ?thesis
  proof (cases talk)
    case Nil
    then show ?thesis by (simp add: run add_event_def)
  next
    case (Cons x rest)
    obtain d r where x: "x = (d, r)" "c_line d" "c_line r" using assms(1) Cons by (cases x) auto
    have j: "NUL \<in> set (drop (length d) junk)" using assms(3) Cons x(1) by simp
    have st: "strlen (blit d (buf ?s)) = Some (length (d @ stale junk d))"
      "take (length (d @ stale junk d)) (blit d (buf ?s)) = d @ stale junk d"
      using strlen_stale[OF _ j] x(2) by (simp_all add: c_line_def add_event_def)
    have "interest ?s = [STDIN \<mapsto> EPOLLIN]" by (simp add: add_event_def)
    from round_from[OF this st(1) x(2,3) assms(2)] st(2) obtain u where
      u: "foldE (cl_event sockfd) (round_events sockfd x) ?s = Inr u"
      "acts u = [Connect sockfd Epoll_Echo.IPADDRESS Epoll_Echo.PORT, Write sockfd (d @ stale junk d), Write STDOUT r]" "idle u"
      by (auto simp: x(1) add_event_def)
    obtain t where t: "foldE (cl_event sockfd) (concat (map (round_events sockfd) rest)) u = Inr t"
      "acts t = acts u @ concat (map (\<lambda>(d, r). [Write sockfd d, Write STDOUT r]) rest)"
      using rounds_idle[OF _ assms(2) u(3), of rest] assms(1) Cons by auto
    have "zip (map fst rest) (map snd rest) = rest" by (rule zip_map_fst_snd)
    then show ?thesis using run u t Cons x(1) by (auto simp: foldE_append)
  qed
qed

text \<open>Nothing behind the first line terminates it: the first write reads past the buffer.\<close>

definition first_terminated :: "string \<Rightarrow> string list \<Rightarrow> bool" where
  "first_terminated junk ds = (case ds of [] \<Rightarrow> True | d # _ \<Rightarrow> NUL \<in> set (drop (length d) junk))"

lemma client_overreads:
  assumes "\<forall>(d, r) \<in> set talk. c_line d \<and> c_line r" and "\<not> first_terminated junk (map fst talk)"
    and "concat cwaits = concat (map (round_events sockfd) talk)"
  shows "Epoll_Echo.main_client sockfd junk cwaits = Inl UnterminatedString"
proof -
  obtain d r rest where t: "talk = (d, r) # rest" "NUL \<notin> set (drop (length d) junk)"
    using assms(2) by (cases talk) (auto simp: first_terminated_def)
  have d: "c_line d" "NUL \<notin> set (blit d junk)" using assms(1) t by (auto simp: c_line_def blit_def)
  have "cl_events sockfd = foldE (cl_event sockfd)" by (simp add: cl_events_def fun_eq_iff)
  then have "Epoll_Echo.main_client sockfd junk cwaits = foldE (cl_event sockfd) (concat (map (round_events sockfd) talk))
      (add_event STDIN EPOLLIN \<lparr>interest = Map.empty, buf = junk, acts = [Connect sockfd Epoll_Echo.IPADDRESS Epoll_Echo.PORT]\<rparr>)"
    unfolding Epoll_Echo.main_client_def assms(3)[symmetric] foldE_concat[symmetric] by simp
  also have "\<dots> = Inl UnterminatedString"
  proof -
    have "cl_event sockfd (ev_write g) u = Inl UnterminatedString" if "NUL \<notin> set (buf u)" for g u
      using that by (simp add: cl_event_def ev_write_def cl_write_def event_bits strlen_None)
    then show ?thesis using d by (simp add: t(1) round_events_def cl_read_event add_event_def)
  qed
  finally show ?thesis .
qed

lemma first_terminatedD: "first_terminated junk (map fst talk) \<Longrightarrow> d \<in> set (map fst (take 1 talk)) \<Longrightarrow> NUL \<in> set (drop (length d) junk)"
  by (cases talk) (auto simp: first_terminated_def)

lemma written_talk:
  "sockfd \<noteq> 1 \<Longrightarrow> length ds = length rs \<Longrightarrow>
     written_to sockfd (concat (map (\<lambda>(d, r). [Write sockfd d, Write STDOUT r]) (zip ds rs))) = concat ds \<and>
     written_to STDOUT (concat (map (\<lambda>(d, r). [Write sockfd d, Write STDOUT r]) (zip ds rs))) = concat rs"
  by (induction ds rs rule: list_induct2') auto

lemma length_sent_lines [simp]: "length (sent_lines junk ds) = length ds"
  by (cases ds) simp_all

subsection \<open>What goes into the poll server comes out\<close>

text \<open>The slots a pass hands to \<open>handle_connection\<close>, and the bytes it takes from a client through them.\<close>

definition served :: "int \<Rightarrow> poll_in \<Rightarrow> poll_server \<Rightarrow> pollfd list" where
  "served l pin s =
     (case poll_ans pin of
        PollErr \<Rightarrow> []
      | PollOk cond \<Rightarrow>
          let s1 = s\<lparr>clientfds := poll_fill cond (maxi s + 1) (clientfds s)\<rparr>;
              slots = (\<lambda>s. take (maxi s) (drop 1 (clientfds s))) in
          if revents (clientfds s1 ! 0) AND POLLIN \<noteq> 0 then
            (case accept_part l pin s1 of
               Inr (Some (s2, _)) \<Rightarrow> if poll_count (maxi s + 1) (clientfds s1) - 1 \<le> 0 then [] else slots s2
             | _ \<Rightarrow> [])
          else slots s1)"

text \<open>The bytes a \<open>read\<close> into a buffer of \<open>MAXLINE\<close> delivers.\<close>

definition got :: "read_result \<Rightarrow> string" where
  "got r = (case r of ReadErr _ \<Rightarrow> [] | ReadOk d \<Rightarrow> take MAXLINE d)"

definition slot_taken :: "int \<Rightarrow> (int \<Rightarrow> read_result) \<Rightarrow> pollfd \<Rightarrow> string" where
  "slot_taken f rd p = (if fd p = f \<and> slot_ready p then got (rd f) else [])"

fun poll_input :: "int \<Rightarrow> int \<Rightarrow> poll_in list \<Rightarrow> poll_server \<Rightarrow> string" where
  "poll_input l f [] s = []"
| "poll_input l f (pin # pins) s = concat (map (slot_taken f (read_ans pin)) (served l pin s)) @
     (case do_poll_iter l pin s of Inl _ \<Rightarrow> [] | Inr (t, _) \<Rightarrow> poll_input l f pins t)"

lemma written_slot: "f \<noteq> 1 \<Longrightarrow> written_to f (slot_acts rd p) = slot_taken f rd p"
  by (cases "rd (fd p)") (auto simp: slot_acts_def slot_taken_def got_def)

lemma written_slots: "f \<noteq> 1 \<Longrightarrow> written_to f (concat (map (slot_acts rd) ps)) = concat (map (slot_taken f rd) ps)"
  by (induction ps) (simp_all add: written_slot)

lemma written_serve:
  assumes "poll_inv l s" and "serve_part pin s a = (t, out)" and "f \<noteq> 1"
  shows "written_to f out = written_to f a @ concat (map (slot_taken f (read_ans pin)) (take (maxi s) (drop 1 (clientfds s))))"
proof -
  have "maxi s < length (clientfds s)" using assms(1) by (simp add: poll_inv_def)
  with assms(2,3) show ?thesis
    by (auto simp: serve_part_def handle_connection_spec written_slots split: prod.splits)
qed

lemma pass_writes:
  assumes inv: "poll_inv l s" and iter: "do_poll_iter l pin s = Inr (t, as)" and f: "f \<noteq> 1"
  shows "written_to f as = concat (map (slot_taken f (read_ans pin)) (served l pin s))"
proof -
  obtain cond where c: "poll_ans pin = PollOk cond" using iter by (auto simp: do_poll_iter_def split: poll_result.splits)
  let ?s = "s\<lparr>clientfds := poll_fill cond (maxi s + 1) (clientfds s)\<rparr>"
  have i1: "poll_inv l ?s" using inv by (rule poll_inv_fill)
  show ?thesis
  proof (cases "revents (clientfds ?s ! 0) AND POLLIN = 0")
    case True
    then have "serve_part pin ?s [] = (t, as)" using iter c by (simp add: do_poll_iter_def)
    from written_serve[OF i1 this f] True c show ?thesis by (simp add: served_def)
  next
    case False
    then obtain r where r: "accept_part l pin ?s = Inr r" using iter c by (auto simp: do_poll_iter_def Let_def split: sum.splits)
    show ?thesis
    proof (cases r)
      case None
      with False r c iter show ?thesis by (auto simp: do_poll_iter_def served_def Let_def)
    next
      case (Some x)
      obtain s2 a where x: "x = (s2, a)" by fastforce
      have acc: "accept_part l pin ?s = Inr (Some (s2, a))" using r Some x by simp
      then have a: "written_to f a = []" by (auto simp: accept_part_def Let_def split: accept_result.splits if_splits)
      have i2: "poll_inv l s2" using poll_inv_accept[OF i1 acc] .
      show ?thesis
      proof (cases "poll_count (maxi s + 1) (clientfds ?s) - 1 \<le> 0")
        case True
        with False acc c iter a show ?thesis by (simp add: do_poll_iter_def served_def Let_def)
      next
        case busy: False
        with False acc c iter have "serve_part pin s2 a = (t, as)" by (simp add: do_poll_iter_def Let_def)
        from written_serve[OF i2 this f] False busy acc c a show ?thesis by (simp add: served_def Let_def)
      qed
    qed
  qed
qed

lemma poll_run_writes:
  assumes "foldE (do_poll_pass l) pins (s, as) = Inr (t, out)" and "poll_inv l s" and "f \<noteq> 1"
  shows "written_to f out = written_to f as @ poll_input l f pins s"
  using assms
proof (induction pins arbitrary: s as)
  case (Cons pin pins)
  have step: "do_poll_pass l pin (s, as) =
      (case do_poll_iter l pin s of Inl a \<Rightarrow> Inl (as @ a) | Inr (s', a) \<Rightarrow> Inr (s', as @ a))" by (simp add: do_poll_pass_def)
  obtain u a where u: "do_poll_iter l pin s = Inr (u, a)" "foldE (do_poll_pass l) pins (u, as @ a) = Inr (t, out)"
    using Cons.prems(1) by (cases "do_poll_iter l pin s") (auto simp: step)
  have "written_to f out = written_to f (as @ a) @ poll_input l f pins u"
    using u Cons.prems poll_inv_iter by (intro Cons.IH) auto
  with pass_writes[OF Cons.prems(2) u(1) Cons.prems(3)] u(1) show ?case by simp
qed simp

text \<open>The client: what it reads from the socket it prints, what it reads from standard input it sends.\<close>

definition pass_read :: "pollbits \<Rightarrow> read_result \<Rightarrow> string" where
  "pass_read rv r = (if rv AND POLLIN \<noteq> 0 then got r else [])"

lemma take_read: "0 \<le> read_ret r MAXLINE \<Longrightarrow> take (nat (read_ret r MAXLINE)) (read_into r MAXLINE b) = got r"
  by (cases r) (simp_all add: got_def take_blit[of "take MAXLINE _", simplified])

lemma got_none: "read_ret r MAXLINE \<le> 0 \<Longrightarrow> got r = []"
  by (cases r) (auto simp: got_def MAXLINE_def min_def split: if_splits)

lemma client_recv_writes:
  assumes "client_recv sockfd r c = (c', a)" and "sockfd \<noteq> 1"
  shows "written_to 1 a = got r" and "written_to sockfd a = []"
  using assms by (auto simp: client_recv_def Let_def take_read got_none split: if_splits)

lemma client_send_writes:
  assumes "client_send sockfd r c = (c', a)" and "sockfd \<noteq> 1"
  shows "written_to sockfd a = got r" and "written_to 1 a = []"
  using assms by (auto simp: client_send_def Let_def take_read got_none split: if_splits)

lemma client_pass_writes:
  assumes "client_iter sockfd rv rds c = (c', a)" and "sockfd \<noteq> 1"
  shows "written_to 1 a = pass_read (fst rv) (fst rds)" and "written_to sockfd a = pass_read (snd rv) (snd rds)"
  using assms by (auto simp: client_iter_def pass_read_def client_recv_writes client_send_writes split: prod.splits if_splits)

type_synonym client_pass = "(pollbits \<times> pollbits) \<times> (read_result \<times> read_result)"

definition heard :: "client_pass list \<Rightarrow> string" where
  "heard passes = concat (map (\<lambda>(rv, rds). pass_read (fst rv) (fst rds)) passes)"

definition typed_in :: "client_pass list \<Rightarrow> string" where
  "typed_in passes = concat (map (\<lambda>(rv, rds). pass_read (snd rv) (snd rds)) passes)"

definition client_turn :: "int \<Rightarrow> client_pass \<Rightarrow> poll_client \<times> sysact list \<Rightarrow> poll_client \<times> sysact list" where
  "client_turn sockfd p x = apsnd ((@) (snd x)) (client_iter sockfd (fst p) (snd p) (fst x))"

lemma main_client_turns:
  "Poll_Server.main_client sockfd passes c =
     fold (client_turn sockfd) passes (c, [Connect sockfd Poll_Server.IPADDRESS Poll_Server.PORT])"
  unfolding Poll_Server.main_client_def
  by (rule arg_cong[where f = "\<lambda>g. fold g passes _"]) (auto simp: fun_eq_iff client_turn_def Let_def split: prod.splits)

lemma client_run_writes:
  assumes "sockfd \<noteq> 1"
  shows "written_to 1 (snd (fold (client_turn sockfd) passes x)) = written_to 1 (snd x) @ heard passes \<and>
    written_to sockfd (snd (fold (client_turn sockfd) passes x)) = written_to sockfd (snd x) @ typed_in passes"
proof (induction passes arbitrary: x)
  case (Cons p passes)
  obtain e a where e: "client_iter sockfd (fst p) (snd p) (fst x) = (e, a)" by fastforce
  then have "client_turn sockfd p x = (e, snd x @ a)" by (simp add: client_turn_def)
  with Cons.IH[of "(e, snd x @ a)"] client_pass_writes[OF e assms] show ?case
    by (simp add: heard_def typed_in_def case_prod_unfold)
qed (simp add: heard_def typed_in_def)

subsection \<open>Properties\<close>

text \<open>
  C19. The epoll client and server together. The server runs over any sequence of events in which a client is read only while no
  other reply is outstanding; a client that it knows as \<open>f\<close> takes part in it line by line. The server does not run into
  undefined behaviour. The client's buffer is not initialised (\<open>junk\<close>): when no NUL byte happens to be in it behind the first
  line, the client's first write reads past the buffer, which is undefined behaviour. When there is one, the client goes on, and
  if the bytes the server has taken from \<open>f\<close>, followed by those still on their way (\<open>up\<close>), are those the client sent, and the
  bytes the server wrote to \<open>f\<close> are those the client has read, followed by those on their way back (\<open>down\<close>), then what the
  client has printed, what is on its way back, the reply the server owes and what is on its way there are, in this order, the
  lines the client sent: those typed, where the first is followed by what the buffer had behind it up to the NUL.
\<close>

theorem epoll_conversation:
  assumes "serial_run l (concat waits) (spec_start l)" and "f \<noteq> l" and "1 < sockfd"
    and "\<forall>(d, r) \<in> set talk. c_line d \<and> c_line r"
    and "concat cwaits = concat (map (round_events sockfd) talk)"
    and "concat (sent_lines junk (map fst talk)) = ep_input l f (concat waits) @ up"
    and "\<forall>s. do_epoll l waits = Inr s \<longrightarrow> written_to f (acts s) = concat (map snd talk) @ down"
  shows "\<exists>s. do_epoll l waits = Inr s \<and>
    (if first_terminated junk (map fst talk)
     then \<exists>c due. Epoll_Echo.main_client sockfd junk cwaits = Inr c \<and>
       written_to sockfd (acts c) = concat (sent_lines junk (map fst talk)) \<and>
       written_to STDOUT (acts c) @ down @ due @ up = concat (sent_lines junk (map fst talk)) \<and>
       (interest s f \<noteq> Some EPOLLOUT \<longrightarrow> due = [])
     else Epoll_Echo.main_client sockfd junk cwaits = Inl UnterminatedString)"
proof -
  let ?t = "fold (spec_event l) (concat waits) (spec_start l)"
  obtain s where s: "do_epoll l waits = Inr s" "acts s = sacts ?t" "interest s = sinterest ?t"
    using sim_run[OF sim_start assms(1)] by (auto simp: do_epoll_def handle_events_foldE foldE_concat sim_def)
  have "written_to f (sacts ?t) @ reply_due ?t f = ep_input l f (concat waits)"
    using spec_run_conserves[OF sim_start assms(1,2)] assms(2) by (simp add: spec_start_def reply_due_def)
  moreover have "written_to f (sacts ?t) = concat (map snd talk) @ down" using assms(7) s(1,2) by simp
  ultimately have eq: "concat (map snd talk) @ down @ reply_due ?t f @ up = concat (sent_lines junk (map fst talk))"
    unfolding assms(6) by (metis append_assoc)
  show ?thesis
  proof (cases "first_terminated junk (map fst talk)")
    case True
    then have "\<forall>d \<in> set (map fst (take 1 talk)). NUL \<in> set (drop (length d) junk)" using first_terminatedD by blast
    from client_session[OF assms(4,3) this assms(5)] obtain c where
      c: "Epoll_Echo.main_client sockfd junk cwaits = Inr c" "acts c = Connect sockfd Epoll_Echo.IPADDRESS Epoll_Echo.PORT #
      concat (map (\<lambda>(d, r). [Write sockfd d, Write STDOUT r]) (zip (sent_lines junk (map fst talk)) (map snd talk)))" by blast
    have "written_to sockfd (acts c) = concat (sent_lines junk (map fst talk))" "written_to STDOUT (acts c) = concat (map snd talk)"
      unfolding c(2) using written_talk[of sockfd "sent_lines junk (map fst talk)" "map snd talk"] assms(3) by simp_all
    with True eq s c show ?thesis
      by (intro exI[of _ s]) (simp, intro exI[of _ "reply_due ?t f"], auto simp: reply_due_def)
  next
    case False
    with client_overreads[OF assms(4) False assms(5)] s(1) show ?thesis by auto
  qed
qed

theorem epoll_conversation_witness:
  "\<exists>s c. do_epoll 3 [[ev_accept 5], [ev_read 5 ''hi''], [ev_write 5]] = Inr s \<and>
    Epoll_Echo.main_client 4 (zeros MAXSIZE) [round_events 4 (''hi'', ''hi'')] = Inr c \<and> written_to 1 (acts c) = ''hi''"
proof -
  let ?w = "[[ev_accept 5], [ev_read 5 ''hi''], [ev_write 5]]" and ?talk = "[(''hi'', ''hi'')]"
  have ser: "serial_run 3 (concat ?w) (spec_start 3)"
    by (simp add: ev_defs serial_event_def asked_def spec_event_def spec_start_def event_bits ran_def c_string_def MAXSIZE_def)
  let ?t = "fold (spec_event 3) (concat ?w) (spec_start 3)"
  have t: "sacts ?t = [Diag ''accept a new client'', Diag ''hi'', Write 5 ''hi'']" "sinterest ?t 5 = Some EPOLLIN"
    by (simp_all add: ev_defs spec_event_def spec_start_def event_bits c_string_def MAXSIZE_def Let_def)
  obtain s0 where s0: "do_epoll 3 ?w = Inr s0" "acts s0 = sacts ?t" "interest s0 = sinterest ?t"
    using sim_run[OF sim_start ser] unfolding do_epoll_def handle_events_foldE foldE_concat sim_def by blast
  have srv: "written_to 5 (acts s) = ''hi''" "interest s 5 \<noteq> Some EPOLLOUT" if "do_epoll 3 ?w = Inr s" for s
  proof -
    have "s = s0" using that s0(1) by simp
    then show "written_to 5 (acts s) = ''hi''" "interest s 5 \<noteq> Some EPOLLOUT" using s0(2,3) t by simp_all
  qed
  have z: "stale (zeros MAXSIZE) ''hi'' = []" "NUL \<in> set (drop (Suc (Suc 0)) (zeros MAXSIZE))" "c_line ''hi''"
    by (simp_all add: stale_def zeros_def c_line_def MAXSIZE_def)
  have inp: "ep_input 3 5 (concat ?w) = ''hi''" by (simp add: ep_input_def ep_taken_def ev_defs event_bits c_string_def MAXSIZE_def)
  have ft: "first_terminated (zeros MAXSIZE) (map fst ?talk)" using z(2) by (simp add: first_terminated_def)
  have "\<exists>s. do_epoll 3 ?w = Inr s \<and>
    (if first_terminated (zeros MAXSIZE) (map fst ?talk)
     then \<exists>c due. Epoll_Echo.main_client 4 (zeros MAXSIZE) [round_events 4 (''hi'', ''hi'')] = Inr c \<and>
       written_to 4 (acts c) = concat (sent_lines (zeros MAXSIZE) (map fst ?talk)) \<and>
       written_to STDOUT (acts c) @ [] @ due @ [] = concat (sent_lines (zeros MAXSIZE) (map fst ?talk)) \<and>
       (interest s 5 \<noteq> Some EPOLLOUT \<longrightarrow> due = [])
     else Epoll_Echo.main_client 4 (zeros MAXSIZE) [round_events 4 (''hi'', ''hi'')] = Inl UnterminatedString)"
    by (rule epoll_conversation[OF ser]) (use srv(1) z inp in simp_all)
  then obtain s c due where h: "do_epoll 3 ?w = Inr s" "Epoll_Echo.main_client 4 (zeros MAXSIZE) [round_events 4 (''hi'', ''hi'')] = Inr c"
    "written_to STDOUT (acts c) @ due = ''hi''" "interest s 5 \<noteq> Some EPOLLOUT \<longrightarrow> due = []" using z ft by auto
  have "due = []" using h(4) srv(2)[OF h(1)] by blast
  with h show ?thesis by auto
qed

text \<open>
  C20. The poll client and server together: over any passes of the server that do not end it, with a client it knows as \<open>f\<close>, and any passes
  of that client. When the bytes the server has taken from \<open>f\<close>, followed by those on their way (\<open>up\<close>), are those
  the client sent, and those the server wrote to \<open>f\<close> are those the client has read, followed by those on their way back
  (\<open>down\<close>), then what the client has printed, what is on its way back and what is on its way there are, in this
  order, exactly what was typed: the shared buffers of both programs lose, repeat and mix up nothing,
  and no reply is owed between two passes.
\<close>

theorem poll_conversation:
  assumes "length junk = OPEN_MAX" and "f \<noteq> 1" and "sockfd \<noteq> 1"
    and "do_poll l junk pins = Inr (s, out)"
    and "Poll_Server.main_client sockfd passes c = (c', calls)"
    and "written_to sockfd calls = poll_input l f pins (poll_start l junk) @ up"
    and "written_to f out = heard passes @ down"
  shows "written_to 1 calls @ down @ up = typed_in passes"
proof -
  have "written_to f out = poll_input l f pins (poll_start l junk)"
    using poll_run_writes[OF _ poll_inv_start[OF assms(1)] assms(2)] assms(4) by (fastforce simp: do_poll_def)
  moreover have "written_to 1 calls = heard passes" "written_to sockfd calls = typed_in passes"
    using client_run_writes[OF assms(3), of passes "(c, [Connect sockfd Poll_Server.IPADDRESS Poll_Server.PORT])"] assms(5)
    by (auto simp: main_client_turns)
  ultimately show ?thesis using assms(6,7) by (metis append_assoc)
qed

definition pass_hi :: poll_in where
  "pass_hi = \<lparr>poll_ans = PollOk (\<lambda>f. if f = 4 then POLLIN else 0), accept_ans = AcceptFd 9, read_ans = (\<lambda>_. ReadOk ''hi'')\<rparr>"

lemma first_client:
  "\<exists>t ps. do_poll_iter 3 pass_accept (poll_start 3 junk0) = Inr (t, [Diag ''accept a new client'']) \<and> maxi t = 1 \<and> poll_inv 3 t \<and>
    clientfds t = \<lparr>fd = 3, events = POLLIN, revents = POLLIN\<rparr> # \<lparr>fd = 4, events = POLLIN, revents = POLLIN\<rparr> # ps"
proof -
  let ?fill = "poll_fill (\<lambda>f. if f = 3 then POLLIN else 0) 1 (clientfds (poll_start 3 junk0))"
  let ?rest = "replicate 998 \<lparr>fd = -1, events = 0, revents = POLLIN\<rparr>"
  let ?cs = "\<lparr>fd = 3, events = POLLIN, revents = POLLIN\<rparr> # \<lparr>fd = -1, events = 0, revents = POLLIN\<rparr> # ?rest"
  have cs: "?fill = ?cs"
    by (simp add: poll_start_def junk0_def OPEN_MAX_def poll_fill_def set_revents_def POLLIN_def POLLALWAYS_def
        replicate_Suc[symmetric] del: replicate_Suc)
  have st: "(poll_start 3 junk0)\<lparr>clientfds := ?cs\<rparr> = \<lparr>clientfds = ?cs, maxi = 0\<rparr>" by (simp add: poll_start_def)
  let ?t = "\<lparr>clientfds = \<lparr>fd = 3, events = POLLIN, revents = POLLIN\<rparr> # \<lparr>fd = 4, events = POLLIN, revents = POLLIN\<rparr> # ?rest, maxi = 1\<rparr>"
  have acc: "accept_part 3 pass_accept \<lparr>clientfds = ?cs, maxi = 0\<rparr> = Inr (Some (?t, [Diag ''accept a new client'']))"
    by (simp add: accept_part_def pass_accept_def OPEN_MAX_def free_slot_def)
  have "poll_count 1 ?cs = 1" by (simp add: poll_count_def POLLIN_def)
  moreover have "poll_ans pass_accept = PollOk (\<lambda>f. if f = 3 then POLLIN else 0)" "maxi (poll_start 3 junk0) + 1 = 1"
    "POLLIN AND POLLIN \<noteq> 0" by (simp_all add: pass_accept_def poll_start_def POLLIN_def)
  ultimately have "do_poll_iter 3 pass_accept (poll_start 3 junk0) = Inr (?t, [Diag ''accept a new client''])"
    unfolding do_poll_iter_def Let_def using cs acc[folded st] by simp
  then show ?thesis using poll_inv_iter[OF poll_inv_start[OF length_junk0]] by (intro exI[of _ ?t]) simp
qed

theorem poll_conversation_witness:
  "\<exists>s out c. do_poll 3 junk0 [pass_accept, pass_hi] = Inr (s, out) \<and> written_to 4 out = ''hi'' \<and>
    (let (c', calls) = Poll_Server.main_client 5 [((0, POLLIN), (ReadOk [], ReadOk ''hi'')), ((POLLIN, 0), (ReadOk ''hi'', ReadOk []))] c
     in written_to 1 calls = ''hi'')"
proof -
  obtain t ps where t: "do_poll_iter 3 pass_accept (poll_start 3 junk0) = Inr (t, [Diag ''accept a new client''])" "maxi t = 1" "poll_inv 3 t"
    "clientfds t = \<lparr>fd = 3, events = POLLIN, revents = POLLIN\<rparr> # \<lparr>fd = 4, events = POLLIN, revents = POLLIN\<rparr> # ps"
    using first_client by blast
  have bits: "POLLIN AND POLLALWAYS = 0" "POLLIN \<noteq> 0" "POLLIN AND (POLLIN OR POLLALWAYS) = POLLIN"
    by (simp_all add: POLLIN_def POLLALWAYS_def)
  have fill: "poll_fill (\<lambda>f. if f = 4 then POLLIN else 0) (Suc (Suc 0)) (clientfds t) =
      \<lparr>fd = 3, events = POLLIN, revents = 0\<rparr> # \<lparr>fd = 4, events = POLLIN, revents = POLLIN\<rparr> # ps"
    using t(4) bits by (simp add: poll_fill_def set_revents_def)
  obtain s a where "serve_part pass_hi (t\<lparr>clientfds :=
      \<lparr>fd = 3, events = POLLIN, revents = 0\<rparr> # \<lparr>fd = 4, events = POLLIN, revents = POLLIN\<rparr> # ps\<rparr>) [] = (s, a)" by fastforce
  then have u: "do_poll_iter 3 pass_hi t = Inr (s, a)"
    using fill t(2) by (simp add: do_poll_iter_def pass_hi_def Let_def)
  have sv: "served 3 pass_hi t = [\<lparr>fd = 4, events = POLLIN, revents = POLLIN\<rparr>]"
    using fill t(2) by (simp add: served_def pass_hi_def Let_def)
  have none: "concat (map (slot_taken 4 (read_ans pass_accept)) (served 3 pass_accept (poll_start 3 junk0))) = []"
    using pass_writes[OF poll_inv_start[OF length_junk0] t(1), of 4] by simp
  have inp: "poll_input 3 4 [pass_accept, pass_hi] (poll_start 3 junk0) = ''hi''"
    using none t(1) u sv bits by (simp add: slot_taken_def got_def slot_ready_def pass_hi_def MAXLINE_def)
  have run: "do_poll 3 junk0 [pass_accept, pass_hi] = Inr (s, Diag ''accept a new client'' # a)"
    using t(1) u by (simp add: do_poll_def do_poll_pass_def)
  have w4: "written_to 4 (Diag ''accept a new client'' # a) = ''hi''"
    using poll_run_writes[OF run[unfolded do_poll_def] poll_inv_start[OF length_junk0], of 4] inp by simp
  let ?ps = "[((0, POLLIN), (ReadOk [], ReadOk ''hi'')), ((POLLIN, 0), (ReadOk ''hi'', ReadOk []))]"
  have said: "heard ?ps = ''hi''" "typed_in ?ps = ''hi''" using bits by (simp_all add: heard_def typed_in_def pass_read_def got_def MAXLINE_def)
  obtain c' calls where c: "Poll_Server.main_client 5 ?ps \<lparr>recvline = zeros MAXLINE, sendline = zeros MAXLINE\<rparr> = (c', calls)" by fastforce
  have w5: "written_to 5 calls = ''hi''" 
    using client_run_writes[of 5 ?ps "(\<lparr>recvline = zeros MAXLINE, sendline = zeros MAXLINE\<rparr>, [Connect 5 Poll_Server.IPADDRESS Poll_Server.PORT])"] c said(2)
    by (simp add: main_client_turns)
  have "written_to 1 calls @ [] @ [] = typed_in ?ps"
    by (rule poll_conversation[OF length_junk0 _ _ run c, of 4]) (use w4 w5 inp said in simp_all)
  then show ?thesis using run w4 c said(2)
    by (intro exI[of _ s] exI[of _ "Diag ''accept a new client'' # a"] exI[of _ "\<lparr>recvline = zeros MAXLINE, sendline = zeros MAXLINE\<rparr>"]) simp
qed

end
