(* ===== verification/Fifo_Pipe.thy ===== *)
theory Fifo_Pipe
  imports Stream_Copy "HOL-Library.Sublist"
begin

text \<open>
  The two processes of \<open>code/IPC/PIPE/fifo_pipe.cpp\<close> with the named pipe between them, as a step relation. The loops are those
  of \<open>Stream_Copy\<close>: what the parent writes is \<open>fifo_parent\<close>, at most 4096 bytes at a time, which the kernel takes
  as a whole; the child appends what it reads to its file.

  The pipe holds at most 65536 bytes, and its bytes are dropped when no process has it open any more. The child
  opens it with \<open>O_RDWR\<close>, so it counts as a writer itself. \<open>SIGQUIT\<close> ends the child before it has called
  \<open>signal\<close>; afterwards \<open>on_quit\<close> prints a line and the interrupted \<open>read\<close> is resumed, as with \<open>signal\<close> of the C
  library of Linux. \<open>mkfifo\<close>, \<open>fork\<close> and the \<open>open\<close> calls succeed here; \<open>cfile\<close> is what was handed to
  \<open>ofstream\<close>, which keeps the last bytes in its own buffer until it is closed.
\<close>

definition PIPE_CAPACITY :: nat where "PIPE_CAPACITY = 65536"

datatype parent_at = POpening | PWriting | PClosed | PDone

datatype child_at = CStart | CHandler | CReading | CKilled | CEnded

record fp_state =
  ptodo :: "string list"
  pat :: parent_at
  bytes :: string
  cat :: child_at
  cfile :: string
  quit_sent :: bool
  quits_shown :: nat

definition fp_init :: "string list \<Rightarrow> fp_state \<Rightarrow> bool" where
  "fp_init chunks s \<longleftrightarrow> s = \<lparr>ptodo = chunks, pat = POpening, bytes = [], cat = CStart, cfile = [], quit_sent = False, quits_shown = 0\<rparr>"

definition writers :: "fp_state \<Rightarrow> nat" where
  "writers s = of_bool (pat s = PWriting) + of_bool (cat s = CReading)"

inductive fp_step :: "fp_state \<Rightarrow> fp_state \<Rightarrow> bool" where
  p_open: "pat s = POpening \<Longrightarrow> fp_step s (s\<lparr>pat := PWriting\<rparr>)"
| p_write: "pat s = PWriting \<Longrightarrow> ptodo s = c # cs \<Longrightarrow> length (bytes s) + length c \<le> PIPE_CAPACITY \<Longrightarrow>
     fp_step s (s\<lparr>ptodo := cs, bytes := bytes s @ c\<rparr>)"
| p_close: "pat s = PWriting \<Longrightarrow> ptodo s = [] \<Longrightarrow>
     fp_step s (s\<lparr>pat := PClosed, bytes := if cat s = CReading then bytes s else []\<rparr>)"
| p_kill: "pat s = PClosed \<Longrightarrow> fp_step s (s\<lparr>pat := PDone, quit_sent := True\<rparr>)"
| c_signal: "cat s = CStart \<Longrightarrow> fp_step s (s\<lparr>cat := CHandler\<rparr>)"
| c_open: "cat s = CHandler \<Longrightarrow> fp_step s (s\<lparr>cat := CReading\<rparr>)"
| c_read: "cat s = CReading \<Longrightarrow> bytes s \<noteq> [] \<Longrightarrow>
     fp_step s (s\<lparr>cfile := cfile s @ take 4096 (bytes s), bytes := drop 4096 (bytes s)\<rparr>)"
| c_eof: "cat s = CReading \<Longrightarrow> bytes s = [] \<Longrightarrow> writers s = 0 \<Longrightarrow> fp_step s (s\<lparr>cat := CEnded\<rparr>)"
| c_killed: "quit_sent s \<Longrightarrow> cat s = CStart \<Longrightarrow> fp_step s (s\<lparr>quit_sent := False, cat := CKilled\<rparr>)"
| on_quit: "quit_sent s \<Longrightarrow> cat s = CHandler \<or> cat s = CReading \<Longrightarrow>
     fp_step s (s\<lparr>quit_sent := False, quits_shown := quits_shown s + 1\<rparr>)"

inductive_cases fp_stepE: "fp_step s t"

subsection \<open>Invariant\<close>

text \<open>
  The bytes in the file, in the pipe and still to write are the file of the parent, unless the parent closed
  the pipe before the child had opened it: then they are lost, and the file stays empty.
\<close>

definition lost :: "fp_state \<Rightarrow> bool" where
  "lost s \<longleftrightarrow> pat s \<in> {PClosed, PDone} \<and> ptodo s = [] \<and> bytes s = [] \<and> cfile s = []"

definition fp_inv :: "string list \<Rightarrow> fp_state \<Rightarrow> bool" where
  "fp_inv chunks s \<longleftrightarrow>
     (cfile s @ bytes s @ concat (ptodo s) = concat chunks \<or> lost s) \<and>
     (\<forall>c \<in> set (ptodo s). c \<noteq> [] \<and> length c \<le> 4096) \<and>
     (pat s \<in> {PClosed, PDone} \<longrightarrow> ptodo s = [] \<and> (cat s \<noteq> CReading \<longrightarrow> bytes s = [])) \<and>
     (quit_sent s \<longrightarrow> pat s = PDone) \<and> (cat s = CKilled \<longrightarrow> pat s = PDone \<and> \<not> quit_sent s) \<and>
     (cat s \<noteq> CReading \<longrightarrow> cfile s = []) \<and> cat s \<noteq> CEnded \<and> length (bytes s) \<le> PIPE_CAPACITY"

lemma fp_inv_step:
  assumes inv: "fp_inv chunks s" and step: "fp_step s t"
  shows "fp_inv chunks t"
  using step
proof cases
  case c_eof
  then show ?thesis by (simp add: writers_def)
next
  case p_close
  with inv show ?thesis by (auto simp: fp_inv_def lost_def)
next
  case c_read
  have "take 4096 (bytes s) @ drop 4096 (bytes s) @ r = bytes s @ r" for r by (metis append_assoc append_take_drop_id)
  then have "cfile t @ bytes t @ r = cfile s @ bytes s @ r" for r using c_read(1) by simp
  moreover have nl: "\<not> lost s" using c_read(3) by (simp add: lost_def)
  moreover have same: "pat t = pat s" "ptodo t = ptodo s" "cat t = cat s" "quit_sent t = quit_sent s" using c_read(1) by simp_all
  ultimately have "cfile t @ bytes t @ concat (ptodo t) = concat chunks" using inv unfolding fp_inv_def by metis
  moreover have "length (bytes t) \<le> length (bytes s)" using c_read(1) by simp
  ultimately show ?thesis using inv c_read(2) same by (simp add: fp_inv_def)
qed (use inv[unfolded fp_inv_def lost_def] in \<open>(elim conjE disjE; simp add: fp_inv_def lost_def)\<close>)+

text \<open>The steps that are left.\<close>

fun parent_left :: "parent_at \<Rightarrow> nat" where
  "parent_left POpening = 6" | "parent_left PWriting = 4" | "parent_left PClosed = 2" | "parent_left PDone = 0"

fun child_left :: "child_at \<Rightarrow> nat" where
  "child_left CStart = 4" | "child_left CHandler = 2" | "child_left _ = 0"

definition fp_rank :: "fp_state \<Rightarrow> nat" where
  "fp_rank s = parent_left (pat s) + child_left (cat s) + of_bool (quit_sent s) + length (bytes s) + 2 * length (concat (ptodo s))"

definition fp_final :: "fp_state \<Rightarrow> bool" where
  "fp_final s \<longleftrightarrow> pat s = PDone \<and> \<not> quit_sent s \<and> (cat s = CReading \<and> bytes s = [] \<or> cat s = CKilled)"

lemma fp_rank_step:
  assumes inv: "fp_inv chunks s" and step: "fp_step s t"
  shows "fp_rank t < fp_rank s"
  using step
proof cases
  case (p_write c cs)
  then have "c \<noteq> []" using inv by (simp add: fp_inv_def)
  with p_write show ?thesis by (simp add: fp_rank_def)
next
  case c_eof
  then show ?thesis by (simp add: writers_def)
next
  case c_killed
  then show ?thesis by (simp add: fp_rank_def)
next
  case p_kill
  with inv show ?thesis by (auto simp: fp_rank_def fp_inv_def)
qed (auto simp: fp_rank_def)

lemma fp_progress:
  assumes inv: "fp_inv chunks s" and "\<not> fp_final s"
  shows "\<exists>t. fp_step s t"
proof (cases "cat s")
  case CReading
  show ?thesis
  proof (cases "bytes s = []")
    case True
    show ?thesis
    proof (cases "pat s")
      case PWriting
      show ?thesis
      proof (cases "ptodo s")
        case (Cons c cs)
        then have "length c \<le> 4096" using inv by (simp add: fp_inv_def)
        then have "length (bytes s) + length c \<le> PIPE_CAPACITY" using True by (simp add: PIPE_CAPACITY_def)
        with PWriting Cons show ?thesis by (blast intro: p_write)
      qed (use PWriting in \<open>blast intro: p_close\<close>)
    next
      case PDone
      then have "quit_sent s" using assms(2) CReading True by (simp add: fp_final_def)
      with CReading show ?thesis by (blast intro: on_quit)
    qed (blast intro: p_open p_kill)+
  qed (use CReading in \<open>blast intro: c_read\<close>)
next
  case CKilled
  then have "fp_final s" using inv by (simp add: fp_inv_def fp_final_def)
  with assms(2) show ?thesis by blast
next
  case CEnded
  then show ?thesis using inv by (simp add: fp_inv_def)
qed (blast intro: c_signal c_open)+

lemma fp_inv_init:
  assumes "\<forall>c \<in> set chunks. c \<noteq> [] \<and> length c \<le> 4096" and "fp_init chunks s"
  shows "fp_inv chunks s"
  using assms by (simp add: fp_init_def fp_inv_def)

text \<open>What the parent writes.\<close>

lemma fifo_parent_chunks: "\<forall>c \<in> set (fifo_parent avs d). c \<noteq> [] \<and> length c \<le> 4096"
proof (induction avs d rule: fifo_parent.induct)
  case (2 avail avs d)
  let ?c = "take (min avail 4096) d"
  have l: "length ?c \<le> 4096" by simp
  show ?case
  proof (cases "?c = []")
    case True
    then show ?thesis by (simp only: fifo_parent.simps Let_def if_True) simp
  next
    case False
    with 2[OF refl] have "\<forall>c \<in> set (fifo_parent avs (drop (length ?c) d)). c \<noteq> [] \<and> length c \<le> 4096" by blast
    with False l show ?thesis by (simp only: fifo_parent.simps Let_def if_False list.set ball_simps) blast
  qed
qed simp

interpretation fifo_run: terminating_system "fp_init (fifo_parent avs d)" fp_step "fp_inv (fifo_parent avs d)" fp_rank fp_final
  for avs d
  by unfold_locales
    (fact fp_inv_init[OF fifo_parent_chunks], fact fp_inv_step, fact fp_rank_step, fact fp_progress)

text \<open>A run in which the parent is done before the child has called \<open>signal\<close>.\<close>

lemma fast_writes:
  assumes "reach (fp_init chunks) fp_step \<lparr>ptodo = cs, pat = PWriting, bytes = b, cat = CStart, cfile = [], quit_sent = False, quits_shown = 0\<rparr>"
    and "length b + length (concat cs) \<le> PIPE_CAPACITY"
  shows "reach (fp_init chunks) fp_step \<lparr>ptodo = [], pat = PWriting, bytes = b @ concat cs, cat = CStart, cfile = [], quit_sent = False, quits_shown = 0\<rparr>"
  using assms
proof (induction cs arbitrary: b)
  case (Cons c cs)
  let ?s = "\<lparr>ptodo = c # cs, pat = PWriting, bytes = b, cat = CStart, cfile = [], quit_sent = False, quits_shown = 0\<rparr>"
  have "fp_step ?s (?s\<lparr>ptodo := cs, bytes := bytes ?s @ c\<rparr>)" using Cons.prems(2) by (intro p_write) simp_all
  then have "reach (fp_init chunks) fp_step \<lparr>ptodo = cs, pat = PWriting, bytes = b @ c, cat = CStart, cfile = [], quit_sent = False, quits_shown = 0\<rparr>"
    using Cons.prems(1) by (auto intro: reach_nxt)
  from Cons.IH[OF this] Cons.prems(2) show ?case by simp
qed simp

lemma fast_parent:
  assumes "length (concat chunks) \<le> PIPE_CAPACITY"
  shows "reach (fp_init chunks) fp_step \<lparr>ptodo = [], pat = PDone, bytes = [], cat = CStart, cfile = [], quit_sent = True, quits_shown = 0\<rparr>"
proof -
  let ?s = "\<lambda>p b q. \<lparr>ptodo = [], pat = p, bytes = b, cat = CStart, cfile = [], quit_sent = q, quits_shown = 0\<rparr>"
  let ?i = "\<lparr>ptodo = chunks, pat = POpening, bytes = [], cat = CStart, cfile = [], quit_sent = False, quits_shown = 0\<rparr>"
  have "reach (fp_init chunks) fp_step ?i" by (rule reach_ini) (simp add: fp_init_def)
  moreover have "fp_step ?i (?i\<lparr>pat := PWriting\<rparr>)" by (rule p_open) simp
  ultimately have "reach (fp_init chunks) fp_step (?s PWriting (concat chunks) False)"
    using fast_writes[of chunks chunks "[]"] assms by (auto intro: reach_nxt)
  moreover have "fp_step (?s PWriting (concat chunks) False) (?s PClosed [] False)"
    using p_close[of "?s PWriting (concat chunks) False"] by simp
  moreover have "fp_step (?s PClosed [] False) (?s PDone [] True)" using p_kill[of "?s PClosed [] False"] by simp
  ultimately show ?thesis by (blast intro: reach_nxt)
qed

subsection \<open>Properties\<close>

text \<open>
  C21. The two processes of \<open>fifo_pipe.cpp\<close>, whatever the file, the pieces in which the parent reads it and the interleaving: the file of
  the child is at every moment a prefix of what the parent sent; the child never leaves its loop, because it keeps the
  pipe open for writing itself, so its file is never closed; every run comes to an end in which the parent
  is done and the child has either read everything and waits for ever, or has read nothing at all (the parent had closed the
  pipe before the child opened it), or was ended by \<open>SIGQUIT\<close> with an empty file. For what fits the pipe
  the last of these can happen.
\<close>

theorem fifo_pipe_outcomes:
  assumes "chunks = fifo_parent avs d"
  shows "(\<forall>s. reach (fp_init chunks) fp_step s \<longrightarrow> prefix (cfile s) (concat chunks) \<and> cat s \<noteq> CEnded \<and>
      (\<exists>t. fp_step\<^sup>*\<^sup>* s t \<and> fp_final t) \<and>
      ((\<forall>t. \<not> fp_step s t) \<longrightarrow> pat s = PDone \<and>
         (cat s = CReading \<and> cfile s \<in> {concat chunks, []} \<or> cat s = CKilled \<and> cfile s = []))) \<and>
    (length (concat chunks) \<le> PIPE_CAPACITY \<longrightarrow> (\<exists>s. reach (fp_init chunks) fp_step s \<and> cat s = CKilled))"
proof (intro conjI allI impI)
  fix s assume r: "reach (fp_init chunks) fp_step s"
  have inv: "fp_inv chunks s" using r unfolding assms by (rule fifo_run.reach_holds)
  then show "cat s \<noteq> CEnded" by (simp add: fp_inv_def)
  have "cfile s @ bytes s @ concat (ptodo s) = concat chunks \<or> cfile s = []" using inv by (auto simp: fp_inv_def lost_def)
  then show "prefix (cfile s) (concat chunks)" by (metis Nil_prefix prefixI)
  show "\<exists>t. fp_step\<^sup>*\<^sup>* s t \<and> fp_final t" using inv unfolding assms by (rule fifo_run.can_finish)
  assume "\<forall>t. \<not> fp_step s t"
  then have fin: "fp_final s" using fp_progress[OF inv] by blast
  then show "pat s = PDone" by (simp add: fp_final_def)
  show "cat s = CReading \<and> cfile s \<in> {concat chunks, []} \<or> cat s = CKilled \<and> cfile s = []"
  proof (cases "cat s = CKilled")
    case True
    then show ?thesis using inv by (simp add: fp_inv_def)
  next
    case False
    with fin have c: "cat s = CReading" "bytes s = []" "pat s = PDone" by (auto simp: fp_final_def)
    then have "ptodo s = []" using inv by (simp add: fp_inv_def)
    with c inv have "cfile s = concat chunks \<or> cfile s = []" by (auto simp: fp_inv_def lost_def)
    with c show ?thesis by simp
  qed
next
  assume "length (concat chunks) \<le> PIPE_CAPACITY"
  note r = fast_parent[OF this]
  let ?s = "\<lparr>ptodo = [], pat = PDone, bytes = [], cat = CStart, cfile = [], quit_sent = True, quits_shown = 0\<rparr>"
  have "fp_step ?s (?s\<lparr>quit_sent := False, cat := CKilled\<rparr>)" by (rule c_killed) simp_all
  with r have "reach (fp_init chunks) fp_step (?s\<lparr>quit_sent := False, cat := CKilled\<rparr>)" by (rule reach_nxt)
  moreover have "cat (?s\<lparr>quit_sent := False, cat := CKilled\<rparr>) = CKilled" by simp
  ultimately show "\<exists>s. reach (fp_init chunks) fp_step s \<and> cat s = CKilled" by blast
qed

theorem fifo_pipe_outcomes_witness:
  "(\<exists>s. reach (fp_init [''ab'', ''c'']) fp_step s \<and> fp_final s \<and> prefix (cfile s) ''abc'') \<and>
   (\<exists>s. reach (fp_init [''ab'', ''c'']) fp_step s \<and> cat s = CKilled)"
proof -
  have c: "[''ab'', ''c''] = fifo_parent [2, 5, 5] ''abc''" by simp
  let ?i = "\<lparr>ptodo = [''ab'', ''c''], pat = POpening, bytes = [], cat = CStart, cfile = [], quit_sent = False, quits_shown = 0\<rparr>"
  have i: "reach (fp_init [''ab'', ''c'']) fp_step ?i" by (rule reach_ini) (simp add: fp_init_def)
  obtain t where t: "fp_step\<^sup>*\<^sup>* ?i t" "fp_final t" using fifo_pipe_outcomes[OF c] i by blast
  have r: "reach (fp_init [''ab'', ''c'']) fp_step t" using t(1) i by (rule reach_rtranclp)
  have "prefix (cfile t) (concat [''ab'', ''c''])" using fifo_pipe_outcomes[OF c] r by blast
  moreover have "\<exists>s. reach (fp_init [''ab'', ''c'']) fp_step s \<and> cat s = CKilled"
    using fifo_pipe_outcomes[OF c] by (simp add: PIPE_CAPACITY_def)
  ultimately show ?thesis using r t(2) by auto
qed

end
