(* ===== verification/Address.thy ===== *)
theory Address
  imports Time_Stamp Raw_Struct
begin

text \<open>
  Texts of network addresses: \<open>code/network/convert.cpp\<close> (a text to an address and back),
  \<open>code/boost_doc/IO/ip.cpp\<close> (the address of the host as text) and \<open>main\<close> of
  \<open>code/network/TCP/REUSE_PORT/client.cpp\<close> (an address and a port from the command line).

  \<open>inet_pton\<close> and \<open>inet_ntop\<close> of the C library are modelled for \<open>AF_INET\<close>, over the four bytes of an
  address in network order: four decimal numbers up to 255, separated by dots. A number with a leading zero is refused, as in the
  C library of Linux. The host's name, the answer of \<open>gethostbyname\<close> and the text of an
  address that is not \<open>AF_INET\<close> are arguments.
\<close>

unbundle bit_operations_syntax

subsection \<open>\<open>inet_ntop\<close> and \<open>inet_pton\<close>\<close>

definition INET_ADDRSTRLEN :: nat where "INET_ADDRSTRLEN = 16"

fun join_dots :: "string list \<Rightarrow> string" where
  "join_dots [] = []"
| "join_dots [p] = p"
| "join_dots (p # ps) = p @ CHR ''.'' # join_dots ps"

fun split_dots :: "string \<Rightarrow> string list" where
  "split_dots [] = [[]]"
| "split_dots (c # cs) =
     (if c = CHR ''.'' then [] # split_dots cs
      else case split_dots cs of [] \<Rightarrow> [[c]] | p # ps \<Rightarrow> (c # p) # ps)"

definition addr_text :: "byte list \<Rightarrow> string" where
  "addr_text addr = join_dots (map (\<lambda>b. dec (unat b)) addr)"

text \<open>\<open>inet_ntop\<close> into an array of \<open>n\<close> characters: null (\<open>ENOSPC\<close>) when the text and its terminator do not fit.\<close>

definition inet_ntop :: "byte list \<Rightarrow> nat \<Rightarrow> string option" where
  "inet_ntop addr n = (let t = addr_text addr in if length t < n then Some t else None)"

definition is_digit :: "char \<Rightarrow> bool" where
  "is_digit c \<longleftrightarrow> 48 \<le> (of_char c :: nat) \<and> (of_char c :: nat) \<le> 57"

fun dec_val :: "nat \<Rightarrow> string \<Rightarrow> nat" where
  "dec_val n [] = n"
| "dec_val n (c # cs) = dec_val (10 * n + (of_char c - 48)) cs"

definition octet :: "string \<Rightarrow> byte option" where
  "octet p =
     (if p \<noteq> [] \<and> list_all is_digit p \<and> (hd p = CHR ''0'' \<longrightarrow> length p = 1) \<and> dec_val 0 p \<le> 255
      then Some (of_nat (dec_val 0 p)) else None)"

definition inet_pton :: "string \<Rightarrow> byte list option" where
  "inet_pton t =
     (let bs = map octet (split_dots t) in
      if length bs = 4 \<and> None \<notin> set bs then Some (map the bs) else None)"

subsection \<open>\<open>convert.cpp\<close>\<close>

text \<open>\<open>main\<close>: \<open>sin_addr\<close> is what the stack held (\<open>junk\<close>) until \<open>inet_pton\<close> has set it.\<close>

definition convert_main :: "byte list \<Rightarrow> c_error + string" where
  "convert_main junk =
     (let sin_addr = (case inet_pton ''192.179.1.1'' of Some bs \<Rightarrow> bs | None \<Rightarrow> junk) in
      case inet_ntop sin_addr INET_ADDRSTRLEN of Some str_addr \<Rightarrow> Inr str_addr | None \<Rightarrow> Inl UnterminatedString)"

subsection \<open>\<open>ip.cpp\<close>\<close>

text \<open>What \<open>gethostbyname\<close> returns: null, or the family and the first address (null for an empty list).\<close>

datatype family_addr = V4 "byte list" | OtherFamily string

datatype hostent = NoHost | Host "family_addr option"

definition ntop_any :: "family_addr \<Rightarrow> nat \<Rightarrow> string option" where
  "ntop_any a n = (case a of V4 bs \<Rightarrow> inet_ntop bs n | OtherFamily t \<Rightarrow> if length t < n then Some t else None)"

text \<open>
  \<open>GetHostInfo\<close>: \<open>gethostname\<close> stores at most 256 characters, without a terminator when the name is
  longer. The results are those of the call, the two strings and what was printed.
\<close>

definition GetHostInfo ::
  "string \<Rightarrow> (string \<Rightarrow> hostent) \<Rightarrow> string \<Rightarrow> c_error + bool \<times> string \<times> string \<times> string" where
  "GetHostInfo host gethostbyname Ip =
     (if 256 \<le> length host then Inl UnterminatedString
      else case gethostbyname host of
        NoHost \<Rightarrow> Inl NullDeref
      | Host None \<Rightarrow> Inl NullDeref
      | Host (Some a) \<Rightarrow>
          (case ntop_any a 32 of
             None \<Rightarrow> Inr (False, host, Ip, ''hostname transform to ip failed'')
           | Some ipStr \<Rightarrow> Inr (True, host, ipStr, [])))"

definition ip_main :: "string \<Rightarrow> (string \<Rightarrow> hostent) \<Rightarrow> c_error + string" where
  "ip_main host gethostbyname =
     (case GetHostInfo host gethostbyname [] of
        Inl e \<Rightarrow> Inl e
      | Inr (ret, hostName, Ip, out) \<Rightarrow>
          Inr (out @ (if ret then ''hostname: '' @ hostName @ [CHR 0x0A] @ ''Ip: '' @ Ip @ [CHR 0x0A] else [])))"

subsection \<open>\<open>main\<close> of \<open>REUSE_PORT/client.cpp\<close>\<close>

text \<open>\<open>atoi\<close>: white space, a sign, digits; a number that does not fit an \<open>int\<close> is undefined.\<close>

definition is_space :: "char \<Rightarrow> bool" where
  "is_space c \<longleftrightarrow> c = CHR '' '' \<or> 9 \<le> (of_char c :: nat) \<and> (of_char c :: nat) \<le> 13"

definition atoi :: "string \<Rightarrow> c_error + int" where
  "atoi t =
     (let u = dropWhile is_space t;
          v = (case u of c # cs \<Rightarrow> if c = CHR ''-'' \<or> c = CHR ''+'' then cs else u | [] \<Rightarrow> []);
          n = int (dec_val 0 (takeWhile is_digit v));
          x = (if u \<noteq> [] \<and> hd u = CHR ''-'' then - n else n)
      in if - (2 ^ 31) \<le> x \<and> x < 2 ^ 31 then Inr x else Inl SignedOverflow)"

text \<open>\<open>htons\<close> on a little-endian machine: the argument is cut to 16 bits and its bytes are exchanged.\<close>

definition htons :: "int \<Rightarrow> 16 word" where
  "htons x = (let w = of_int x :: 16 word in push_bit 8 w OR drop_bit 8 w)"

text \<open>
  Twelve workers, all with the same address, port and path. The arguments of the command line and the result of
  \<open>inet_pton\<close> are not tested.
\<close>

definition reuse_main_client :: "byte list \<Rightarrow> string list \<Rightarrow> c_error + (byte list \<times> 16 word \<times> string) list" where
  "reuse_main_client junk argv =
     (if length argv < 4 then Inl NullDeref
      else case atoi (argv ! 2) of
        Inl e \<Rightarrow> Inl e
      | Inr port \<Rightarrow>
          Inr (replicate 12 (case inet_pton (argv ! 1) of Some a \<Rightarrow> a | None \<Rightarrow> junk, htons port, argv ! 3)))"

subsection \<open>Decimal numbers\<close>

lemma of_char_dec_digit [simp]: "d < 10 \<Longrightarrow> of_char (char_of (48 + d) :: char) = (48 + d :: nat)"
  by simp

lemma dec_val_append [simp]: "dec_val n (p @ [c]) = 10 * dec_val n p + (of_char c - 48)"
  by (induction n p rule: dec_val.induct) simp_all

lemma dec_val_dec: "dec_val 0 (dec n) = n"
proof (induction n rule: dec.induct)
  case (1 n)
  then show ?case by (cases "n < 10") (simp_all add: dec.simps[of n])
qed

lemma digits_dec: "list_all is_digit (dec n)"
proof (induction n rule: dec.induct)
  case (1 n)
  then show ?case by (cases "n < 10") (simp_all add: dec.simps[of n] is_digit_def)
qed

lemma dec_not_Nil: "dec n \<noteq> []"
  by (subst dec.simps) simp

lemma zero_char: "of_char c = (48 :: nat) \<longleftrightarrow> c = CHR ''0''"
  using of_char_eq_iff[of c "CHR ''0''", where 'a = nat] by simp

lemma hd_dec: "0 < n \<Longrightarrow> hd (dec n) \<noteq> CHR ''0''"
proof (induction n rule: dec.induct)
  case (1 n)
  show ?case
  proof (cases "n < 10")
    case True
    with 1(2) have "(of_char (char_of (48 + n) :: char) :: nat) \<noteq> 48" by simp
    with True show ?thesis unfolding zero_char by (auto simp: dec.simps[of n])
  next
    case False
    with 1 have "hd (dec (n div 10)) \<noteq> CHR ''0''" by simp
    with False show ?thesis using dec_not_Nil[of "n div 10"] by (simp add: dec.simps[of n])
  qed
qed

lemma digit_char: "is_digit c \<Longrightarrow> of_char c - 48 < (10::nat) \<and> char_of (48 + (of_char c - 48 :: nat)) = c"
  by (auto simp: is_digit_def)

lemma dec_val_pos: "list_all is_digit p \<Longrightarrow> p \<noteq> [] \<Longrightarrow> hd p \<noteq> CHR ''0'' \<Longrightarrow> 0 < dec_val 0 p"
proof (induction p rule: rev_induct)
  case (snoc c p)
  show ?case
  proof (cases "p = []")
    case True
    have "of_char c \<noteq> (48 :: nat)" using snoc.prems(3) True unfolding zero_char by simp
    with True snoc.prems(1) show ?thesis by (auto simp: is_digit_def)
  qed (use snoc in auto)
qed simp

lemma dec_dec_val: "list_all is_digit p \<Longrightarrow> p \<noteq> [] \<Longrightarrow> (hd p = CHR ''0'' \<longrightarrow> length p = 1) \<Longrightarrow> dec (dec_val 0 p) = p"
proof (induction p rule: rev_induct)
  case (snoc c p)
  have c: "of_char c - 48 < (10::nat)" "char_of (48 + (of_char c - 48 :: nat)) = c" using snoc.prems(1) digit_char by auto
  show ?case
  proof (cases "p = []")
    case True
    with c show ?thesis by (simp add: dec.simps)
  next
    case False
    then have h: "hd p \<noteq> CHR ''0''" using snoc.prems(3) by auto
    have "dec (dec_val 0 p) = p" using snoc False h by auto
    moreover have "0 < dec_val 0 p" using snoc.prems(1) False h by (intro dec_val_pos) auto
    ultimately show ?thesis using c by (subst dec.simps) simp
  qed
qed simp

lemma unat_byte: "unat (b :: byte) < 256"
  using unsigned_less[of b, where 'a = nat] by simp

lemma octet_iff: "octet p = Some b \<longleftrightarrow> p = dec (unat b)"
proof
  assume "octet p = Some b"
  then have h: "p \<noteq> []" "list_all is_digit p" "hd p = CHR ''0'' \<longrightarrow> length p = 1" "dec_val 0 p \<le> 255" "b = of_nat (dec_val 0 p)"
    by (auto simp: octet_def split: if_splits)
  have "unat b = dec_val 0 p" unfolding h(5) using h(4) by (simp add: unat_of_nat)
  then show "p = dec (unat b)" using dec_dec_val[OF h(2,1,3)] by simp
next
  assume p: "p = dec (unat b)"
  have "unat b \<le> 255" using unat_byte[of b] by simp
  moreover have "hd p = CHR ''0'' \<longrightarrow> length p = 1"
    using p hd_dec[of "unat b"] by (cases "unat b = 0") (simp_all add: dec.simps[of 0])
  ultimately show "octet p = Some b" using p dec_not_Nil digits_dec by (simp add: octet_def dec_val_dec)
qed

subsection \<open>Dots\<close>

lemma split_dots_not_Nil [simp]: "split_dots t \<noteq> []"
  by (induction t rule: split_dots.induct) (auto split: list.splits)

lemma join_split: "join_dots (split_dots t) = t"
proof (induction t rule: split_dots.induct)
  case (2 c cs)
  obtain p ps where "split_dots cs = p # ps" by (meson split_dots_not_Nil list.exhaust)
  with 2 show ?case by (cases ps) auto
qed simp

lemma split_append_dot: "CHR ''.'' \<notin> set p \<Longrightarrow> split_dots (p @ CHR ''.'' # t) = p # split_dots t"
  by (induction p) auto

lemma split_no_dot: "CHR ''.'' \<notin> set p \<Longrightarrow> split_dots p = [p]"
  by (induction p) auto

lemma split_join: "ps \<noteq> [] \<Longrightarrow> \<forall>p \<in> set ps. CHR ''.'' \<notin> set p \<Longrightarrow> split_dots (join_dots ps) = ps"
  by (induction ps rule: join_dots.induct) (auto simp: split_append_dot split_no_dot)

lemma dec_no_dot: "CHR ''.'' \<notin> set (dec n)"
  using digits_dec[of n] by (auto simp: list_all_iff is_digit_def)

lemma inet_pton_iff: "inet_pton t = Some bs \<longleftrightarrow> length bs = 4 \<and> t = addr_text bs"
proof
  assume h: "inet_pton t = Some bs"
  then have l: "length (split_dots t) = 4" and n: "None \<notin> set (map octet (split_dots t))" and bs: "bs = map (the \<circ> octet) (split_dots t)"
    by (auto simp: inet_pton_def Let_def split: if_splits)
  have "dec (unat (the (octet p))) = p" if p: "p \<in> set (split_dots t)" for p
  proof -
    obtain b where b: "octet p = Some b" using n p by (metis image_eqI list.set_map option.exhaust)
    with octet_iff[of p b] show ?thesis by simp
  qed
  then have "map (\<lambda>b. dec (unat b)) bs = split_dots t" unfolding bs by (simp add: map_idI)
  with l bs show "length bs = 4 \<and> t = addr_text bs" by (simp add: addr_text_def join_split)
next
  assume h: "length bs = 4 \<and> t = addr_text bs"
  then have ne: "bs \<noteq> []" by auto
  then have s: "split_dots t = map (\<lambda>b. dec (unat b)) bs"
    using split_join[of "map (\<lambda>b. dec (unat b)) bs"] dec_no_dot ne h by (auto simp: addr_text_def)
  have "octet (dec (unat b)) = Some b" for b using octet_iff by blast
  with s h show "inet_pton t = Some bs" by (auto simp: inet_pton_def comp_def)
qed

lemma length_join_dots: "ps \<noteq> [] \<Longrightarrow> length (join_dots ps) + 1 = sum_list (map (\<lambda>p. length p + 1) ps)"
  by (induction ps rule: join_dots.induct) auto

lemma length_dec_byte: "length (dec (unat (b :: byte))) \<le> 3"
proof -
  have "unat b < 256" by (rule unat_byte)
  then show ?thesis by (simp add: dec.simps[of "unat b"] dec.simps[of "unat b div 10"] dec.simps[of "unat b div 10 div 10"])
qed

lemma length_addr_text: "length bs = 4 \<Longrightarrow> length (addr_text bs) < INET_ADDRSTRLEN"
proof -
  assume l: "length bs = 4"
  have "sum_list (map (\<lambda>p. length p + 1) (map (\<lambda>b. dec (unat b)) bs)) \<le> sum_list (map (\<lambda>_. 4) bs)"
    unfolding map_map comp_def using length_dec_byte by (intro sum_list_mono) (simp add: le_diff_conv)
  then have "length (addr_text bs) + 1 \<le> 16"
    using l length_join_dots[of "map (\<lambda>b. dec (unat b)) bs"] by (cases bs) (auto simp: addr_text_def sum_list_triv)
  then show ?thesis by (simp add: INET_ADDRSTRLEN_def)
qed

lemma inet_ntop_fits: "length bs = 4 \<Longrightarrow> inet_ntop bs INET_ADDRSTRLEN = Some (addr_text bs)"
  by (simp add: inet_ntop_def length_addr_text)

text \<open>The program of \<open>ip.cpp\<close>, for every answer of the resolver: an unknown host is not tested for.\<close>

lemma ip_main_cases:
  assumes "length host < 256"
  shows "length bs = 4 \<Longrightarrow> gethostbyname host = Host (Some (V4 bs)) \<Longrightarrow>
      ip_main host gethostbyname = Inr (''hostname: '' @ host @ [CHR 0x0A] @ ''Ip: '' @ addr_text bs @ [CHR 0x0A])"
    and "gethostbyname host = Host (Some (OtherFamily t)) \<Longrightarrow> 32 \<le> length t \<Longrightarrow>
      ip_main host gethostbyname = Inr ''hostname transform to ip failed''"
    and "gethostbyname host = NoHost \<Longrightarrow> ip_main host gethostbyname = Inl NullDeref"
  using assms length_addr_text[of bs]
  by (simp_all add: ip_main_def GetHostInfo_def ntop_any_def inet_ntop_def INET_ADDRSTRLEN_def)

text \<open>The address and the port of the command line reach every worker; exchanging the bytes of the port twice gives it back.\<close>

lemma atoi_dec:
  assumes "n < 2 ^ 31"
  shows "atoi (dec n) = Inr (int n)"
proof -
  obtain c cs where d: "dec n = c # cs" using dec_not_Nil[of n] by (cases "dec n") auto
  have dig: "is_digit c" "list_all is_digit (dec n)" using digits_dec[of n] d by auto
  then have c: "\<not> is_space c" "c \<noteq> CHR ''-''" "c \<noteq> CHR ''+''" by (auto simp: is_digit_def is_space_def)
  have "takeWhile is_digit (c # cs) = c # cs" using dig d by (simp add: takeWhile_eq_all_conv list_all_iff)
  with c d assms dec_val_dec[of n] show ?thesis by (simp add: atoi_def Let_def)
qed

lemma htons_twice: "htons (uint (htons x)) = of_int x"
proof -
  have "push_bit 8 (push_bit 8 w OR drop_bit 8 w) OR drop_bit 8 (push_bit 8 w OR drop_bit 8 w) = w" for w :: "16 word"
    by (rule bit_word_eqI) (auto simp: bit_simps dest: bit_imp_le_length)
  then show ?thesis by (simp add: htons_def Let_def)
qed

lemma reuse_clients_address:
  assumes "length bs = 4" and "port < 65536" and "inet_ntop bs INET_ADDRSTRLEN = Some t"
  shows "reuse_main_client junk [prog, t, dec port, path] = Inr (replicate 12 (bs, htons (int port), path))"
proof -
  have "t = addr_text bs" using assms(1,3) by (simp add: inet_ntop_fits)
  then have "inet_pton t = Some bs" using assms(1) inet_pton_iff by blast
  moreover have "atoi (dec port) = Inr (int port)" using assms(2) by (intro atoi_dec) simp
  ultimately show ?thesis by (simp add: reuse_main_client_def)
qed

text \<open>\<open>convert.cpp\<close> prints the text it has converted.\<close>

lemma convert_main_prints: "convert_main junk = Inr ''192.179.1.1''"
proof -
  have "inet_pton ''192.179.1.1'' \<noteq> None" by (simp add: inet_pton_def octet_def is_digit_def)
  then obtain bs where "inet_pton ''192.179.1.1'' = Some bs" by blast
  moreover from this have "length bs = 4" "addr_text bs = ''192.179.1.1''" using inet_pton_iff[of "''192.179.1.1''" bs] by auto
  ultimately show ?thesis by (simp add: convert_main_def inet_ntop_fits)
qed

end
