(* ===== verification/Time_Text.thy ===== *)
theory Time_Text
  imports Address
begin

text \<open>
  Texts of the current time, \<open>code/lang/time_stamp.cpp\<close>: \<open>ctime\<close>, \<open>asctime\<close> and \<open>strftime\<close> of the C library, over \<open>gmtime\<close> of
  \<open>Time_Stamp\<close>. The clocks and the distance of the local time from UTC are arguments.
\<close>

subsection \<open>\<open>time_stamp.cpp\<close>\<close>

definition wday_names :: "string list" where
  "wday_names = [''Sun'', ''Mon'', ''Tue'', ''Wed'', ''Thu'', ''Fri'', ''Sat'']"

definition mon_names :: "string list" where
  "mon_names = [''Jan'', ''Feb'', ''Mar'', ''Apr'', ''May'', ''Jun'', ''Jul'', ''Aug'', ''Sep'', ''Oct'', ''Nov'', ''Dec'']"

text \<open>The day of the week of a time; the first of January 1970 was a Thursday.\<close>

definition tm_wday :: "nat \<Rightarrow> nat" where
  "tm_wday t = (4 + t div 86400) mod 7"

definition pad_blank :: "nat \<Rightarrow> nat \<Rightarrow> string" where
  "pad_blank w n = replicate (w - length (dec n)) (CHR '' '') @ dec n"

text \<open>\<open>asctime(gmtime(&t))\<close>: \<open>"%.3s %.3s%3d %.2d:%.2d:%.2d %d\n"\<close>.\<close>

definition asctime :: "nat \<Rightarrow> string" where
  "asctime t =
     (let g = gmtime t in
      wday_names ! tm_wday t @ '' '' @ mon_names ! tm_mon g @ pad_blank 3 (tm_mday g) @ '' '' @ pad0 2 (tm_hour g) @ '':'' @
      pad0 2 (tm_min g) @ '':'' @ pad0 2 (tm_sec g) @ '' '' @ dec (tm_year g + 1900) @ [CHR 0x0A])"

text \<open>\<open>ctime\<close> is \<open>asctime\<close> of the local time; \<open>zone\<close> is its distance from UTC in seconds, added to the time.\<close>

definition ctime :: "nat \<Rightarrow> nat \<Rightarrow> string" where
  "ctime zone t = asctime (t + zone)"

text \<open>\<open>strftime(buff, 100, "%D %T", gmtime(&ts.tv_sec))\<close> and the line printed with it.\<close>

definition strftime_DT :: "nat \<Rightarrow> string" where
  "strftime_DT t =
     (let g = gmtime t in
      pad0 2 (tm_mon g + 1) @ ''/'' @ pad0 2 (tm_mday g) @ ''/'' @ pad0 2 (tm_year g mod 100) @ '' '' @
      pad0 2 (tm_hour g) @ '':'' @ pad0 2 (tm_min g) @ '':'' @ pad0 2 (tm_sec g))"

definition stamp_main :: "nat \<Rightarrow> nat \<Rightarrow> nat \<Rightarrow> nat \<Rightarrow> string list" where
  "stamp_main zone current tv_sec tv_nsec =
     [ctime zone current, asctime current, strftime_DT tv_sec @ ''.'' @ pad0 9 tv_nsec @ '' UTC'' @ [CHR 0x0A]]"

text \<open>
  \<open>timestamp\<close> of \<open>code/concurrent/1w_nr.cpp\<close>, for a time in milliseconds: \<open>%c\<close> is the text of \<open>ctime\<close> without its newline; the
  milliseconds follow without leading zeros.
\<close>

definition timestamp_ms :: "nat \<Rightarrow> nat \<Rightarrow> string" where
  "timestamp_ms zone ms = butlast (ctime zone (ms div 1000)) @ ''.'' @ dec (ms mod 1000)"

text \<open>
  \<open>current\<close> of \<open>code/concurrent/1p1c_mutex.cpp\<close>: the newline is erased and the milliseconds appended; \<open>current_time\<close> of \<open>1p1c.cpp\<close> and
  \<open>1p1c_cv.cpp\<close>, with the nanoseconds.
\<close>

definition current :: "nat \<Rightarrow> nat \<Rightarrow> string" where
  "current zone ms =
     (let date = ctime zone (ms div 1000); date = take (length date - 1) date
      in (date @ ''.'') @ dec (ms - ms div 1000 * 1000))"

definition current_time :: "nat \<Rightarrow> nat \<Rightarrow> string" where
  "current_time tv_sec tv_nsec = strftime_DT tv_sec @ ''.'' @ dec tv_nsec"

subsection \<open>Fields of fixed width\<close>

lemma dec_val_zeros: "dec_val 0 (replicate k CHR ''0'' @ p) = dec_val 0 p"
  by (induction k) simp_all

lemma dec_val_pad0: "dec_val 0 (pad0 w n) = n"
  by (simp add: pad0_def dec_val_zeros dec_val_dec)

lemma pad0_inj: "pad0 w m = pad0 w n \<longleftrightarrow> m = n"
  by (metis dec_val_pad0)

lemma dec_inj: "dec m = dec n \<longleftrightarrow> m = n"
  by (metis dec_val_dec)

lemma dec_no_blank: "CHR '' '' \<notin> set (dec n)"
  using digits_dec[of n] by (auto simp: list_all_iff is_digit_def)

lemma filter_pad_blank: "filter (\<lambda>c. c \<noteq> CHR '' '') (pad_blank w n) = dec n"
  using dec_no_blank[of n] by (auto simp: pad_blank_def filter_id_conv)

lemma pad_blank_inj: "pad_blank w m = pad_blank w n \<longleftrightarrow> m = n"
  by (metis filter_pad_blank dec_inj)

lemma length_dec2: "n < 100 \<Longrightarrow> length (dec n) \<le> 2"
  using div_less_iff_less_mult[of 10 n 10] by (simp add: dec.simps[of n] dec.simps[of "n div 10"])

lemma length_pad0_2: "n < 100 \<Longrightarrow> length (pad0 2 n) = 2"
  using length_dec2[of n] by (simp add: pad0_def)

lemma length_pad_blank_3: "n < 100 \<Longrightarrow> length (pad_blank 3 n) = 3"
  using length_dec2[of n] by (simp add: pad_blank_def)

lemma length_dec4: "1000 \<le> n \<Longrightarrow> n \<le> 9999 \<Longrightarrow> length (dec n) = 4"
proof -
  assume "1000 \<le> n" "n \<le> 9999"
  then have "\<not> n < 10" "\<not> n div 10 < 10" "\<not> n div 10 div 10 < 10" "n div 10 div 10 div 10 < 10"
    by (auto simp: div_less_iff_less_mult)
  then show ?thesis
    by (simp add: dec.simps[of n] dec.simps[of "n div 10"] dec.simps[of "n div 10 div 10"] dec.simps[of "n div 10 div 10 div 10"])
qed

lemma gmtime_year: "70 \<le> tm_year (gmtime t)"
proof -
  obtain y d where y: "year_of (t div 86400) 1970 = (y, d)" by fastforce
  from year_of_spec[OF y] have "1970 \<le> y" by simp
  then show ?thesis by (simp add: gmtime_def y Let_def split: prod.splits)
qed

lemma name_facts: "m < 12 \<Longrightarrow> length (mon_names ! m) = 3" "length (wday_names ! tm_wday t) = 3"
  "m < 12 \<Longrightarrow> n < 12 \<Longrightarrow> mon_names ! m = mon_names ! n \<longleftrightarrow> m = n"
proof -
  have "\<forall>x \<in> set mon_names. length x = 3" "\<forall>x \<in> set wday_names. length x = 3" "length mon_names = 12" "length wday_names = 7"
    "distinct mon_names" by (simp_all add: mon_names_def wday_names_def)
  moreover have "tm_wday t < 7" by (simp add: tm_wday_def)
  ultimately show "m < 12 \<Longrightarrow> length (mon_names ! m) = 3" "length (wday_names ! tm_wday t) = 3"
    "m < 12 \<Longrightarrow> n < 12 \<Longrightarrow> mon_names ! m = mon_names ! n \<longleftrightarrow> m = n"
    by (simp_all add: nth_eq_iff_index_eq)
qed

lemma gmtime_inj: "gmtime t = gmtime u \<Longrightarrow> t = u"
  using gmtime_fields[of t] gmtime_fields[of u] by metis

lemma asctime_inj:
  assumes "asctime t = asctime u"
  shows "t = u"
proof -
  have f: "tm_mon (gmtime x) < 12" "tm_mday (gmtime x) < 100" "tm_hour (gmtime x) < 100" "tm_min (gmtime x) < 100" "tm_sec (gmtime x) < 100" for x
    using gmtime_fields[of x] by auto
  have len: "length (wday_names ! tm_wday t) = length (wday_names ! tm_wday u)"
    "length (mon_names ! tm_mon (gmtime t)) = length (mon_names ! tm_mon (gmtime u))"
    "length (pad_blank 3 (tm_mday (gmtime t))) = length (pad_blank 3 (tm_mday (gmtime u)))"
    "length (pad0 2 (tm_hour (gmtime t))) = length (pad0 2 (tm_hour (gmtime u)))"
    "length (pad0 2 (tm_min (gmtime t))) = length (pad0 2 (tm_min (gmtime u)))"
    "length (pad0 2 (tm_sec (gmtime t))) = length (pad0 2 (tm_sec (gmtime u)))"
    by (simp_all add: name_facts f length_pad_blank_3 length_pad0_2)
  have "tm_mon (gmtime t) = tm_mon (gmtime u)" "tm_mday (gmtime t) = tm_mday (gmtime u)" "tm_hour (gmtime t) = tm_hour (gmtime u)"
    "tm_min (gmtime t) = tm_min (gmtime u)" "tm_sec (gmtime t) = tm_sec (gmtime u)" "tm_year (gmtime t) = tm_year (gmtime u)"
    using assms len f[of t] f[of u] by (auto simp: asctime_def Let_def pad0_inj pad_blank_inj dec_inj name_facts(3))
  then have "gmtime t = gmtime u" by simp
  then show ?thesis by (rule gmtime_inj)
qed

text \<open>The stamp still tells the milliseconds apart, but a small number reads like a large fraction.\<close>

lemma butlast_asctime: "butlast (asctime t) @ [CHR 0x0A] = asctime t"
  by (simp add: asctime_def Let_def butlast_append)

lemma timestamp_ms_unpadded: "timestamp_ms zone (1000 * k + 5) = butlast (ctime zone k) @ ''.5''"
proof -
  have "char_of (53::nat) = CHR ''5''" by code_simp
  then show ?thesis by (simp add: timestamp_ms_def dec.simps[of 5])
qed

text \<open>\<open>current\<close> and \<open>timestamp\<close> are written differently and give the same text.\<close>

lemma current_is_timestamp: "current zone ms = timestamp_ms zone ms"
  by (simp add: current_def timestamp_ms_def Let_def butlast_conv_take minus_div_mult_eq_mod)

subsection \<open>Properties\<close>

text \<open>
  The texts of \<open>time_stamp.cpp\<close> lose nothing they should keep: up to the year 9999 the text of \<open>asctime\<close> has exactly the 25
  characters that fit, with the terminator, the 26 of its static array, and the text of \<open>strftime\<close> has 17, less than the
  100 of \<open>buff\<close>; two times with the same \<open>asctime\<close> text are the same second (the two-digit year of \<open>%D\<close>
  does not have this), and \<open>ctime\<close> is the text of the shifted time.
\<close>

theorem time_texts:
  assumes "tm_year (gmtime t) \<le> 8099"
  shows "length (asctime t) = 25 \<and> length (strftime_DT t) = 17 \<and> (\<forall>u. asctime t = asctime u \<longrightarrow> t = u) \<and>
    (\<forall>zone u. ctime zone t = ctime zone u \<longrightarrow> t = u)"
proof -
  have f: "tm_mon (gmtime t) < 12" "tm_mday (gmtime t) < 100" "tm_hour (gmtime t) < 100" "tm_min (gmtime t) < 100" "tm_sec (gmtime t) < 100"
    using gmtime_fields[of t] by auto
  have "length (dec (tm_year (gmtime t) + 1900)) = 4" using assms gmtime_year[of t] by (intro length_dec4) auto
  then have "length (asctime t) = 25"
    using f by (simp add: asctime_def Let_def name_facts length_pad0_2 length_pad_blank_3)
  moreover have "length (strftime_DT t) = 17" using f by (simp add: strftime_DT_def Let_def length_pad0_2)
  ultimately show ?thesis using asctime_inj by (force simp: ctime_def)
qed

theorem time_texts_witness:
  "asctime 0 = ''Thu Jan  1 00:00:00 1970'' @ [CHR 0x0A] \<and> strftime_DT 0 = ''01/01/70 00:00:00'' \<and> (\<forall>u. asctime 0 = asctime u \<longrightarrow> 0 = u)"
proof -
  have g: "gmtime 0 = \<lparr>tm_year = 70, tm_mon = 0, tm_mday = 1, tm_hour = 0, tm_min = 0, tm_sec = 0\<rparr>"
    by (simp add: gmtime_def year_of.simps year_days_def month_days_def)
  have c: "char_of (48::nat) = CHR ''0''" "char_of (49::nat) = CHR ''1''" "char_of (55::nat) = CHR ''7''" "char_of (57::nat) = CHR ''9''"
    by code_simp+
  have "asctime 0 = ''Thu Jan  1 00:00:00 1970'' @ [CHR 0x0A]" "strftime_DT 0 = ''01/01/70 00:00:00''"
    by (simp_all add: asctime_def strftime_DT_def g tm_wday_def wday_names_def mon_names_def pad0_def pad_blank_def dec.simps c numeral_2_eq_2)
  moreover have "\<forall>u. asctime 0 = asctime u \<longrightarrow> 0 = u" using time_texts[of 0] g by simp
  ultimately show ?thesis by blast
qed

end
