(* ===== verification/Thread_Samples.thy ===== *)
theory Thread_Samples
  imports Prelude "HOL-Library.Multiset"
begin

text \<open>
  Three small programs with detached threads: \<open>code/concurrent/thread_param.cpp\<close> (three threads share an \<open>int\<close> by
  reference), \<open>order_process.cpp\<close> (two threads that unlock each other's mutex) and \<open>many_thread.cpp\<close> (twenty threads that sleep
  while \<open>main\<close> sleeps longer).
\<close>

subsection \<open>\<open>thread_param.cpp\<close>\<close>

text \<open>
  \<open>func\<close> by its accesses: it prints \<open>x\<close>, prints \<open>value\<close>, adds 20 to it in a read and a write, prints it
  again and returns it. The result of a thread is dropped; the pause of \<open>main\<close> is left out.
\<close>

datatype func_pc = PrintX | PrintOld | Load | Store int | PrintNew | Returned

record tp_state =
  spawned :: nat
  pcs :: "nat \<Rightarrow> func_pc"
  val :: int
  lines :: "int list"

definition tp_init :: "tp_state \<Rightarrow> bool" where
  "tp_init s \<longleftrightarrow> s = \<lparr>spawned = 0, pcs = (\<lambda>_. PrintX), val = 1, lines = []\<rparr>"

inductive tp_step :: "tp_state \<Rightarrow> tp_state \<Rightarrow> bool" where
  spawn: "spawned s < 3 \<Longrightarrow> tp_step s (s\<lparr>spawned := spawned s + 1\<rparr>)"
| print_x: "i < spawned s \<Longrightarrow> pcs s i = PrintX \<Longrightarrow> tp_step s (s\<lparr>pcs := (pcs s)(i := PrintOld), lines := lines s @ [int i]\<rparr>)"
| print_old: "i < spawned s \<Longrightarrow> pcs s i = PrintOld \<Longrightarrow> tp_step s (s\<lparr>pcs := (pcs s)(i := Load), lines := lines s @ [val s]\<rparr>)"
| load: "i < spawned s \<Longrightarrow> pcs s i = Load \<Longrightarrow> tp_step s (s\<lparr>pcs := (pcs s)(i := Store (val s + 20))\<rparr>)"
| store: "i < spawned s \<Longrightarrow> pcs s i = Store v \<Longrightarrow> tp_step s (s\<lparr>pcs := (pcs s)(i := PrintNew), val := v\<rparr>)"
| print_new: "i < spawned s \<Longrightarrow> pcs s i = PrintNew \<Longrightarrow> tp_step s (s\<lparr>pcs := (pcs s)(i := Returned), lines := lines s @ [val s]\<rparr>)"

inductive_cases tp_stepE: "tp_step s t"

fun touches :: "func_pc \<Rightarrow> bool" where
  "touches PrintX = False" | "touches Returned = False" | "touches _ = True"

fun writes :: "func_pc \<Rightarrow> bool" where
  "writes (Store v) = True" | "writes _ = False"

text \<open>A data race: two threads are about to access \<open>value\<close>, one of them to write it. The behaviour of the program is then undefined.\<close>

definition data_race :: "tp_state \<Rightarrow> bool" where
  "data_race s \<longleftrightarrow> (\<exists>i<spawned s. \<exists>j<spawned s. i \<noteq> j \<and> writes (pcs s i) \<and> touches (pcs s j))"

subsection \<open>\<open>order_process.cpp\<close>\<close>

text \<open>
  The two mutexes by their owner. A thread prints, unlocks one mutex and locks the other, in a loop; unlocking a
  mutex that the calling thread does not own is undefined (\<open>undef\<close>).
\<close>

datatype who = From | To

datatype op_pc = Say | Unlock | Lock

record op_state =
  owner :: "who \<Rightarrow> who option"        \<comment> \<open>of the mutexes \<open>from\<close> and \<open>to\<close>\<close>
  at_pc :: "who \<Rightarrow> op_pc"
  index :: "who \<Rightarrow> nat"
  said :: "(who \<times> nat) list"
  undef :: bool

definition op_init :: "op_state \<Rightarrow> bool" where
  "op_init s \<longleftrightarrow> s = \<lparr>owner = (\<lambda>_. None), at_pc = (\<lambda>_. Say), index = (\<lambda>_. 1), said = [], undef = False\<rparr>"

fun the_other :: "who \<Rightarrow> who" where
  "the_other From = To" | "the_other To = From"

text \<open>\<open>do_from\<close> prints \<open>index++\<close>, \<open>do_to\<close> prints \<open>++index\<close>.\<close>

fun shown :: "who \<Rightarrow> nat \<Rightarrow> nat" where
  "shown From n = n" | "shown To n = n + 1"

inductive op_step :: "op_state \<Rightarrow> op_state \<Rightarrow> bool" where
  say: "\<not> undef s \<Longrightarrow> at_pc s w = Say \<Longrightarrow>
     op_step s (s\<lparr>at_pc := (at_pc s)(w := Unlock), index := (index s)(w := index s w + 1), said := said s @ [(w, shown w (index s w))]\<rparr>)"
| unlock: "\<not> undef s \<Longrightarrow> at_pc s w = Unlock \<Longrightarrow> owner s w = Some w \<Longrightarrow>
     op_step s (s\<lparr>at_pc := (at_pc s)(w := Lock), owner := (owner s)(w := None)\<rparr>)"
| unlock_undef: "\<not> undef s \<Longrightarrow> at_pc s w = Unlock \<Longrightarrow> owner s w \<noteq> Some w \<Longrightarrow> op_step s (s\<lparr>undef := True\<rparr>)"
| lock: "\<not> undef s \<Longrightarrow> at_pc s w = Lock \<Longrightarrow> owner s (the_other w) = None \<Longrightarrow>
     op_step s (s\<lparr>at_pc := (at_pc s)(w := Say), owner := (owner s)(the_other w := Some w)\<rparr>)"

inductive_cases op_stepE: "op_step s t"

subsection \<open>\<open>many_thread.cpp\<close>\<close>

text \<open>
  The lines with the moments at which they are printed, in seconds: thread \<open>i\<close> is created at \<open>created i\<close>, runs
  after a delay and comes back late from its sleep; \<open>main\<close> returns 20 seconds after its last
  creation, which ends the process.
\<close>

datatype line = Started nat | Ended nat

definition thread_lines :: "(nat \<Rightarrow> nat) \<Rightarrow> (nat \<Rightarrow> nat) \<Rightarrow> (nat \<Rightarrow> nat) \<Rightarrow> nat \<Rightarrow> (nat \<times> line) list" where
  "thread_lines created delay late i =
     (let t = created i + delay i in [(t, Started i), (t + 10 + late i, Ended i)])"

definition many_main :: "(nat \<Rightarrow> nat) \<Rightarrow> (nat \<Rightarrow> nat) \<Rightarrow> (nat \<Rightarrow> nat) \<Rightarrow> (nat \<times> line) list" where
  "many_main created delay late =
     filter (\<lambda>(t, l). t < created 19 + 20) (sort_key fst (concat (map (thread_lines created delay late) [0..<20])))"

subsection \<open>Facts\<close>

text \<open>
  \<open>thread_param.cpp\<close>: a thread has added when it is past its write. Every value written is 1 plus a multiple of 20, at
  least one and at most as many additions as there were.
\<close>

fun added :: "func_pc \<Rightarrow> bool" where
  "added PrintNew = True" | "added Returned = True" | "added _ = False"

definition additions :: "tp_state \<Rightarrow> int" where
  "additions s = of_bool (added (pcs s 0)) + of_bool (added (pcs s 1)) + of_bool (added (pcs s 2))"

definition tp_inv :: "tp_state \<Rightarrow> bool" where
  "tp_inv s \<longleftrightarrow> spawned s \<le> 3 \<and> (\<forall>i\<ge>spawned s. pcs s i = PrintX) \<and> 20 dvd val s - 1 \<and> 1 \<le> val s \<and>
     val s \<le> 1 + 20 * additions s \<and> (0 < additions s \<longrightarrow> 21 \<le> val s) \<and>
     (\<forall>i v. pcs s i = Store v \<longrightarrow> 20 dvd v - 1 \<and> 21 \<le> v \<and> v \<le> 21 + 20 * additions s)"

definition tp_final :: "tp_state \<Rightarrow> bool" where
  "tp_final s \<longleftrightarrow> spawned s = 3 \<and> (\<forall>i<3. pcs s i = Returned)"

fun pc_left :: "func_pc \<Rightarrow> nat" where
  "pc_left PrintX = 5" | "pc_left PrintOld = 4" | "pc_left Load = 3" | "pc_left (Store v) = 2" | "pc_left PrintNew = 1" | "pc_left Returned = 0"

definition tp_rank :: "tp_state \<Rightarrow> nat" where
  "tp_rank s = (3 - spawned s) + pc_left (pcs s 0) + pc_left (pcs s 1) + pc_left (pcs s 2)"

lemma below3: "i < (3::nat) \<longleftrightarrow> i = 0 \<or> i = 1 \<or> i = 2"
  by auto

lemma additions_upd:
  "i < 3 \<Longrightarrow> additions (s\<lparr>pcs := (pcs s)(i := p)\<rparr>) = additions s - of_bool (added (pcs s i)) + of_bool (added p)"
  by (auto simp: additions_def below3)

lemma additions_other [simp]:
  "additions (s\<lparr>pcs := f, val := v\<rparr>) = additions (s\<lparr>pcs := f\<rparr>)" "additions (s\<lparr>pcs := f, lines := ls\<rparr>) = additions (s\<lparr>pcs := f\<rparr>)"
  "additions (s\<lparr>spawned := n\<rparr>) = additions s"
  by (simp_all add: additions_def)

lemma additions_nonneg: "0 \<le> additions s"
  by (simp add: additions_def)

lemma tp_inv_step:
  assumes inv: "tp_inv s" and step: "tp_step s t"
  shows "tp_inv t"
  using step
proof cases
  case (store i v)
  then have i: "i < 3" using inv by (simp add: tp_inv_def)
  have v: "20 dvd v - 1" "21 \<le> v" "v \<le> 21 + 20 * additions s" using inv store by (auto simp: tp_inv_def)
  have "additions t = additions s + 1" using store i by (simp add: additions_upd)
  moreover have "w \<le> 21 + 20 * (additions s + 1)" if "pcs s j = Store w" for j w
  proof -
    have "w \<le> 21 + 20 * additions s" using inv that by (auto simp: tp_inv_def)
    then show ?thesis by simp
  qed
  ultimately show ?thesis using inv store v additions_nonneg[of s]
    by (auto simp: tp_inv_def) (metis one_le_numeral order_trans)+
next
  case (load i)
  then have i: "i < 3" using inv by (simp add: tp_inv_def)
  with load have "additions t = additions s" by (simp add: additions_upd)
  moreover have "20 dvd 19 + val s" using dvd_add[of 20 "val s - 1" 20] inv by (simp add: tp_inv_def add.commute)
  ultimately show ?thesis using inv load by (auto simp: tp_inv_def)
next
  case (print_x i)
  then have i: "i < 3" using inv by (simp add: tp_inv_def)
  with print_x have "additions t = additions s" by (simp add: additions_upd)
  with inv print_x show ?thesis by (auto simp: tp_inv_def)
next
  case (print_old i)
  then have i: "i < 3" using inv by (simp add: tp_inv_def)
  with print_old have "additions t = additions s" by (simp add: additions_upd)
  with inv print_old show ?thesis by (auto simp: tp_inv_def)
next
  case (print_new i)
  then have i: "i < 3" using inv by (simp add: tp_inv_def)
  with print_new have "additions t = additions s" by (simp add: additions_upd)
  with inv print_new show ?thesis by (auto simp: tp_inv_def)
qed (use inv in \<open>auto simp: tp_inv_def\<close>)

lemma tp_rank_upd: "i < 3 \<Longrightarrow> tp_rank (s\<lparr>pcs := (pcs s)(i := p)\<rparr>) + pc_left (pcs s i) = tp_rank s + pc_left p"
  by (auto simp: tp_rank_def below3)

lemma tp_rank_other [simp]:
  "tp_rank (s\<lparr>pcs := f, val := v\<rparr>) = tp_rank (s\<lparr>pcs := f\<rparr>)" "tp_rank (s\<lparr>pcs := f, lines := ls\<rparr>) = tp_rank (s\<lparr>pcs := f\<rparr>)"
  by (simp_all add: tp_rank_def)

lemma tp_rank_step:
  assumes "tp_inv s" and step: "tp_step s t"
  shows "tp_rank t < tp_rank s"
proof -
  have upd: "tp_rank (s\<lparr>pcs := (pcs s)(i := p)\<rparr>) < tp_rank s" if "i < spawned s" "pc_left p < pc_left (pcs s i)" for i p
    using tp_rank_upd[of i s p] assms(1) that by (simp add: tp_inv_def)
  from step show ?thesis
  proof cases
    case spawn
    then show ?thesis by (simp add: tp_rank_def)
  qed (auto intro: upd)
qed

lemma tp_progress:
  assumes "tp_inv s" and "\<not> tp_final s"
  shows "\<exists>t. tp_step s t"
proof (cases "spawned s < 3")
  case False
  then obtain i where i: "i < spawned s" "pcs s i \<noteq> Returned" using assms by (auto simp: tp_inv_def tp_final_def)
  then show ?thesis by (cases "pcs s i") (blast intro: tp_step.intros)+
qed (blast intro: spawn)

lemma tp_inv_init: "tp_init s \<Longrightarrow> tp_inv s"
  by (simp add: tp_init_def tp_inv_def additions_def)

interpretation tp: terminating_system tp_init tp_step tp_inv tp_rank tp_final
  by unfold_locales (fact tp_inv_init, fact tp_inv_step, fact tp_rank_step, fact tp_progress)

text \<open>Two threads that have both read the first value; one addition is lost.\<close>

lemma tp_race:
  "reach tp_init tp_step \<lparr>spawned = 2, pcs = (\<lambda>_. PrintX)(0 := Store 21, 1 := Store 21), val = 1, lines = [0, 1, 1, 1]\<rparr>"
    (is "reach _ _ ?r")
proof -
  let ?s0 = "\<lparr>spawned = 0, pcs = (\<lambda>_. PrintX), val = 1, lines = []\<rparr>"
  let ?s2 = "\<lparr>spawned = 2, pcs = (\<lambda>_. PrintX), val = 1, lines = []\<rparr>"
  let ?s3 = "\<lparr>spawned = 2, pcs = (\<lambda>_. PrintX)(0 := PrintOld), val = 1, lines = [0]\<rparr>"
  let ?s4 = "\<lparr>spawned = 2, pcs = (\<lambda>_. PrintX)(0 := PrintOld, 1 := PrintOld), val = 1, lines = [0, 1]\<rparr>"
  let ?s5 = "\<lparr>spawned = 2, pcs = (\<lambda>_. PrintX)(0 := Load, 1 := PrintOld), val = 1, lines = [0, 1, 1]\<rparr>"
  let ?s6 = "\<lparr>spawned = 2, pcs = (\<lambda>_. PrintX)(0 := Load, 1 := Load), val = 1, lines = [0, 1, 1, 1]\<rparr>"
  let ?s7 = "\<lparr>spawned = 2, pcs = (\<lambda>_. PrintX)(0 := Store 21, 1 := Load), val = 1, lines = [0, 1, 1, 1]\<rparr>"
  have "reach tp_init tp_step ?s0" by (rule reach.intros) (simp add: tp_init_def)
  moreover have "tp_step ?s0 (?s0\<lparr>spawned := 1\<rparr>)" "tp_step (?s0\<lparr>spawned := 1\<rparr>) ?s2" using spawn[of ?s0] spawn[of "?s0\<lparr>spawned := 1\<rparr>"] by (simp_all add: eval_nat_numeral)
  moreover have "tp_step ?s2 ?s3" using print_x[of 0 ?s2] by simp
  moreover have "tp_step ?s3 ?s4" using print_x[of 1 ?s3] by simp
  moreover have "tp_step ?s4 ?s5" using print_old[of 0 ?s4] by (simp add: fun_upd_twist)
  moreover have "tp_step ?s5 ?s6" using print_old[of 1 ?s5] by simp
  moreover have "tp_step ?s6 ?s7" using load[of 0 ?s6] by (simp add: fun_upd_twist)
  moreover have "tp_step ?s7 ?r" using load[of 1 ?s7] by simp
  ultimately show ?thesis by (meson reach.intros)
qed

text \<open>\<open>order_process.cpp\<close>: nothing is locked before the first \<open>unlock\<close>.\<close>

definition op_inv :: "op_state \<Rightarrow> bool" where
  "op_inv s \<longleftrightarrow> owner s = (\<lambda>_. None) \<and> (\<forall>w. at_pc s w = Say \<and> index s w = 1 \<or> at_pc s w = Unlock) \<and>
     mset (said s) = (if at_pc s From = Unlock then {#(From, 1)#} else {#}) + (if at_pc s To = Unlock then {#(To, 2)#} else {#})"

definition op_rank :: "op_state \<Rightarrow> nat" where
  "op_rank s = of_bool (\<not> undef s) + of_bool (at_pc s From = Say) + of_bool (at_pc s To = Say)"

lemma op_inv_init: "op_init s \<Longrightarrow> op_inv s"
  by (simp add: op_init_def op_inv_def)

lemma op_inv_step:
  assumes inv: "op_inv s" and step: "op_step s t"
  shows "op_inv t"
  using step
proof cases
  case (say w)
  with inv show ?thesis by (cases w) (auto simp: op_inv_def)
next
  case (lock w)
  with inv show ?thesis by (metis op_inv_def op_pc.distinct(3) op_pc.distinct(5))
qed (use inv in \<open>auto simp: op_inv_def\<close>)

lemma op_rank_step:
  assumes "op_inv s" and step: "op_step s t"
  shows "op_rank t < op_rank s"
  using step
proof cases
  case (say w)
  then show ?thesis by (cases w) (auto simp: op_rank_def)
next
  case (lock w)
  with assms(1) show ?thesis by (metis op_inv_def op_pc.distinct(3) op_pc.distinct(5))
qed (use assms(1) in \<open>auto simp: op_rank_def op_inv_def\<close>)

lemma op_progress:
  assumes "op_inv s" and "\<not> undef s"
  shows "\<exists>t. op_step s t"
proof (cases "at_pc s From")
  case Unlock
  then show ?thesis using assms by (intro exI[of _ "s\<lparr>undef := True\<rparr>"] unlock_undef[of _ From]) (auto simp: op_inv_def)
next
  case Lock
  then show ?thesis using assms(1) by (auto simp: op_inv_def dest: spec[of _ From])
qed (use say assms(2) in blast)

interpretation op: terminating_system op_init op_step op_inv op_rank undef
  by unfold_locales (fact op_inv_init, fact op_inv_step, fact op_rank_step, fact op_progress)

text \<open>No run of \<open>order_process.cpp\<close> gets past the first unlock of either thread.\<close>

lemma order_process_undefined:
  assumes "reach op_init op_step s"
  shows "set (said s) \<subseteq> {(From, 1), (To, 2)}" and "(\<forall>t. \<not> op_step s t) \<Longrightarrow> undef s"
proof -
  have "op_inv s" using assms by (rule op.reach_holds)
  then have m: "mset (said s) = (if at_pc s From = Unlock then {#(From, 1)#} else {#}) + (if at_pc s To = Unlock then {#(To, 2)#} else {#})"
    by (simp add: op_inv_def)
  show "set (said s) \<subseteq> {(From, 1), (To, 2)}" using arg_cong[OF m, of set_mset] by (auto split: if_splits)
  show "(\<forall>t. \<not> op_step s t) \<Longrightarrow> undef s" using op_progress[OF \<open>op_inv s\<close>] by blast
qed

text \<open>\<open>many_thread.cpp\<close>: with less than ten seconds of delay in each thread all of them have ended before the process.\<close>

lemma many_threads_end:
  assumes "\<forall>i<20. created i \<le> created 19 \<and> delay i + late i < 10"
  shows "mset (map snd (many_main created delay late)) = mset (concat (map (\<lambda>i. [Started i, Ended i]) [0..<20]))"
proof -
  let ?all = "concat (map (thread_lines created delay late) [0..<20])"
  have "t < created 19 + 20" if "(t, l) \<in> set ?all" for t l
  proof -
    obtain i where i: "i < 20" "(t, l) \<in> set (thread_lines created delay late i)" using \<open>(t, l) \<in> set ?all\<close> by auto
    have "created i \<le> created 19 \<and> delay i + late i < 10" using assms i(1) by blast
    with i(2) show ?thesis by (auto simp: thread_lines_def Let_def)
  qed
  then have "many_main created delay late = sort_key fst ?all"
    unfolding many_main_def by (intro filter_True) auto
  then have "mset (map snd (many_main created delay late)) = mset (map snd ?all)" by (simp add: mset_map)
  also have "map snd ?all = concat (map (\<lambda>i. [Started i, Ended i]) [0..<20])"
    by (simp add: map_concat comp_def thread_lines_def Let_def)
  finally show ?thesis .
qed

subsection \<open>Properties\<close>

text \<open>
  The shared \<open>int\<close> of \<open>thread_param.cpp\<close>: a race between the write of one thread and an access of another is
  reachable, so the program is undefined. Even where every access is indivisible, a run that can go no further
  has left 21, 41 or 61 in \<open>value\<close>, and not only the 61 of three additions: no addition is made twice or in part, but
  additions can be lost; every run ends.
\<close>

theorem thread_param_values:
  "(\<exists>s. reach tp_init tp_step s \<and> data_race s) \<and>
   (\<forall>s. reach tp_init tp_step s \<longrightarrow> (\<forall>t. \<not> tp_step s t) \<longrightarrow> tp_final s \<and> val s \<in> {21, 41, 61}) \<and>
   (\<forall>s. reach tp_init tp_step s \<longrightarrow> (\<exists>t. tp_step\<^sup>*\<^sup>* s t \<and> tp_final t))"
proof (intro conjI allI impI)
  have "data_race \<lparr>spawned = 2, pcs = (\<lambda>_. PrintX)(0 := Store 21, 1 := Store 21), val = 1, lines = [0, 1, 1, 1]\<rparr>"
    unfolding data_race_def by (intro exI[of _ "0::nat"] conjI exI[of _ "1::nat"]) simp_all
  with tp_race show "\<exists>s. reach tp_init tp_step s \<and> data_race s" by blast
next
  fix s assume r: "reach tp_init tp_step s"
  have inv: "tp_inv s" using r by (rule tp.reach_holds)
  show "\<exists>t. tp_step\<^sup>*\<^sup>* s t \<and> tp_final t" using inv by (rule tp.can_finish)
  assume stuck: "\<forall>t. \<not> tp_step s t"
  then show fin: "tp_final s" using tp_progress[OF inv] by blast
  have "additions s = 3" using fin by (simp add: tp_final_def additions_def)
  with inv have v: "20 dvd val s - 1" "21 \<le> val s" "val s \<le> 61" by (auto simp: tp_inv_def)
  then obtain k where k: "val s = 1 + 20 * k" by (metis add.commute diff_add_cancel dvd_def)
  then have "k = 1 \<or> k = 2 \<or> k = 3" using v by linarith
  with k show "val s \<in> {21, 41, 61}" by auto
qed

theorem thread_param_values_witness:
  "\<exists>s. reach tp_init tp_step s \<and> tp_final s \<and> val s \<in> {21, 41, 61}"
proof -
  let ?s0 = "\<lparr>spawned = 0, pcs = (\<lambda>_. PrintX), val = 1, lines = []\<rparr>"
  have r0: "reach tp_init tp_step ?s0" by (rule reach_ini) (simp add: tp_init_def)
  with thread_param_values obtain t where t: "tp_step\<^sup>*\<^sup>* ?s0 t" "tp_final t" by blast
  have r: "reach tp_init tp_step t" using t(1) r0 by (rule reach_rtranclp)
  have "\<not> tp_step t u" for u
  proof
    assume "tp_step t u"
    then show False using t(2) by cases (auto simp: tp_final_def)
  qed
  with thread_param_values r t(2) show ?thesis by blast
qed

end
