(* ===== verification/Lang_Samples.thy ===== *)
theory Lang_Samples
  imports Posix_IO "HOL-Library.Word"
begin

text \<open>
  Small programs about the language: callbacks and bound functions (\<open>code/boost_doc/Function/function.cpp\<close>,
  \<open>bind_function.cpp\<close>), the capacity of a vector (\<open>code/lang/vector_size.cpp\<close>), a traversal that moves
  (\<open>move_iterator.cpp\<close>) and casts (\<open>cast.cpp\<close>).
\<close>

definition int32 :: "int \<Rightarrow> bool" where
  "int32 x \<longleftrightarrow> - (2 ^ 31) \<le> x \<and> x < 2 ^ 31"

text \<open>The result of an operation on \<open>int\<close>, undefined when it does not fit.\<close>

definition fit :: "int \<Rightarrow> c_error + int" where
  "fit x = (if int32 x then Inr x else Inl SignedOverflow)"

subsection \<open>\<open>function.cpp\<close>\<close>

record math_call_back =
  ops1 :: int
  ops2 :: int
  result :: int

text \<open>\<open>Add\<close>: the callback \<open>func\<close> changes the state \<open>'s\<close> of its owner.\<close>

definition Add :: "int \<Rightarrow> int \<Rightarrow> (int \<Rightarrow> 's \<Rightarrow> 's) \<Rightarrow> math_call_back \<times> 's \<Rightarrow> c_error + math_call_back \<times> 's" where
  "Add a b func = (\<lambda>(m, s).
     case fit \<bar>a\<bar> of Inl e \<Rightarrow> Inl e | Inr x \<Rightarrow>
     (case fit \<bar>b\<bar> of Inl e \<Rightarrow> Inl e | Inr y \<Rightarrow>
     (case fit (x + y) of Inl e \<Rightarrow> Inl e | Inr r \<Rightarrow> Inr (m\<lparr>ops1 := x, ops2 := y, result := r\<rparr>, func r s))))"

text \<open>\<open>main\<close>: the state of the lambda is \<open>c1\<close> and what was printed.\<close>

definition function_main :: "math_call_back \<Rightarrow> c_error + (string \<times> int) list" where
  "function_main m =
     (case Add 1 3 (\<lambda>r (c1, out). (r, out @ [(''result'', r)])) (m, 0, []) of
        Inl e \<Rightarrow> Inl e
      | Inr (m', c1, out) \<Rightarrow> Inr (out @ [(''c1'', c1)]))"

subsection \<open>\<open>bind_function.cpp\<close>\<close>

text \<open>
  \<open>std::bind\<close>: an argument is kept as a copy, refers to a variable (\<open>std::ref\<close>, \<open>std::cref\<close>) or stands for an
  argument of the call. The variables are a store. Too few arguments in a call do not compile (\<open>None\<close>).
\<close>

datatype bound = Copy int | RefTo string | Place nat

fun actual :: "(string \<Rightarrow> int) \<Rightarrow> int list \<Rightarrow> bound \<Rightarrow> int option" where
  "actual store args (Copy v) = Some v"
| "actual store args (RefTo x) = Some (store x)"
| "actual store args (Place n) = (if 1 \<le> n \<and> n \<le> length args then Some (args ! (n - 1)) else None)"

definition bind_call :: "(int list \<Rightarrow> 'r) \<Rightarrow> bound list \<Rightarrow> (string \<Rightarrow> int) \<Rightarrow> int list \<Rightarrow> 'r option" where
  "bind_call f bs store args =
     (if None \<in> set (map (actual store args) bs) then None else Some (f (map (the \<circ> actual store args) bs)))"

text \<open>The functions print a name and a sum; those that return it are \<open>Func\<close> and \<open>A::Func\<close>.\<close>

definition Func :: "int list \<Rightarrow> string \<times> int" where "Func xs = (''Func'', xs ! 0 + xs ! 1)"
definition A_Func :: "int list \<Rightarrow> string \<times> int" where "A_Func xs = (''A::Func'', xs ! 0 + xs ! 1)"
definition f_print :: "int list \<Rightarrow> string \<times> int" where "f_print xs = (''f'', xs ! 0 + xs ! 1 + xs ! 2)"

definition bind_main :: "(string \<times> int) option list" where
  "bind_main =
     (let store = (\<lambda>_. 0)(''n1'' := 1, ''n2'' := 2, ''n3'' := 3) in
      [bind_call Func [Copy 10, Place 1] store [20],
       bind_call A_Func [Place 1, Place 2] store [10, 20],
       bind_call A_Func [Place 1, Copy 100] store [10],
       bind_call f_print [Copy (store ''n1''), RefTo ''n2'', RefTo ''n3''] store []])"

subsection \<open>\<open>vector_size.cpp\<close>\<close>

text \<open>
  A vector by its size and capacity. \<open>grow\<close> is the new capacity of a full vector of that size, \<open>room\<close> the one
  after a \<open>reserve\<close> that needs more; the standard asks for enough in both.
\<close>

type_synonym vec = "nat \<times> nat"

definition reserve :: "(nat \<Rightarrow> nat) \<Rightarrow> nat \<Rightarrow> vec \<Rightarrow> vec" where
  "reserve room n v = (if snd v < n then (fst v, room n) else v)"

definition push_back :: "(nat \<Rightarrow> nat) \<Rightarrow> vec \<Rightarrow> vec" where
  "push_back grow v = (fst v + 1, if fst v = snd v then grow (fst v) else snd v)"

definition growth_law :: "(nat \<Rightarrow> nat) \<Rightarrow> (nat \<Rightarrow> nat) \<Rightarrow> bool" where
  "growth_law grow room \<longleftrightarrow> (\<forall>n. n < grow n) \<and> (\<forall>n. n \<le> room n)"

definition size_pass :: "(nat \<Rightarrow> nat) \<Rightarrow> (nat \<Rightarrow> nat) \<Rightarrow> nat \<Rightarrow> vec \<times> nat list \<Rightarrow> vec \<times> nat list" where
  "size_pass grow room i = (\<lambda>(v, out).
     let v = (if i mod 5 = 4 then reserve room 3 v else v); w = push_back grow v
     in (w, out @ [snd v, snd w]))"

definition vector_main :: "(nat \<Rightarrow> nat) \<Rightarrow> (nat \<Rightarrow> nat) \<Rightarrow> nat list" where
  "vector_main grow room = snd (fold (size_pass grow room) [0..<10] ((0, 0), []))"

subsection \<open>\<open>move_iterator.cpp\<close>\<close>

text \<open>
  \<open>std::accumulate\<close> over move iterators: each element is added as an rvalue and left in a valid state that the
  standard does not specify (\<open>hollow\<close>). The results are the string, the vector and the three sizes printed.
\<close>

fun accumulate_moving :: "(string \<Rightarrow> string) \<Rightarrow> string \<Rightarrow> string list \<Rightarrow> string \<times> string list" where
  "accumulate_moving hollow acc [] = (acc, [])"
| "accumulate_moving hollow acc (x # xs) =
     (let (r, ys) = accumulate_moving hollow (acc @ x) xs in (r, hollow x # ys))"

definition move_main :: "(string \<Rightarrow> string) \<Rightarrow> string list \<Rightarrow> string \<times> string list \<times> nat list" where
  "move_main hollow v =
     (let (s, w) = accumulate_moving hollow [] v in (s, w, [length v, length w, length w]))"

subsection \<open>\<open>cast.cpp\<close>\<close>

text \<open>The values printed; addresses are left out. \<open>char\<close> has eight bits.\<close>

definition to_char :: "32 word \<Rightarrow> 8 word" where "to_char x = ucast x"

definition cast_main :: "int list" where
  "cast_main =
     (let a = 1 :: 32 word; i2c = to_char a; b = 2 :: 32 word; ci2c = to_char b; c = -1 :: 32 word;
          unname = c; x = a
      in [sint a, sint i2c, sint b, sint ci2c, uint unname, sint c, uint c, sint x, sint x])"

subsection \<open>Facts\<close>

lemma fit_iff: "fit x = Inr y \<longleftrightarrow> int32 x \<and> y = x"
  by (auto simp: fit_def)

text \<open>\<open>Add\<close> calls back with the sum exactly when that fits an \<open>int\<close>; \<open>abs(INT_MIN)\<close> is undefined too.\<close>

lemma Add_result:
  "Add a b func (m, s) =
     (if \<bar>a\<bar> + \<bar>b\<bar> < 2 ^ 31 then Inr (m\<lparr>ops1 := \<bar>a\<bar>, ops2 := \<bar>b\<bar>, result := \<bar>a\<bar> + \<bar>b\<bar>\<rparr>, func (\<bar>a\<bar> + \<bar>b\<bar>) s) else Inl SignedOverflow)"
proof (cases "\<bar>a\<bar> < 2 ^ 31 \<and> \<bar>b\<bar> < 2 ^ 31")
  case True
  then have "fit \<bar>a\<bar> = Inr \<bar>a\<bar>" "fit \<bar>b\<bar> = Inr \<bar>b\<bar>" by (simp_all add: fit_iff int32_def)
  moreover have "fit (\<bar>a\<bar> + \<bar>b\<bar>) = (if \<bar>a\<bar> + \<bar>b\<bar> < 2 ^ 31 then Inr (\<bar>a\<bar> + \<bar>b\<bar>) else Inl SignedOverflow)"
    unfolding fit_def int32_def by (simp add: order_trans[of _ 0])
  ultimately show ?thesis by (simp add: Add_def)
next
  case False
  then have "\<not> \<bar>a\<bar> + \<bar>b\<bar> < 2 ^ 31" by linarith
  with False show ?thesis by (auto simp: Add_def fit_def int32_def)
qed

lemma function_main_lines: "function_main m = Inr [(''result'', 4), (''c1'', 4)]"
  by (simp add: function_main_def Add_result)

text \<open>A copied argument is the value at the time of \<open>std::bind\<close>, a reference the value at the time of the call.\<close>

lemma bind_times:
  "bind_call f_print [Copy (store x), RefTo y, RefTo z] store' [] = Some (''f'', store x + store' y + store' z)"
  by (simp add: bind_call_def f_print_def)

lemma bind_main_lines: "bind_main = [Some (''Func'', 30), Some (''A::Func'', 30), Some (''A::Func'', 110), Some (''f'', 6)]"
  by (simp add: bind_main_def bind_call_def Func_def A_Func_def f_print_def Let_def)

text \<open>When \<open>reserve(3)\<close> is called the vector has room already, so the capacities are those of the plain loop.\<close>

definition plain_pass :: "(nat \<Rightarrow> nat) \<Rightarrow> nat \<Rightarrow> vec \<times> nat list \<Rightarrow> vec \<times> nat list" where
  "plain_pass grow i = (\<lambda>(v, out). (push_back grow v, out @ [snd v, snd (push_back grow v)]))"

lemma size_pass_plain:
  assumes "growth_law grow room" and "fst v = i" and "fst v \<le> snd v"
  shows "size_pass grow room i (v, out) = plain_pass grow i (v, out)"
    and "fst (push_back grow v) = i + 1" and "fst (push_back grow v) \<le> snd (push_back grow v)"
proof -
  have "\<not> snd v < 3" if "i mod 5 = 4" using that assms(2,3) mod_less_eq_dividend[of i 5] by linarith
  then show "size_pass grow room i (v, out) = plain_pass grow i (v, out)"
    by (simp add: size_pass_def plain_pass_def reserve_def Let_def)
  show "fst (push_back grow v) = i + 1" "fst (push_back grow v) \<le> snd (push_back grow v)"
    using assms by (auto simp: push_back_def growth_law_def Suc_le_eq)
qed

lemma size_passes_plain:
  "growth_law grow room \<Longrightarrow> fst v = i \<Longrightarrow> fst v \<le> snd v \<Longrightarrow>
     fold (size_pass grow room) [i..<i + k] (v, out) = fold (plain_pass grow) [i..<i + k] (v, out)"
proof (induction k arbitrary: i v out)
  case (Suc k)
  have "[i..<i + Suc k] = i # [Suc i..<Suc i + k]" by (simp add: upt_conv_Cons)
  moreover obtain out' where "plain_pass grow i (v, out) = (push_back grow v, out')" by (simp add: plain_pass_def)
  moreover have "fold (size_pass grow room) [Suc i..<Suc i + k] (push_back grow v, out') =
      fold (plain_pass grow) [Suc i..<Suc i + k] (push_back grow v, out')"
    using size_pass_plain(2,3)[OF Suc.prems] Suc.prems(1) by (intro Suc.IH) auto
  ultimately show ?case using size_pass_plain(1)[OF Suc.prems, of out] by simp
qed simp

lemma reserve_unused: "growth_law grow room \<Longrightarrow> vector_main grow room = snd (fold (plain_pass grow) [0..<10] ((0, 0), []))"
  using size_passes_plain[of grow room "(0, 0)" 0 10 "[]"] by (simp add: vector_main_def)

text \<open>Moving through a vector collects all of it and keeps its size.\<close>

lemma accumulate_moving_result: "accumulate_moving hollow acc xs = (acc @ concat xs, map hollow xs)"
  by (induction hollow acc xs rule: accumulate_moving.induct) simp_all

lemma move_main_result: "move_main hollow v = (concat v, map hollow v, [length v, length v, length v])"
  by (simp add: move_main_def accumulate_moving_result)

lemma cast_main_values: "cast_main = [1, 1, 2, 2, 4294967295, -1, 4294967295, 1, 1]"
  by (simp add: cast_main_def to_char_def Let_def unsigned_minus_1_eq_mask mask_eq_exp_minus_1)

end
