(* ===== verification/Spec2Isabelle.thy ===== *)
theory Spec2Isabelle
  imports Prelude Posix_IO Select_Server Poll_Server Epoll_Kernel Epoll_Echo Long_Connection Long_Connection_Spec
    Thread_Pool Parallel_Sum My_Future Fizz_Buzz Producer_Consumer Commit_Pool Stock_Quote Shm_Shell Stream_Copy
    Readers_Writers Turn_Taking Asio_Echo Stream_Setup Time_Stamp Line_Count Raw_Struct Vector_Alloc Std_Future Cond_Turns
    Log_Source Log_Filter Log_Ipc Log_Attributes Shm_Map Shared_Ptr Value_Category Call_Once Containers
    Echo_Pairs Fifo_Pipe Address Time_Text Thread_Samples Lang_Samples
begin

text \<open>
  A verification of the programs under \<open>src/code\<close>.

  The repository is a collection of C and C++ programs about network I/O, threads and
  inter-process communication. Each directory holds programs of its own; they share no
  code but the class \<open>fixed_thread_pool\<close>, which is in \<open>concurrent/threadpool.cpp\<close> and again in
  \<open>concurrent/sum.cpp\<close>, and they interact in pairs over a descriptor: a server with its client,
  a parent with its child. So the development has a theory per program or pair, on a common base.

  \<^bold>\<open>The base.\<close> \<open>Prelude\<close>: \<open>reach\<close> (the states a step relation reaches) and the locales
  \<open>inductive_invariant\<close>, \<open>ranked_system\<close>, \<open>terminating_system\<close> (each extends the one before: an
  invariant; a rank that bounds every run; progress, so a run that cannot go on has
  ended well) and \<open>state_family\<close> (the reachable states listed by a few parameters); \<open>foldE\<close> and
  the locale \<open>event_machine\<close> for loops whose body can fail; C buffers (\<open>blit\<close>, \<open>strlen\<close>, \<open>zeros\<close>). \<open>Posix_IO\<close>: results of
  system calls, the calls a program makes, and \<open>c_error\<close>, the undefined behaviours
  (an index out of range, a string without terminator, a signed overflow). \<open>Sync\<close>: mutex,
  condition variable with its wait set, notifications.

  \<^bold>\<open>I/O multiplexing\<close> (\<open>network/IO/multiplexing\<close>). \<open>Select_Server\<close> (\<open>via_select\<close>), \<open>Poll_Server\<close>
  (\<open>via_poll\<close>), \<open>Epoll_Echo\<close> (\<open>via_epoll\<close>): one definition per C function, one pass of the server's
  loop as a function of what the kernel answers. Shown: the table of clients is well formed
  in every pass and every connected client is watched; what is sent back to a
  client is what it sent; the poll server refines a set of clients, the epoll server with one event at a time a
  server with a private buffer per client. \<open>Epoll_Kernel\<close> (\<open>epoll_detail.cpp\<close>, the kernel functions the file
  quotes): over any calls \<open>epoll_ctl\<close> refines a map from descriptors to events, given the laws
  \<open>tree_laws\<close> of the red-black tree the excerpt only calls, which speak of the uses the excerpt makes of a tree in its
  invariant; level and edge triggering of \<open>ep_poll\<close>.
  \<open>Long_Connection\<close> and \<open>Long_Connection_Spec\<close> (\<open>network/TCP/long_connection.server.c\<close>, \<open>.client.c\<close>): the
  union in \<open>epoll_data\<close>, the heap blocks and the retry loops, and a simulation of a server with one pending text per client.
  \<open>Echo_Pairs\<close>: the epoll and the poll server each in conversation with its client, joined by the bytes in flight.

  \<^bold>\<open>Streams\<close>. \<open>Stream_Copy\<close> (\<open>IPC/PIPE\<close>, \<open>IPC/Socket\<close>, \<open>network/TCP/REUSE_PORT\<close>): the read loops meet the locale
  \<open>chunk_receiver\<close>, so what arrives does not depend on how the stream is cut, except through the uninitialised or full
  buffers of two of them, which is stated exactly; \<open>Stream_Setup\<close>: the programs around
  these loops with every failing call, and \<open>boost_doc/IO/port.cpp\<close>. \<open>Fifo_Pipe\<close>: both processes of \<open>fifo_pipe.cpp\<close>
  with the pipe and the signal between them. \<open>Raw_Struct\<close> (\<open>transfer_data.cpp\<close>): the bytes of a
  \<open>struct\<close>. \<open>Stock_Quote\<close> (\<open>boost_doc/IO/connection.hpp\<close>, \<open>server.cpp\<close>, \<open>client.cpp\<close>): messages with a length
  header, their round trip for every serialiser that can be undone. \<open>Asio_Echo\<close> (\<open>demo.cpp\<close>, \<open>aServer.cpp\<close>): handlers
  as functions, \<open>run\<close> as the sequence of completions. \<open>Address\<close> (\<open>network/convert.cpp\<close>, \<open>boost_doc/IO/ip.cpp\<close>, \<open>main\<close> of
  \<open>REUSE_PORT/client.cpp\<close>): addresses and their texts.

  \<^bold>\<open>Threads\<close> (\<open>concurrent\<close>, \<open>boost_doc/Function/threadpool.cpp\<close>, \<open>boost_doc/DS/time.cpp\<close>). \<open>Thread_Pool\<close>, \<open>Commit_Pool\<close>,
  \<open>My_Future\<close>, \<open>Fizz_Buzz\<close>, \<open>Producer_Consumer\<close>, \<open>Readers_Writers\<close>, \<open>Turn_Taking\<close>, \<open>Cond_Turns\<close>, \<open>Std_Future\<close>,
  \<open>Call_Once\<close>, \<open>Shared_Ptr\<close> (\<open>lang/shared_ptr.cpp\<close>, \<open>static_template.cpp\<close>) are step relations; a step is what a thread does between two points at which another can
  see the difference, so a critical section, or an access to an atomic variable, is one
  step. Every property holds for all interleavings; spurious wake-ups are steps of their own
  (\<open>pool_any\<close>, \<open>fb_any\<close>, ...) where safety is concerned and are left out where the end of a run is.
  \<open>Parallel_Sum\<close>: the arithmetic of \<open>sum.cpp\<close>. \<open>Thread_Samples\<close> (\<open>thread_param.cpp\<close>, \<open>order_process.cpp\<close>, \<open>many_thread.cpp\<close>): a data
  race, an unlock of a mutex that is not owned, and threads that outlive their sleep.

  \<^bold>\<open>Logging\<close> (\<open>boost_doc/log/src\<close>, \<open>lang/log.cpp\<close>), over Boost.Log as an argument with its documented laws. \<open>Log_Source\<close>
  (\<open>sources.cpp\<close>): the classes that log a connection refine a logger that knows the current address.
  \<open>Log_Filter\<close> (\<open>complex_filter.cpp\<close>, \<open>log.cpp\<close>, \<open>formatter.cpp\<close>, \<open>utilities.cpp\<close>, \<open>record.cpp\<close>): filters, formatters and
  typed visitors. \<open>Log_Attributes\<close> (\<open>Attributes.cpp\<close>, \<open>trivial.cpp\<close>, \<open>simple_filter.cpp\<close>, \<open>sinks.cpp\<close>, \<open>sink_backend.cpp\<close>): functions as
  their calls on the library, attributes that last as long as their scope, the global filter. \<open>Log_Ipc\<close> (\<open>text_ipc_backend.cpp\<close>): a logging and a viewing process over a message queue.

  \<^bold>\<open>The rest\<close>. \<open>Shm_Shell\<close> (\<open>IPC/SHM/SystemV/placement.cpp\<close>: a shell, and which of its sessions have defined
  behaviour), \<open>Shm_Map\<close> (\<open>IPC/SHM/Posix/mmap.cpp\<close>), \<open>Time_Stamp\<close>, \<open>Line_Count\<close>, \<open>Vector_Alloc\<close>
  (\<open>lang/time_stump.cpp\<close>; \<open>getline.cpp\<close>, \<open>cut_line.cpp\<close>, \<open>file_iterator.cpp\<close>, \<open>redirect.cpp\<close>; \<open>my_allocater.cpp\<close>).
  \<open>Value_Category\<close> (\<open>lang/forward.cpp\<close>, \<open>template_func_overload.cpp\<close>, \<open>function_sig.cpp\<close>): which overload is called, by
  value category. \<open>Containers\<close> (\<open>boost_doc/IO/serlizrlisze.cpp\<close>, \<open>DS/any.cpp\<close>, \<open>Tool/progress_bar.cpp\<close>,
  \<open>lang/param_iter.cpp\<close>): an archive that is read back, and loops over containers. \<open>Time_Text\<close> (\<open>lang/time_stamp.cpp\<close>): the texts of
  a time. \<open>Lang_Samples\<close> (\<open>boost_doc/Function/function.cpp\<close>, \<open>bind_function.cpp\<close>, \<open>lang/vector_size.cpp\<close>, \<open>move_iterator.cpp\<close>, \<open>cast.cpp\<close>):
  callbacks, bound arguments, capacities, moved-from elements.

  \<^bold>\<open>Conventions\<close>. The kernel, the clock, random numbers, \<open>malloc\<close> and the libraries outside the
  repository are arguments: lists of answers, or functions with their documented laws as
  hypotheses. A failure is a value: \<open>Inl\<close> of an error type of the theory; exits, exceptions and
  undefined behaviour differ. No fuel is used. A loop over answers ends with
  the list of answers (and says so: \<open>Unfinished\<close>, \<open>Blocked\<close>); loops that end by themselves
  are functions with a termination proof; loops that may not end are
  \<open>partial_function (option)\<close>, with \<open>None\<close> proved where they do not; the threads' programs
  have ranks. Texts printed in Chinese are given in English or left out, as each theory says.

  \<^bold>\<open>Locales and their instances\<close>. \<open>event_machine\<close>: the passes of the select and the poll server.
  \<open>inductive_invariant\<close>, \<open>ranked_system\<close>, \<open>terminating_system\<close>, \<open>state_family\<close>: every thread program.
  \<open>bag_pool\<close> and \<open>fifo_pool\<close>: the pools of the producer-consumer programs that print what they take, first-in-first-out or not.
  \<open>chunk_receiver\<close>: the three read loops that keep every byte; the fourth, of \<open>UNIX_socket.cpp\<close>, does
  not meet its law, which is shown as \<open>unix_stale_bytes\<close>. \<open>event_refinement\<close>: both classes of \<open>sources.cpp\<close>.

  \<^bold>\<open>Not modelled\<close>. \<open>cpplint.py\<close> is a vendored tool. \<open>SHM_Manager.h\<close> is
  commented out; \<open>write_node.cpp\<close> has merge markers in it, \<open>deadlocking.cpp\<close>, \<open>parallel_sum.cpp\<close>,
  \<open>boost_doc/IO/asio.cpp\<close>, \<open>lang/unorderd.cpp\<close>, \<open>lang/macro.cpp\<close> and, of \<open>boost_doc/log\<close>, \<open>core.cpp\<close>, \<open>logger_storage.cpp\<close>, \<open>sink_frontend.cpp\<close>,
  \<open>syslog_backend.cpp\<close> and \<open>dedicated_log.cpp\<close> do not compile, so they have no behaviour to state. The rotation of log files
  (\<open>t_f_b\<close> of \<open>sink_backend.cpp\<close>) is configuration of the library. The other samples of \<open>lang\<close> print sizes that depend on the
  ABI, addresses, or results of a library on literal values.

  This theory holds two properties that span components: the \<open>SO_REUSEPORT\<close> clients with the four
  workers of the server, and a client of the long-connection server in conversation with it.
\<close>

subsection \<open>Properties across components\<close>

text \<open>
  C13. The \<open>SO_REUSEPORT\<close> programs together: when the kernel hands the connections of clients, each of which
  has sent its file \<open>f\<close> undisturbed by other threads, to the four workers, in whatever way and with whatever cutting of their bytes
  into reads of at most 1024, each worker announces itself and prints, for every
  connection it accepted, the file of that client without its newlines, once and in the
  order of the accepts.
\<close>

theorem reuse_port_delivers:
  assumes "\<forall>i<4. ru_socket (env i) \<noteq> -1 \<and> ru_bind (env i) \<noteq> -1 \<and> ru_listen (env i) = 0"
    and "\<forall>i<4. \<forall>(f, cs) \<in> set (conns i). concat cs = concat (reuse_client f) \<and> (\<forall>c \<in> set cs. c \<noteq> [] \<and> length c \<le> 1024)"
  shows "ru_main env junk (\<lambda>i. map (\<lambda>(f, cs). map ReadOk cs @ [ReadOk []]) (conns i)) =
    map (\<lambda>i. (announce (env i) @ map (\<lambda>(f, cs). Cout (filter (\<lambda>c. c \<noteq> NL) f)) (conns i), Blocked)) [0..<4]"
proof -
  have "ru_worker (env i) junk (map (\<lambda>(f, cs). map ReadOk cs @ [ReadOk []]) (conns i)) =
      (announce (env i) @ map (\<lambda>(f, cs). Cout (filter (\<lambda>c. c \<noteq> NL) f)) (conns i), Blocked)" if i: "i < 4" for i
  proof -
    have "ru_worker (env i) junk (map (\<lambda>cs. map ReadOk cs @ [ReadOk []]) (map snd (conns i))) =
        (announce (env i) @ map (\<lambda>cs. Cout (concat cs)) (map snd (conns i)), Blocked)"
      using assms i by (intro reuse_worker_prints) fastforce+
    moreover have "map (\<lambda>cs. Cout (concat cs)) (map snd (conns i)) = map (\<lambda>(f, cs). Cout (filter (\<lambda>c. c \<noteq> NL) f)) (conns i)"
      using assms(2) i by (fastforce simp: reuse_client_def concat_getlines)
    ultimately show ?thesis by (simp add: comp_def case_prod_unfold)
  qed
  then show ?thesis by (simp add: ru_main_def)
qed

theorem reuse_port_delivers_witness:
  "ru_main (\<lambda>_. \<lparr>ru_socket = 3, ru_bind = 0, ru_listen = 0, ru_getsockname = 0, ru_family = AF_INET, inet_ntoa = ''a'',
      ntop_in_8 = [], ru_errno = []\<rparr>) ''??'' (\<lambda>i. if i = 1 then [[ReadOk ''ab'', ReadOk ''c'', ReadOk []]] else []) ! 1 =
    ([Cout ''a'', Cout ''abc''], Blocked)"
proof -
  let ?env = "\<lambda>_::nat. \<lparr>ru_socket = 3, ru_bind = 0, ru_listen = 0, ru_getsockname = 0, ru_family = AF_INET, inet_ntoa = ''a'',
      ntop_in_8 = [], ru_errno = []\<rparr>"
  let ?conns = "\<lambda>i::nat. if i = 1 then [(''abc'', [''ab'', ''c''])] else []"
  have g: "concat (reuse_client ''abc'') = ''abc''" by (simp add: reuse_client_def concat_getlines)
  have "(\<lambda>i. map (\<lambda>(f, cs). map ReadOk cs @ [ReadOk []]) (?conns i)) =
      (\<lambda>i. if i = 1 then [[ReadOk ''ab'', ReadOk ''c'', ReadOk []]] else [])" by (simp add: fun_eq_iff)
  with reuse_port_delivers[of ?env ?conns "''??''"] g show ?thesis by (simp add: announce_def)
qed

text \<open>
  C14. The long-connection client and server together. The server runs over any sequence of \<open>epoll_wait\<close> results,
  with any other clients; a client that it knows as \<open>f\<close> types lines and reads replies, in each round one of either. When the
  bytes the server has taken from \<open>f\<close>, followed by those still on their way (\<open>up\<close>), are what the client wrote, and the
  bytes the server has sent to \<open>f\<close> are those the client has read, followed by those on their way back (\<open>down\<close>), then
  the client sends its lines and prints the replies one by one, and what it has printed, what is on its way back, the reply the
  server still has to send and what is on its way there are, in this order, exactly the lines typed: nothing is
  lost, repeated, reordered or comes from another client.
\<close>

theorem long_conversation:
  assumes "kernel_ok l batches (run_start l)" and "l mod 16 \<noteq> 0" and "epfd \<noteq> -1" and "bind_result \<noteq> -1"
    and "Long_Connection.run epfd l bind_result False (map Some batches) = Inr s" and "f \<noteq> l"
    and "\<forall>(d, r) \<in> set talk. typed d \<and> r \<noteq> [] \<and> length r \<le> MAXLEN" and "stop = None \<or> (\<exists>d. stop = Some (CHR ''#'' # d))"
    and "concat (map fst talk) = lc_input l f (concat batches) (lc_spec_start l) @ up"
    and "bytes_to f (lacts s) = concat (map snd talk) @ down"
  shows "client_handle sock (map (\<lambda>(d, r). (Some d, ReadOk r)) talk @ [(stop, unread)]) =
      Inr (concat (map (\<lambda>(d, r). [Write sock d, Write 1 r, Diag ''time diff'']) talk) @ [Close sock]) \<and>
    concat (map snd talk) @ down @ pending_reply (lc_abs s) f @ up = concat (map fst talk)"
proof
  show "client_handle sock (map (\<lambda>(d, r). (Some d, ReadOk r)) talk @ [(stop, unread)]) =
      Inr (concat (map (\<lambda>(d, r). [Write sock d, Write 1 r, Diag ''time diff'']) talk) @ [Close sock])"
    using assms(7,8) by (rule client_talk)
  let ?t = "lc_spec_start l" and ?in = "lc_input l f (concat batches) (lc_spec_start l)"
  have run: "lc_spec_run l (concat batches) ?t = Some (lc_abs s)"
    using run_refines_spec[OF assms(1-4)] assms(5) by simp
  have "NUL \<notin> set (concat (map fst talk))" using assms(7) by (fastforce simp: typed_def)
  then have "NUL \<notin> set ?in" unfolding assms(9) by simp
  from spec_conserves[OF run assms(6) this] have "bytes_to f (lacts s) @ pending_reply (lc_abs s) f = ?in"
    using assms(6) by (simp add: lc_abs_def lc_spec_start_def pending_reply_def)
  then show "concat (map snd talk) @ down @ pending_reply (lc_abs s) f @ up = concat (map fst talk)"
    unfolding assms(9,10) by (metis append_assoc)
qed

theorem long_conversation_witness:
  "client_handle 3 [(Some ''hello'', ReadOk ''hel''), (None, ReadErr 0)] =
     Inr [Write 3 ''hello'', Write 1 ''hel'', Diag ''time diff'', Close 3] \<and>
   (\<exists>s. Long_Connection.run 3 4 0 False (map Some ex_batches) = Inr s \<and> ''hel'' @ ''lo'' @ pending_reply (lc_abs s) 5 = ''hello'')"
proof -
  have b: "EPOLLIN \<noteq> 0" "EPOLLOUT \<noteq> 0" by (simp_all add: event_bits)
  have t: "\<exists>t. lc_spec_run 4 (concat ex_batches) (lc_spec_start 4) = Some t \<and> Long_Connection_Spec.sent t 5 = ''hello''"
    "lc_input 4 5 (concat ex_batches) (lc_spec_start 4) = ''hello''"
    by (simp_all add: ex_batches_def ex_defs lc_spec_start_def lc_spec_event_def event_input_def Let_def b EAGAIN_def ETIMEDOUT_def c_text_def)
  with run_refines_spec[OF ex_kernel_ok, of 3 0] obtain s where
    s: "Long_Connection.run 3 4 0 False (map Some ex_batches) = Inr s" "bytes_to 5 (lacts s) = ''hello''"
    by (auto simp: lc_abs_def split: sum.splits)
  have "client_handle 3 (map (\<lambda>(d, r). (Some d, ReadOk r)) [(''hello'', ''hel'')] @ [(None, ReadErr 0)]) =
      Inr (concat (map (\<lambda>(d, r). [Write 3 d, Write 1 r, Diag ''time diff'']) [(''hello'', ''hel'')]) @ [Close 3]) \<and>
    concat (map snd [(''hello'', ''hel'')]) @ ''lo'' @ pending_reply (lc_abs s) 5 @ [] = concat (map fst [(''hello'', ''hel'')])"
    using t(2) s(2) by (intro long_conversation[OF ex_kernel_ok _ _ _ s(1)]) (simp_all add: typed_def MAXLEN_def)
  with s(1) show ?thesis by (simp only: list.map concat.simps fst_conv snd_conv append.simps prod.case append_Nil2) blast
qed

end
